(* ===== verification/Kern_Prelude.thy ===== *)
theory Kern_Prelude
  imports Main "HOL-Library.Word"
begin

text \<open>
  Shared vocabulary of the development: the outcome type of kernel code, sequencing of fallible
  steps, bounds-checked access to a C array, and the facts on arrays and bit masks that every
  component uses.  A C array is a list; an access outside it is the error \<open>Bad_Access\<close>, so that
  a theorem of the form "the call returns \<open>Inr\<close>" is also a statement of memory safety.
\<close>

section \<open>Outcomes of kernel code\<close>

text \<open>
  \<open>Panic\<close> is a call of \<open>panic()\<close> or a failed \<open>KKASSERT\<close> (with its message), \<open>Bad_Access\<close> an access
  outside an allocation, \<open>Undefined_Shift\<close> a shift by a count outside the width of the operand,
  \<open>Diverge\<close> a loop whose control variable stands still, \<open>Bad_Arg\<close> a variable argument that is missing or
  of another type than the one fetched, \<open>Int_Overflow\<close> an overflow of a signed C integer.
\<close>

datatype kerr = Panic string | Bad_Access | Undefined_Shift | Diverge | Bad_Arg | Int_Overflow

type_synonym 'a kres = "kerr + 'a"

named_theorems kres_simps \<open>rules that run a sequence of fallible steps\<close>

definition rbind :: "'e + 'a \<Rightarrow> ('a \<Rightarrow> 'e + 'b) \<Rightarrow> 'e + 'b" where
  "rbind m f = (case m of Inl e \<Rightarrow> Inl e | Inr x \<Rightarrow> f x)"

lemma rbind_Inl [simp, kres_simps]: "rbind (Inl e) f = Inl e"
  by (simp add: rbind_def)

lemma rbind_Inr [simp, kres_simps]: "rbind (Inr x) f = f x"
  by (simp add: rbind_def)

lemma rbind_cong [fundef_cong]:
  "m = m' \<Longrightarrow> (\<And>x. m' = Inr x \<Longrightarrow> f x = g x) \<Longrightarrow> rbind m f = rbind m' g"
  by (cases m') (auto simp: rbind_def)

lemma rbind_eq_Inr: "rbind m f = Inr y \<longleftrightarrow> (\<exists>x. m = Inr x \<and> f x = Inr y)"
  by (cases m) auto

section \<open>Arrays\<close>

definition rd :: "'a list \<Rightarrow> nat \<Rightarrow> 'a kres" where
  "rd mem i = (if i < length mem then Inr (mem ! i) else Inl Bad_Access)"

definition wr :: "'a list \<Rightarrow> nat \<Rightarrow> 'a \<Rightarrow> 'a list kres" where
  "wr mem i x = (if i < length mem then Inr (mem[i := x]) else Inl Bad_Access)"

lemma rd_Inr [simp, kres_simps]: "i < length mem \<Longrightarrow> rd mem i = Inr (mem ! i)"
  by (simp add: rd_def)

lemma wr_Inr [simp, kres_simps]: "i < length mem \<Longrightarrow> wr mem i x = Inr (mem[i := x])"
  by (simp add: wr_def)

text \<open>Two arrays agree outside a region: the frame condition of every routine that gets a pointer.\<close>

definition same_outside :: "nat set \<Rightarrow> 'a list \<Rightarrow> 'a list \<Rightarrow> bool" where
  "same_outside A mem mem' \<longleftrightarrow>
     length mem' = length mem \<and> (\<forall>i < length mem. i \<notin> A \<longrightarrow> mem' ! i = mem ! i)"

lemma same_outside_refl [simp, intro]: "same_outside A mem mem"
  by (simp add: same_outside_def)

lemma same_outside_trans:
  "same_outside A m1 m2 \<Longrightarrow> same_outside B m2 m3 \<Longrightarrow> A \<subseteq> C \<Longrightarrow> B \<subseteq> C \<Longrightarrow> same_outside C m1 m3"
  by (simp add: same_outside_def) (metis subsetD)

lemma same_outside_mono: "same_outside A m1 m2 \<Longrightarrow> A \<subseteq> B \<Longrightarrow> same_outside B m1 m2"
  by (auto simp: same_outside_def)

lemma same_outside_update: "i \<in> A \<Longrightarrow> same_outside A mem (mem[i := x])"
  by (auto simp: same_outside_def) (metis nth_list_update_neq)

lemma same_outside_nth: "same_outside A mem mem' \<Longrightarrow> i \<notin> A \<Longrightarrow> i < length mem \<Longrightarrow> mem' ! i = mem ! i"
  by (simp add: same_outside_def)

lemma same_outside_length [simp]: "same_outside A mem mem' \<Longrightarrow> length mem' = length mem"
  by (simp add: same_outside_def)

section \<open>Signed division\<close>

text \<open>C division truncates towards zero.\<close>

definition cdiv :: "int \<Rightarrow> int \<Rightarrow> int" where
  "cdiv a b = sgn a * sgn b * (\<bar>a\<bar> div \<bar>b\<bar>)"

lemma cdiv_nonneg [simp]: "0 \<le> a \<Longrightarrow> 0 < b \<Longrightarrow> cdiv a b = a div b"
  by (cases "a = 0") (auto simp: cdiv_def)

section \<open>Times\<close>

text \<open>\<open>struct timespec\<close>: seconds, a signed long, and nanoseconds.\<close>

record timespec =
  tv_sec :: int
  tv_nsec :: int

section \<open>Bit masks of a 32-bit word\<close>

unbundle bit_operations_syntax

type_synonym u32 = "32 word"

text \<open>The set of bit positions of a word, as block offsets.\<close>

definition bits32 :: "u32 \<Rightarrow> int set" where
  "bits32 w = int ` {i. i < 32 \<and> bit w i}"

lemma bits32_iff: "x \<in> bits32 w \<longleftrightarrow> 0 \<le> x \<and> x < 32 \<and> bit w (nat x)"
proof
  show "x \<in> bits32 w \<Longrightarrow> 0 \<le> x \<and> x < 32 \<and> bit w (nat x)"
    by (auto simp: bits32_def)
next
  assume "0 \<le> x \<and> x < 32 \<and> bit w (nat x)"
  then show "x \<in> bits32 w"
    unfolding bits32_def by (intro image_eqI [of _ _ "nat x"]) auto
qed

lemma bits32_subset: "bits32 w \<subseteq> {0..<32}"
  by (auto simp: bits32_iff)

lemma finite_bits32 [simp, intro]: "finite (bits32 w)"
  by (rule finite_subset [OF bits32_subset]) simp

lemma bits32_0 [simp]: "bits32 0 = {}"
  by (simp add: bits32_def)

lemma bits32_minus_1 [simp]: "bits32 (- 1) = {0..<32}"
  by (auto simp: bits32_iff)

lemma bits32_and: "bits32 (a AND b) = bits32 a \<inter> bits32 b"
  by (auto simp: bits32_iff bit_simps)

lemma bits32_or [simp]: "bits32 (a OR b) = bits32 a \<union> bits32 b"
  by (auto simp: bits32_iff bit_simps)

lemma bits32_and_not [simp]: "bits32 (a AND NOT b) = bits32 a - bits32 b"
  by (auto simp: bits32_iff bit_simps)

lemma bits32_inject: "bits32 a = bits32 b \<Longrightarrow> a = b"
proof (rule bit_eqI)
  fix n assume eq: "bits32 a = bits32 b" and n: "possible_bit TYPE(32 word) n"
  from n have "n < 32" by (simp add: possible_bit_word)
  with eq show "bit a n = bit b n"
    using bits32_iff [of "int n" a] bits32_iff [of "int n" b] by simp
qed

lemma bits32_eq_empty_iff: "bits32 w = {} \<longleftrightarrow> w = 0"
  using bits32_inject [of w 0] by auto

lemma bits32_eq_full_iff: "bits32 w = {0..<32} \<longleftrightarrow> w = - 1"
  using bits32_inject [of w "- 1"] by auto

text \<open>The mask \<open>(-1 << n) & (-1 >> (32 - count - n))\<close> of the free and fill routines.\<close>

lemma bits32_push_minus_1: "n \<le> 32 \<Longrightarrow> bits32 (push_bit n (- 1)) = {int n..<32}"
  by (auto simp: bits32_iff bit_simps)

lemma bits32_drop_minus_1: "n \<le> 32 \<Longrightarrow> bits32 (drop_bit n (- 1)) = {0..<32 - int n}"
  by (auto simp: bits32_iff bit_simps)

lemma bits32_push_1: "n < 32 \<Longrightarrow> bits32 (push_bit n 1) = {int n}"
  by (auto simp: bits32_iff bit_simps)

end
