(* ===== verification/Blist.thy ===== *)
theory Blist
  imports Kern_Prelude
begin

text \<open>
  The swap block allocator of \<open>sys/kern/subr_blist.c\<close>: a bitmap of blocks kept in a radix tree that
  is laid out in one linear array.  A node at index \<open>s\<close> of the array is either a leaf (a 32-bit
  bitmap) or a meta node, followed by 16 subtrees of \<open>next_skip\<close> entries each; a pointer \<open>scan\<close> of
  the C code is the pair of the array and the index \<open>s\<close>, and \<open>scan[i]\<close> is the entry \<open>s + i\<close>.

  This theory holds the data and the routines.  Block numbers and counts (\<open>swblk_t\<close>) are \<open>int\<close>, array
  indices \<open>nat\<close>, bitmaps 32-bit words: up to \<open>BLIST_MAXBLKS\<close> blocks, the limit of the header file, no
  block number, count or index of the code leaves the range of its C type.  The two members of the union \<open>u\<close> are two fields: an entry of
  the array is a leaf or a meta node by its position, so no entry is read through both.
\<close>

unbundle bit_operations_syntax

section \<open>Data\<close>

text \<open>\<open>SWAPBLK_NONE\<close> is the flag value \<open>0x80000000\<close> read as a signed 32-bit number.\<close>

definition SWAPBLK_NONE :: int where
  "SWAPBLK_NONE = - (2 ^ 31)"

definition BLIST_META_RADIX :: int where
  "BLIST_META_RADIX = 16"

definition BLIST_BMAP_RADIX :: int where
  "BLIST_BMAP_RADIX = 32"

definition BLIST_MAXBLKS :: int where
  "BLIST_MAXBLKS = 0x40000000 div (BLIST_BMAP_RADIX div BLIST_META_RADIX)"

record blmeta =
  bmu_avail :: int
  bmu_bitmap :: u32
  bm_bighint :: int

record blist =
  bl_blocks :: int
  bl_radix :: int
  bl_skip :: nat
  bl_free :: int
  bl_root :: "blmeta list"
  bl_rootblks :: nat

abbreviation none_result :: "blmeta list \<Rightarrow> (blmeta list \<times> int) kres" where
  "none_result mem \<equiv> Inr (mem, SWAPBLK_NONE)"

section \<open>Allocation\<close>

text \<open>
  The halving search of the one-block case: \<open>mask\<close> covers the low \<open>j\<close> bits; when they are all
  allocated the upper half is shifted down.
\<close>

function blst_leaf_alloc_one :: "nat \<Rightarrow> u32 \<Rightarrow> u32 \<Rightarrow> nat \<Rightarrow> nat" where
  "blst_leaf_alloc_one j bmask orig r =
     (if j = 0 then r
      else if orig AND bmask = 0
      then blst_leaf_alloc_one (j div 2) (drop_bit (j div 2) bmask) (drop_bit j orig) (r + j)
      else blst_leaf_alloc_one (j div 2) (drop_bit (j div 2) bmask) orig r)"
  by pat_completeness auto
termination
  by (relation "measure (\<lambda>(j, bmask, orig, r). j)") auto

declare blst_leaf_alloc_one.simps [simp del]

text \<open>The scan of the N-block case: the first \<open>j \<le> n\<close> at which the shifted mask fits.\<close>

function blst_leaf_alloc_run :: "nat \<Rightarrow> nat \<Rightarrow> u32 \<Rightarrow> u32 \<Rightarrow> (nat \<times> u32) option" where
  "blst_leaf_alloc_run j n bmask orig =
     (if j \<le> n
      then if orig AND bmask = bmask then Some (j, bmask)
           else blst_leaf_alloc_run (Suc j) n (push_bit 1 bmask) orig
      else None)"
  by pat_completeness auto
termination
  by (relation "measure (\<lambda>(j, n, bmask, orig). Suc n - j)") auto

declare blst_leaf_alloc_run.simps [simp del]

definition blst_leaf_alloc ::
  "blmeta list \<Rightarrow> nat \<Rightarrow> int \<Rightarrow> int \<Rightarrow> int \<Rightarrow> (blmeta list \<times> int) kres" where
  "blst_leaf_alloc mem s blkat blk count =
     rbind (rd mem s) (\<lambda>scan.
       let orig = bmu_bitmap scan in
       if orig = 0 then none_result (mem[s := scan\<lparr>bm_bighint := 0\<rparr>])
       else if count = 1 then
         let r = blst_leaf_alloc_one 16 (drop_bit 16 (- 1)) orig 0 in
         Inr (mem[s := scan\<lparr>bmu_bitmap := bmu_bitmap scan AND NOT (push_bit r 1)\<rparr>], blk + int r)
       else if count = 0 then Inl Undefined_Shift
       else if 0 < count \<and> count \<le> BLIST_BMAP_RADIX then
         let n = nat (BLIST_BMAP_RADIX - count) in
         (case blst_leaf_alloc_run 0 n (drop_bit n (- 1)) orig of
            Some (j, bmask) \<Rightarrow>
              Inr (mem[s := scan\<lparr>bmu_bitmap := bmu_bitmap scan AND NOT bmask\<rparr>], blk + int j)
          | None \<Rightarrow> none_result (mem[s := scan\<lparr>bm_bighint := count - 1\<rparr>]))
       else none_result (mem[s := scan\<lparr>bm_bighint := count - 1\<rparr>]))"

text \<open>
  The loop that opens a collapsed meta node: every child up to the terminator is rewritten.  An
  all-free node gets all-free children; the allocation and the fill routine have the same loop.
\<close>

function blst_init_loop ::
  "(blmeta \<Rightarrow> blmeta) \<Rightarrow> blmeta list \<Rightarrow> nat \<Rightarrow> nat \<Rightarrow> nat \<Rightarrow> nat \<Rightarrow> blmeta list kres" where
  "blst_init_loop f mem s i skip next_skip =
     (if skip < i then Inr mem
      else if next_skip = 0 then Inl Diverge
      else rbind (rd mem (s + i)) (\<lambda>c.
        if bm_bighint c = - 1 then Inr mem
        else blst_init_loop f (mem[s + i := f c]) s (i + next_skip) skip next_skip))"
  by pat_completeness auto
termination
  by (relation "measure (\<lambda>(f, mem, s, i, skip, next_skip). Suc skip - i)") auto

declare blst_init_loop.simps [simp del]

definition blst_init_free :: "blmeta list \<Rightarrow> nat \<Rightarrow> nat \<Rightarrow> nat \<Rightarrow> int \<Rightarrow> blmeta list kres" where
  "blst_init_free mem s skip next_skip radix =
     blst_init_loop
       (\<lambda>c. if next_skip = 1 then c\<lparr>bmu_bitmap := - 1, bm_bighint := BLIST_BMAP_RADIX\<rparr>
            else c\<lparr>bm_bighint := radix, bmu_avail := radix\<rparr>)
       mem s 1 skip next_skip"

function blst_meta_alloc ::
  "blmeta list \<Rightarrow> nat \<Rightarrow> int \<Rightarrow> int \<Rightarrow> int \<Rightarrow> int \<Rightarrow> nat \<Rightarrow> (blmeta list \<times> int) kres"
and blst_meta_alloc_loop ::
  "blmeta list \<Rightarrow> nat \<Rightarrow> nat \<Rightarrow> int \<Rightarrow> int \<Rightarrow> int \<Rightarrow> int \<Rightarrow> nat \<Rightarrow> nat
     \<Rightarrow> (blmeta list \<times> int) kres" where
  "blst_meta_alloc mem s blkat blk count radix skip =
     (let next_skip = skip div nat BLIST_META_RADIX;
          hintok = (blkat \<le> blk);
          radix' = radix div BLIST_META_RADIX
      in rbind (rd mem s) (\<lambda>scan.
        if bmu_avail scan = 0 then none_result (mem[s := scan\<lparr>bm_bighint := 0\<rparr>])
        else rbind
          (if bmu_avail scan = radix
           then blst_init_free (mem[s := scan\<lparr>bm_bighint := radix\<rparr>]) s skip next_skip radix'
           else Inr mem) (\<lambda>mem.
          rbind (blst_meta_alloc_loop mem s 1 blkat blk count radix' skip next_skip) (\<lambda>(mem, r).
            if r \<noteq> SWAPBLK_NONE then Inr (mem, r)
            else rbind (rd mem s) (\<lambda>scan.
              if hintok \<and> count \<le> bm_bighint scan
              then none_result (mem[s := scan\<lparr>bm_bighint := count - 1\<rparr>])
              else none_result mem)))))"
| "blst_meta_alloc_loop mem s i blkat blk count radix skip next_skip =
     (if skip < i then none_result mem
      else if next_skip = 0 then Inl Diverge
      else rbind (rd mem (s + i)) (\<lambda>c.
        if count \<le> bm_bighint c \<and> blkat < blk + radix then
          rbind
            (if next_skip = 1 then blst_leaf_alloc mem (s + i) blkat blk count
             else blst_meta_alloc mem (s + i) blkat blk count radix (next_skip - 1)) (\<lambda>(mem, r).
            if r \<noteq> SWAPBLK_NONE then
              rbind (rd mem s) (\<lambda>scan.
                let avail = bmu_avail scan - count;
                    hint = (if avail < bm_bighint scan then avail else bm_bighint scan)
                in Inr (mem[s := scan\<lparr>bmu_avail := avail, bm_bighint := hint\<rparr>], r))
            else blst_meta_alloc_loop mem s (i + next_skip) blkat (blk + radix) count radix
                   skip next_skip)
        else if bm_bighint c = - 1 then none_result mem
        else if radix < count then Inl (Panic ''blist_meta_alloc: allocation too large'')
        else blst_meta_alloc_loop mem s (i + next_skip) blkat (blk + radix) count radix
               skip next_skip))"
  by pat_completeness auto
termination
  by (relation "measures
        [\<lambda>x. case x of Inl (mem, s, blkat, blk, count, radix, skip) \<Rightarrow> 2 * skip + 1
                     | Inr (mem, s, i, blkat, blk, count, radix, skip, next_skip) \<Rightarrow> 2 * next_skip,
         \<lambda>x. case x of Inl _ \<Rightarrow> 0
                     | Inr (mem, s, i, blkat, blk, count, radix, skip, next_skip) \<Rightarrow> Suc skip - i]")
     (auto simp: div_le_dividend less_Suc_eq_le)

declare blst_meta_alloc.simps [simp del] blst_meta_alloc_loop.simps [simp del]

section \<open>Freeing\<close>

text \<open>
  The mask of \<open>count\<close> blocks from \<open>blk\<close> on; a right shift by \<open>32 - count - n\<close> outside \<open>0..31\<close>
  (an unsigned \<open>size_t\<close> in the code) is undefined.
\<close>

definition blst_mask :: "int \<Rightarrow> int \<Rightarrow> u32 kres" where
  "blst_mask blk count =
     (let n = blk mod BLIST_BMAP_RADIX; sh = BLIST_BMAP_RADIX - count - n
      in if 0 \<le> sh \<and> sh < 32
         then Inr (push_bit (nat n) (- 1) AND drop_bit (nat sh) (- 1))
         else Inl Undefined_Shift)"

definition blst_leaf_free :: "blmeta list \<Rightarrow> nat \<Rightarrow> int \<Rightarrow> int \<Rightarrow> blmeta list kres" where
  "blst_leaf_free mem s blk count =
     rbind (blst_mask blk count) (\<lambda>bmask.
     rbind (rd mem s) (\<lambda>scan.
       if bmu_bitmap scan AND bmask \<noteq> 0 then Inl (Panic ''blst_radix_free: freeing free block'')
       else Inr (mem[s := scan\<lparr>bmu_bitmap := bmu_bitmap scan OR bmask,
                               bm_bighint := BLIST_BMAP_RADIX\<rparr>])))"

text \<open>An all-allocated meta node gets all-allocated children.\<close>

definition blst_init_alloced :: "blmeta list \<Rightarrow> nat \<Rightarrow> nat \<Rightarrow> nat \<Rightarrow> blmeta list kres" where
  "blst_init_alloced mem s skip next_skip =
     blst_init_loop
       (\<lambda>c. if next_skip = 1 then c\<lparr>bm_bighint := 0, bmu_bitmap := 0\<rparr>
            else c\<lparr>bm_bighint := 0, bmu_avail := 0\<rparr>)
       mem s 1 skip next_skip"

text \<open>
  The division \<open>(freeBlk - blk) / radix\<close> yields the index of the first child touched; a negative
  index is an access in front of the node.
\<close>

function blst_meta_free ::
  "blmeta list \<Rightarrow> nat \<Rightarrow> int \<Rightarrow> int \<Rightarrow> int \<Rightarrow> nat \<Rightarrow> int \<Rightarrow> blmeta list kres"
and blst_meta_free_loop ::
  "blmeta list \<Rightarrow> nat \<Rightarrow> nat \<Rightarrow> int \<Rightarrow> int \<Rightarrow> int \<Rightarrow> nat \<Rightarrow> nat \<Rightarrow> int \<Rightarrow> blmeta list kres" where
  "blst_meta_free mem s freeBlk count radix skip blk =
     (let next_skip = skip div nat BLIST_META_RADIX in
      rbind (rd mem s) (\<lambda>scan.
      rbind
        (if bmu_avail scan = 0 then
           (let mem = mem[s := scan\<lparr>bmu_avail := count, bm_bighint := count\<rparr>]
            in if count \<noteq> radix then blst_init_alloced mem s skip next_skip else Inr mem)
         else Inr (mem[s := scan\<lparr>bmu_avail := bmu_avail scan + count\<rparr>])) (\<lambda>mem.
      rbind (rd mem s) (\<lambda>scan.
        if bmu_avail scan = radix then Inr (mem[s := scan\<lparr>bm_bighint := radix\<rparr>])
        else if radix < bmu_avail scan then
          Inl (Panic ''blst_meta_free: freeing already free blocks'')
        else
          (let radix' = radix div BLIST_META_RADIX;
               i = cdiv (freeBlk - blk) radix'
           in if i < 0 then Inl Bad_Access
              else blst_meta_free_loop mem s (nat i * next_skip + 1) freeBlk count radix' skip
                     next_skip (blk + i * radix'))))))"
| "blst_meta_free_loop mem s i freeBlk count radix skip next_skip blk =
     (if i \<le> skip \<and> blk < freeBlk + count then
        if next_skip = 0 then Inl Diverge
        else
          (let v = (if count < blk + radix - freeBlk then count else blk + radix - freeBlk) in
           rbind (rd mem s) (\<lambda>scan.
             if bm_bighint scan = - 1 then Inl (Panic ''blst_meta_free: freeing unexpected range'')
             else rbind
               (if next_skip = 1 then blst_leaf_free mem (s + i) freeBlk v
                else blst_meta_free mem (s + i) freeBlk v radix (next_skip - 1) blk) (\<lambda>mem.
               rbind (rd mem s) (\<lambda>scan.
               rbind (rd mem (s + i)) (\<lambda>c.
                 let mem = (if bm_bighint scan < bm_bighint c
                            then mem[s := scan\<lparr>bm_bighint := bm_bighint c\<rparr>] else mem)
                 in blst_meta_free_loop mem s (i + next_skip) (freeBlk + v) (count - v) radix
                      skip next_skip (blk + radix))))))
      else Inr mem)"
  by pat_completeness auto
termination
  by (relation "measures
        [\<lambda>x. case x of Inl (mem, s, freeBlk, count, radix, skip, blk) \<Rightarrow> 2 * skip + 1
             | Inr (mem, s, i, freeBlk, count, radix, skip, next_skip, blk) \<Rightarrow> 2 * next_skip,
         \<lambda>x. case x of Inl _ \<Rightarrow> 0
             | Inr (mem, s, i, freeBlk, count, radix, skip, next_skip, blk) \<Rightarrow> Suc skip - i]")
     (auto simp: div_le_dividend less_Suc_eq_le)

declare blst_meta_free.simps [simp del] blst_meta_free_loop.simps [simp del]

section \<open>Filling\<close>

text \<open>The loop \<open>for (nblks = 0; bitmap != 0; nblks++) bitmap &= bitmap - 1\<close>.\<close>

function blst_count_bits :: "u32 \<Rightarrow> int \<Rightarrow> int" where
  "blst_count_bits bitmap nblks =
     (if bitmap = 0 then nblks else blst_count_bits (bitmap AND (bitmap - 1)) (nblks + 1))"
  by pat_completeness auto
termination
proof (relation "measure (\<lambda>(bitmap, nblks). unat bitmap)", goal_cases)
  case (2 bitmap nblks)
  have "unat (bitmap AND (bitmap - 1)) \<le> unat (bitmap - 1)"
    by (rule word_and_le1 [THEN word_le_nat_alt [THEN iffD1]])
  also have "\<dots> < unat bitmap"
    using 2 by (metis diff_less one_less_numeral_iff unat_gt_0 unat_minus_one less_one)
  finally show ?case by simp
qed simp

declare blst_count_bits.simps [simp del]

definition blst_leaf_fill :: "blmeta list \<Rightarrow> nat \<Rightarrow> int \<Rightarrow> int \<Rightarrow> (blmeta list \<times> int) kres" where
  "blst_leaf_fill mem s blk count =
     rbind (blst_mask blk count) (\<lambda>bmask.
     rbind (rd mem s) (\<lambda>scan.
       Inr (mem[s := scan\<lparr>bmu_bitmap := bmu_bitmap scan AND NOT bmask\<rparr>],
            blst_count_bits (bmu_bitmap scan AND bmask) 0)))"

function blst_meta_fill ::
  "blmeta list \<Rightarrow> nat \<Rightarrow> int \<Rightarrow> int \<Rightarrow> int \<Rightarrow> nat \<Rightarrow> int \<Rightarrow> (blmeta list \<times> int) kres"
and blst_meta_fill_loop ::
  "blmeta list \<Rightarrow> nat \<Rightarrow> nat \<Rightarrow> int \<Rightarrow> int \<Rightarrow> int \<Rightarrow> nat \<Rightarrow> nat \<Rightarrow> int \<Rightarrow> int
     \<Rightarrow> (blmeta list \<times> int) kres" where
  "blst_meta_fill mem s fillBlk count radix skip blk =
     (let next_skip = skip div nat BLIST_META_RADIX in
      rbind (rd mem s) (\<lambda>scan.
        if count = radix \<or> bmu_avail scan = 0 then
          Inr (mem[s := scan\<lparr>bmu_avail := 0, bm_bighint := count\<rparr>], bmu_avail scan)
        else
          (let radix' = radix div BLIST_META_RADIX in
           rbind
             (if bmu_avail scan = radix then blst_init_free mem s skip next_skip radix'
              else Inr mem) (\<lambda>mem.
             if radix' < count then Inl (Panic ''blst_meta_fill: allocation too large'')
             else
               (let i = cdiv (fillBlk - blk) radix' in
                if i < 0 then Inl Bad_Access
                else rbind
                  (blst_meta_fill_loop mem s (nat i * next_skip + 1) fillBlk count radix' skip
                     next_skip (blk + i * radix') 0) (\<lambda>(mem, nblks).
                  rbind (rd mem s) (\<lambda>scan.
                    Inr (mem[s := scan\<lparr>bmu_avail := bmu_avail scan - nblks\<rparr>], nblks))))))))"
| "blst_meta_fill_loop mem s i fillBlk count radix skip next_skip blk nblks =
     (if i \<le> skip \<and> blk < fillBlk + count then
        if next_skip = 0 then Inl Diverge
        else
          (let v = (if count < blk + radix - fillBlk then count else blk + radix - fillBlk) in
           rbind (rd mem s) (\<lambda>scan.
             if bm_bighint scan = - 1 then Inl (Panic ''blst_meta_fill: filling unexpected range'')
             else rbind
               (if next_skip = 1 then blst_leaf_fill mem (s + i) fillBlk v
                else blst_meta_fill mem (s + i) fillBlk v radix (next_skip - 1) blk) (\<lambda>(mem, n).
               blst_meta_fill_loop mem s (i + next_skip) (fillBlk + v) (count - v) radix
                 skip next_skip (blk + radix) (nblks + n))))
      else Inr (mem, nblks))"
  by pat_completeness auto
termination
  by (relation "measures
        [\<lambda>x. case x of Inl (mem, s, fillBlk, count, radix, skip, blk) \<Rightarrow> 2 * skip + 1
             | Inr (mem, s, i, fillBlk, count, radix, skip, next_skip, blk, nblks) \<Rightarrow> 2 * next_skip,
         \<lambda>x. case x of Inl _ \<Rightarrow> 0
             | Inr (mem, s, i, fillBlk, count, radix, skip, next_skip, blk, nblks) \<Rightarrow> Suc skip - i]")
     (auto simp: div_le_dividend less_Suc_eq_le)

declare blst_meta_fill.simps [simp del] blst_meta_fill_loop.simps [simp del]

section \<open>Initialisation\<close>

text \<open>
  The initialisation runs twice: with a null pointer (\<open>None\<close>) to compute the size of the array, then
  on the array itself.
\<close>

definition blst_set :: "blmeta list option \<Rightarrow> nat \<Rightarrow> (blmeta \<Rightarrow> blmeta) \<Rightarrow> blmeta list option kres" where
  "blst_set scan s f =
     (case scan of None \<Rightarrow> Inr None
      | Some mem \<Rightarrow> rbind (rd mem s) (\<lambda>n. Inr (Some (mem[s := f n]))))"

function blst_radix_init ::
  "blmeta list option \<Rightarrow> nat \<Rightarrow> int \<Rightarrow> nat \<Rightarrow> int \<Rightarrow> (blmeta list option \<times> nat) kres"
and blst_radix_init_loop ::
  "blmeta list option \<Rightarrow> nat \<Rightarrow> nat \<Rightarrow> int \<Rightarrow> nat \<Rightarrow> nat \<Rightarrow> int \<Rightarrow> nat
     \<Rightarrow> (blmeta list option \<times> nat) kres" where
  "blst_radix_init scan s radix skip count =
     (if radix = BLIST_BMAP_RADIX then
        rbind (blst_set scan s (\<lambda>n. n\<lparr>bm_bighint := 0, bmu_bitmap := 0\<rparr>)) (\<lambda>scan. Inr (scan, 0))
      else
        rbind (blst_set scan s (\<lambda>n. n\<lparr>bm_bighint := 0, bmu_avail := 0\<rparr>)) (\<lambda>scan.
          blst_radix_init_loop scan s 1 (radix div BLIST_META_RADIX) skip
            (skip div nat BLIST_META_RADIX) count 0))"
| "blst_radix_init_loop scan s i radix skip next_skip count memindex =
     (if skip < i then Inr (scan, if memindex < i then i else memindex)
      else if next_skip = 0 then Inl Diverge
      else if radix \<le> count then
        rbind (blst_radix_init scan (s + i) radix (next_skip - 1) radix) (\<lambda>(scan, m).
          blst_radix_init_loop scan s (i + next_skip) radix skip next_skip (count - radix) (i + m))
      else if 0 < count then
        rbind (blst_radix_init scan (s + i) radix (next_skip - 1) count) (\<lambda>(scan, m).
          blst_radix_init_loop scan s (i + next_skip) radix skip next_skip 0 (i + m))
      else
        rbind (blst_set scan (s + i) (\<lambda>n. n\<lparr>bm_bighint := - 1\<rparr>)) (\<lambda>scan.
          Inr (scan, if memindex < i then i else memindex)))"
  by pat_completeness auto
termination
  by (relation "measures
        [\<lambda>x. case x of Inl (scan, s, radix, skip, count) \<Rightarrow> 2 * skip + 1
             | Inr (scan, s, i, radix, skip, next_skip, count, memindex) \<Rightarrow> 2 * next_skip,
         \<lambda>x. case x of Inl _ \<Rightarrow> 0
             | Inr (scan, s, i, radix, skip, next_skip, count, memindex) \<Rightarrow> Suc skip - i]")
     (auto simp: div_le_dividend less_Suc_eq_le)

declare blst_radix_init.simps [simp del] blst_radix_init_loop.simps [simp del]

section \<open>The interface\<close>

text \<open>
  The \<open>while\<close> loop of \<open>blist_create()\<close>.  \<open>skip\<close> is a C \<open>int\<close>: the assertion \<open>skip > 0\<close> fails when
  the new value does not fit in 31 bits.
\<close>

function blist_create_scan :: "int \<Rightarrow> nat \<Rightarrow> int \<Rightarrow> (int \<times> nat) kres" where
  "blist_create_scan radix skip blocks =
     (if 0 < radix \<and> radix < blocks then
        let skip' = (skip + 1) * nat BLIST_META_RADIX in
        if 2 ^ 31 \<le> int skip' then Inl (Panic ''assertion: skip > 0'')
        else blist_create_scan (radix * BLIST_META_RADIX) skip' blocks
      else Inr (radix, skip))"
  by pat_completeness auto
termination
  by (relation "measure (\<lambda>(radix, skip, blocks). nat (blocks - radix))")
     (auto simp: BLIST_META_RADIX_def)

declare blist_create_scan.simps [simp del]

text \<open>
  The node array comes uninitialised from the kernel allocator: \<open>junk\<close> is its content.
\<close>

definition blist_create :: "(nat \<Rightarrow> blmeta) \<Rightarrow> int \<Rightarrow> blist kres" where
  "blist_create junk blocks =
     rbind (blist_create_scan BLIST_BMAP_RADIX 0 blocks) (\<lambda>(radix, skip).
     rbind (blst_radix_init None 0 radix skip blocks) (\<lambda>(_, m).
     rbind (blst_radix_init (Some (map junk [0..<1 + m])) 0 radix skip blocks) (\<lambda>(root, _).
       case root of
         None \<Rightarrow> Inl Bad_Access
       | Some root \<Rightarrow>
           Inr \<lparr>bl_blocks = blocks, bl_radix = radix, bl_skip = skip, bl_free = 0,
                bl_root = root, bl_rootblks = 1 + m\<rparr>)))"

text \<open>\<open>None\<close> is the null pointer: the interface routines ignore it.\<close>

definition blist_allocat :: "blist option \<Rightarrow> int \<Rightarrow> int \<Rightarrow> (blist option \<times> int) kres" where
  "blist_allocat b count blkat =
     (case b of None \<Rightarrow> Inr (None, SWAPBLK_NONE)
      | Some bl \<Rightarrow>
          rbind
            (if bl_radix bl = BLIST_BMAP_RADIX then blst_leaf_alloc (bl_root bl) 0 blkat 0 count
             else blst_meta_alloc (bl_root bl) 0 blkat 0 count (bl_radix bl) (bl_skip bl))
            (\<lambda>(root, blk).
              Inr (Some (if blk \<noteq> SWAPBLK_NONE
                         then bl\<lparr>bl_root := root, bl_free := bl_free bl - count\<rparr>
                         else bl\<lparr>bl_root := root\<rparr>), blk)))"

definition blist_alloc :: "blist option \<Rightarrow> int \<Rightarrow> (blist option \<times> int) kres" where
  "blist_alloc b count =
     (case b of None \<Rightarrow> Inr (None, SWAPBLK_NONE)
      | Some bl \<Rightarrow>
          rbind
            (if bl_radix bl = BLIST_BMAP_RADIX then blst_leaf_alloc (bl_root bl) 0 0 0 count
             else blst_meta_alloc (bl_root bl) 0 0 0 count (bl_radix bl) (bl_skip bl))
            (\<lambda>(root, blk).
              Inr (Some (if blk \<noteq> SWAPBLK_NONE
                         then bl\<lparr>bl_root := root, bl_free := bl_free bl - count\<rparr>
                         else bl\<lparr>bl_root := root\<rparr>), blk)))"

definition blist_free :: "blist option \<Rightarrow> int \<Rightarrow> int \<Rightarrow> blist option kres" where
  "blist_free b blkno count =
     (case b of None \<Rightarrow> Inr None
      | Some bl \<Rightarrow>
          rbind
            (if bl_radix bl = BLIST_BMAP_RADIX then blst_leaf_free (bl_root bl) 0 blkno count
             else blst_meta_free (bl_root bl) 0 blkno count (bl_radix bl) (bl_skip bl) 0)
            (\<lambda>root. Inr (Some (bl\<lparr>bl_root := root, bl_free := bl_free bl + count\<rparr>))))"

definition blist_fill :: "blist option \<Rightarrow> int \<Rightarrow> int \<Rightarrow> (blist option \<times> int) kres" where
  "blist_fill b blkno count =
     (case b of None \<Rightarrow> Inr (None, 0)
      | Some bl \<Rightarrow>
          rbind
            (if bl_radix bl = BLIST_BMAP_RADIX then blst_leaf_fill (bl_root bl) 0 blkno count
             else blst_meta_fill (bl_root bl) 0 blkno count (bl_radix bl) (bl_skip bl) 0)
            (\<lambda>(root, filled).
              Inr (Some (bl\<lparr>bl_root := root, bl_free := bl_free bl - filled\<rparr>), filled)))"

text \<open>The bitmap loop of a leaf in \<open>blst_copy()\<close>, from bit \<open>i\<close> on.\<close>

function blst_copy_bits :: "u32 \<Rightarrow> nat \<Rightarrow> int \<Rightarrow> blist option \<Rightarrow> int \<Rightarrow> blist option kres" where
  "blst_copy_bits v i blk dest count =
     (if i < 32 \<and> int i < count then
        rbind (if bit v i then blist_free dest (blk + int i) 1 else Inr dest) (\<lambda>dest.
          blst_copy_bits v (Suc i) blk dest count)
      else Inr dest)"
  by pat_completeness auto
termination
  by (relation "measure (\<lambda>(v, i, blk, dest, count). 32 - i)") auto

declare blst_copy_bits.simps [simp del]

function blst_copy ::
  "blmeta list \<Rightarrow> nat \<Rightarrow> int \<Rightarrow> int \<Rightarrow> nat \<Rightarrow> blist option \<Rightarrow> int \<Rightarrow> blist option kres"
and blst_copy_loop ::
  "blmeta list \<Rightarrow> nat \<Rightarrow> nat \<Rightarrow> int \<Rightarrow> int \<Rightarrow> nat \<Rightarrow> nat \<Rightarrow> blist option \<Rightarrow> int \<Rightarrow> blist option kres" where
  "blst_copy mem s blk radix skip dest count =
     rbind (rd mem s) (\<lambda>scan.
       if radix = BLIST_BMAP_RADIX then
         if bmu_bitmap scan = - 1 then blist_free dest blk count
         else if bmu_bitmap scan \<noteq> 0 then blst_copy_bits (bmu_bitmap scan) 0 blk dest count
         else Inr dest
       else if bmu_avail scan = 0 then Inr dest
       else if bmu_avail scan = radix then
         if count < radix then blist_free dest blk count else blist_free dest blk radix
       else blst_copy_loop mem s 1 blk (radix div BLIST_META_RADIX) skip
              (skip div nat BLIST_META_RADIX) dest count)"
| "blst_copy_loop mem s i blk radix skip next_skip dest count =
     (if count \<noteq> 0 \<and> i \<le> skip then
        if next_skip = 0 then Inl Diverge
        else rbind (rd mem (s + i)) (\<lambda>c.
          if bm_bighint c = - 1 then Inr dest
          else if radix \<le> count then
            rbind (blst_copy mem (s + i) blk radix (next_skip - 1) dest radix) (\<lambda>dest.
              blst_copy_loop mem s (i + next_skip) (blk + radix) radix skip next_skip dest
                (count - radix))
          else
            rbind (blst_copy mem (s + i) blk radix (next_skip - 1) dest count) (\<lambda>dest.
              blst_copy_loop mem s (i + next_skip) (blk + radix) radix skip next_skip dest 0))
      else Inr dest)"
  by pat_completeness auto
termination
  by (relation "measures
        [\<lambda>x. case x of Inl (mem, s, blk, radix, skip, dest, count) \<Rightarrow> 2 * skip + 1
             | Inr (mem, s, i, blk, radix, skip, next_skip, dest, count) \<Rightarrow> 2 * next_skip,
         \<lambda>x. case x of Inl _ \<Rightarrow> 0
             | Inr (mem, s, i, blk, radix, skip, next_skip, dest, count) \<Rightarrow> Suc skip - i]")
     (auto simp: div_le_dividend less_Suc_eq_le)

declare blst_copy.simps [simp del] blst_copy_loop.simps [simp del]

definition blist_resize :: "(nat \<Rightarrow> blmeta) \<Rightarrow> blist \<Rightarrow> int \<Rightarrow> bool \<Rightarrow> blist option kres" where
  "blist_resize junk save count freenew =
     rbind (blist_create junk count) (\<lambda>newbl.
       let count' = (if bl_blocks save < count then bl_blocks save else count) in
       rbind (blst_copy (bl_root save) 0 0 (bl_radix save) (bl_skip save) (Some newbl) count')
         (\<lambda>dest.
           if freenew \<and> count' < bl_blocks newbl
           then blist_free dest count' (bl_blocks newbl - count') else Inr dest))"

end
