(* ===== verification/Radix_Layout.thy ===== *)
theory Radix_Layout
  imports Kern_Prelude
begin

text \<open>
  The geometry that the two radix-tree block allocators share: a tree of level \<open>l\<close> covers
  \<open>radixL l\<close> blocks (32 in a leaf, a factor 16 per level) and occupies the \<open>skipL l + 1\<close> array
  entries from its root on; its 16 subtrees follow the root.  A set of free blocks of a node splits
  into the slices of its children.
\<close>

section \<open>Levels\<close>

fun radixL :: "nat \<Rightarrow> int" where
  "radixL 0 = 32"
| "radixL (Suc l) = 16 * radixL l"

fun skipL :: "nat \<Rightarrow> nat" where
  "skipL 0 = 0"
| "skipL (Suc l) = 16 * (skipL l + 1)"

text \<open>\<open>cidx l k\<close> is the value of the C loop variable \<open>i\<close> at the \<open>k\<close>-th child of level \<open>l\<close>.\<close>

definition cidx :: "nat \<Rightarrow> nat \<Rightarrow> nat" where
  "cidx l k = 1 + k * (skipL l + 1)"

definition child :: "nat \<Rightarrow> nat \<Rightarrow> nat \<Rightarrow> nat" where
  "child s l k = s + cidx l k"

definition region :: "nat \<Rightarrow> nat \<Rightarrow> nat set" where
  "region s l = {s..s + skipL l}"

lemma radixL_ge_32 [simp]: "32 \<le> radixL l"
  by (induction l) auto

lemma radixL_pos [simp]: "0 < radixL l" "0 \<le> radixL l" "radixL l \<noteq> 0"
  using radixL_ge_32 [of l] by linarith+

lemma radixL_ge [simp]: "1 \<le> radixL l" "2 \<le> radixL l"
  using radixL_ge_32 [of l] by linarith+

lemma radixL_dvd [simp]: "32 dvd radixL l"
  by (induction l) auto

lemma radixL_Suc_neq_32 [simp]: "radixL (Suc l) \<noteq> 32"
  using radixL_ge_32 [of l] by (simp del: radixL_ge_32)

lemma radixL_mono: "l \<le> m \<Longrightarrow> radixL l \<le> radixL m"
proof (induction m)
  case (Suc m)
  then show ?case
    using radixL_pos(1) [of m] by (cases "l = Suc m") (auto simp: le_Suc_eq simp del: radixL_pos)
qed simp

lemma skipL_div [simp]: "skipL (Suc l) div 16 = Suc (skipL l)"
  by simp

lemma cidx_0 [simp]: "cidx l 0 = Suc 0"
  by (simp add: cidx_def)

lemma cidx_Suc [simp]:
  "cidx l k + Suc (skipL l) = cidx l (Suc k)" "Suc (cidx l k + skipL l) = cidx l (Suc k)"
  by (simp_all add: cidx_def)

lemma cidx_child [simp]: "s + cidx l k = child s l k"
  by (simp add: child_def)

lemma cidx_mult [simp]: "Suc (k * Suc (skipL l)) = cidx l k"
  by (simp add: cidx_def)

lemma cidx_le_iff [simp]: "cidx l k \<le> skipL (Suc l) \<longleftrightarrow> k < 16"
proof
  assume k: "k < 16"
  then have "k * (skipL l + 1) \<le> 15 * (skipL l + 1)" by (intro mult_le_mono1) simp
  then show "cidx l k \<le> skipL (Suc l)" by (simp add: cidx_def)
next
  assume a: "cidx l k \<le> skipL (Suc l)"
  show "k < 16"
  proof (rule ccontr)
    assume "\<not> k < 16"
    then have "16 * (skipL l + 1) \<le> k * (skipL l + 1)" by (intro mult_le_mono1) simp
    with a show False by (simp add: cidx_def)
  qed
qed

lemma cidx_less_iff [simp]: "skipL (Suc l) < cidx l k \<longleftrightarrow> 16 \<le> k"
  using cidx_le_iff [of l k] by linarith

lemma root_in_region [simp, intro]: "s \<in> region s l"
  by (simp add: region_def)

lemma child_in_region [simp]: "child s l k \<in> region (child s l k) l"
  by simp

lemma child_region: "k < 16 \<Longrightarrow> region (child s l k) l \<subseteq> region s (Suc l) - {s}"
proof -
  assume k: "k < 16"
  have "k * (skipL l + 1) + (skipL l + 1) \<le> 16 * (skipL l + 1)"
    using k mult_le_mono1 [of "k + 1" 16 "skipL l + 1"] by (simp add: algebra_simps)
  then show ?thesis by (auto simp: region_def child_def cidx_def simp del: cidx_child)
qed

lemma child_region_disjoint: "k \<noteq> k' \<Longrightarrow> region (child s l k) l \<inter> region (child s l k') l = {}"
proof (induction k k' rule: linorder_wlog)
  case (le a b)
  then have "(a + 1) * (skipL l + 1) \<le> b * (skipL l + 1)"
    by (intro mult_le_mono1) simp
  then show ?case by (auto simp: region_def child_def cidx_def algebra_simps simp del: cidx_child)
next
  case (sym a b)
  then show ?case by (auto simp: Int_commute)
qed

lemma child_neq_root [simp]: "child s l k \<noteq> s" "s \<noteq> child s l k" "s < child s l k"
  by (auto simp: child_def cidx_def simp del: cidx_child)

lemma root_notin_child_region [simp]: "s \<notin> region (child s l k) l"
  by (auto simp: region_def child_def cidx_def simp del: cidx_child)

declare skipL.simps(2) [simp del]

lemma first_child_exists: "0 < cnt \<Longrightarrow> (int 0 - 1) * radixL l < cnt"
proof -
  have "- radixL l < 0" by simp
  also assume "0 < cnt"
  finally show ?thesis by simp
qed

lemma skipL_eq_0 [simp]: "skipL l = 0 \<longleftrightarrow> l = 0"
  by (cases l) (auto simp: skipL.simps)

section \<open>Slices\<close>

definition slice :: "int \<Rightarrow> nat \<Rightarrow> int set \<Rightarrow> int set" where
  "slice R k F = {x. 0 \<le> x \<and> x < R \<and> int k * R + x \<in> F}"

definition ccnt :: "nat \<Rightarrow> int \<Rightarrow> nat \<Rightarrow> int" where
  "ccnt l cnt k = min (radixL l) (cnt - int k * radixL l)"

lemma in_slice: "x \<in> slice R k F \<longleftrightarrow> 0 \<le> x \<and> x < R \<and> int k * R + x \<in> F"
  by (simp add: slice_def)

lemma slice_empty [simp]: "slice R k {} = {}"
  by (simp add: slice_def)

lemma slice_subset: "F \<subseteq> {0..<cnt} \<Longrightarrow> slice (radixL l) k F \<subseteq> {0..<ccnt l cnt k}"
  by (auto simp: slice_def ccnt_def)

lemma slice_full: "0 \<le> R \<Longrightarrow> int k * R + R \<le> cnt \<Longrightarrow> slice R k {0..<cnt} = {0..<R}"
  by (auto simp: slice_def)

lemma slice_Diff: "slice R k (F - G) = slice R k F - slice R k G"
  by (auto simp: slice_def)

lemma slice_Un: "slice R k (F \<union> G) = slice R k F \<union> slice R k G"
  by (auto simp: slice_def)

lemma slice_Int: "slice R k (F \<inter> G) = slice R k F \<inter> slice R k G"
  by (auto simp: slice_def)

lemma slice_interval:
  "slice R k {a..<b} = {max 0 (a - int k * R)..<min R (b - int k * R)}"
  by (auto simp: slice_def)

lemma slice_run_same:
  "0 \<le> j \<Longrightarrow> j + n \<le> R \<Longrightarrow> slice R k {int k * R + j..<int k * R + j + n} = {j..<j + n}"
  by (auto simp: slice_interval)

lemma slice_run_other:
  assumes "0 \<le> j" "j + n \<le> R" "k' \<noteq> k"
  shows "slice R k' {int k * R + j..<int k * R + j + n} = {}"
proof -
  have "int k' * R + R \<le> int k * R \<or> int k * R + R \<le> int k' * R" if "0 < R"
  proof (cases "k' < k")
    case True
    then have "(int k' + 1) * R \<le> int k * R" using that by (intro mult_right_mono) auto
    then show ?thesis by (simp add: algebra_simps)
  next
    case False
    then have "(int k + 1) * R \<le> int k' * R" using that assms(3) by (intro mult_right_mono) auto
    then show ?thesis by (simp add: algebra_simps)
  qed
  then show ?thesis using assms by (auto simp: slice_interval)
qed

lemma slice_beyond: "F \<subseteq> {0..<cnt} \<Longrightarrow> cnt \<le> int k * R \<Longrightarrow> slice R k F = {}"
  by (auto simp: slice_def)

lemma mult_mono_index: "0 < R \<Longrightarrow> int k < int k' \<Longrightarrow> int k * R + R \<le> int k' * (R::int)"
  using mult_right_mono [of "int k + 1" "int k'" R] by (simp add: algebra_simps)

text \<open>A block of a node lies in exactly one child.\<close>

lemma slice_cover:
  assumes "F \<subseteq> {0..<16 * R}" "0 < R" "x \<in> F"
  shows "nat (x div R) < 16" "x - int (nat (x div R)) * R \<in> slice R (nat (x div R)) F"
proof -
  from assms have x: "0 \<le> x" "x < 16 * R" by auto
  have m: "x div R * R + x mod R = x" "0 \<le> x mod R" "x mod R < R"
    using assms(2) by simp_all
  have d: "0 \<le> x div R" "x div R < 16"
  proof -
    show "0 \<le> x div R" using x(1) assms(2) by (simp add: pos_imp_zdiv_nonneg_iff)
    show "x div R < 16"
    proof (rule ccontr)
      assume "\<not> x div R < 16"
      then have "16 * R \<le> x div R * R" using assms(2) by (intro mult_right_mono) auto
      with m x(2) show False by linarith
    qed
  qed
  then show "nat (x div R) < 16" by simp
  have "int (nat (x div R)) = x div R" using d by simp
  moreover have "x - (x div R) * R = x mod R" by (simp add: minus_div_mult_eq_mod)
  ultimately show "x - int (nat (x div R)) * R \<in> slice R (nat (x div R)) F"
    using assms by (auto simp: in_slice)
qed

end
