(* ===== verification/Blist_Inv.thy ===== *)
theory Blist_Inv
  imports Blist Radix_Layout
begin

text \<open>
  What the node array of a blist represents: \<open>blst_shape\<close> is the fixed skeleton (which entries exist,
  where the terminators are), \<open>blst_vals\<close> relates the counters, bitmaps and hints to the set of free
  blocks.  The allocation routines are specified by first fit over that set.
\<close>

section \<open>Allocatable runs\<close>

text \<open>The allocator never crosses a leaf: a run of \<open>n\<close> blocks lies in one aligned group of 32.\<close>

definition fits :: "int \<Rightarrow> int set \<Rightarrow> bool" where
  "fits n F \<longleftrightarrow> (\<exists>j. {j..<j + n} \<subseteq> F \<and> j mod 32 + n \<le> 32)"

text \<open>The hint of a node is never too low.\<close>

definition hint_ok :: "int set \<Rightarrow> int \<Rightarrow> bool" where
  "hint_ok F h \<longleftrightarrow> (\<forall>n \<ge> 1. fits n F \<longrightarrow> n \<le> h)"

text \<open>
  A candidate for an allocation of \<open>n\<close> blocks in a node that starts at block \<open>b\<close>: a run inside one
  leaf whose leaf ends beyond the hint position \<open>at\<close>.
\<close>

definition cand :: "int \<Rightarrow> int \<Rightarrow> int set \<Rightarrow> int \<Rightarrow> int \<Rightarrow> bool" where
  "cand at b F n j \<longleftrightarrow> {j..<j + n} \<subseteq> F \<and> j mod 32 + n \<le> 32 \<and> at < b + j div 32 * 32 + 32"

definition first_fit :: "int \<Rightarrow> int \<Rightarrow> int set \<Rightarrow> int \<Rightarrow> int \<Rightarrow> bool" where
  "first_fit at b F n j \<longleftrightarrow> cand at b F n j \<and> (\<forall>j'. cand at b F n j' \<longrightarrow> j \<le> j')"

lemma fits_mono: "fits m F \<Longrightarrow> n \<le> m \<Longrightarrow> fits n F"
  unfolding fits_def by (elim exE, rename_tac j, rule_tac x = j in exI) auto

lemma fits_subset: "fits n F \<Longrightarrow> F \<subseteq> G \<Longrightarrow> fits n G"
  unfolding fits_def by blast

lemma fits_card: "fits n F \<Longrightarrow> finite F \<Longrightarrow> 1 \<le> n \<Longrightarrow> n \<le> int (card F)"
proof -
  assume "fits n F" "finite F" "1 \<le> n"
  then obtain j where "{j..<j + n} \<subseteq> F" by (auto simp: fits_def)
  with \<open>finite F\<close> have "card {j..<j + n} \<le> card F" by (intro card_mono)
  with \<open>1 \<le> n\<close> show ?thesis by simp
qed

lemma fits_le_32: "fits n F \<Longrightarrow> n \<le> 32"
  unfolding fits_def using pos_mod_sign [of 32] by force

lemma hint_ok_empty [simp]: "hint_ok {} h"
  by (auto simp: hint_ok_def fits_def)

lemma hint_ok_32: "32 \<le> h \<Longrightarrow> hint_ok F h"
  using fits_le_32 by (fastforce simp: hint_ok_def)

lemma hint_ok_subset: "hint_ok F h \<Longrightarrow> G \<subseteq> F \<Longrightarrow> hint_ok G h"
  using fits_subset by (fastforce simp: hint_ok_def)

lemma hint_ok_no_fit: "1 \<le> n \<Longrightarrow> \<not> fits n F \<Longrightarrow> hint_ok F (n - 1)"
  unfolding hint_ok_def using fits_mono by (metis not_le zle_diff1_eq)

lemma hint_ok_card: "finite F \<Longrightarrow> hint_ok F (int (card F))"
  by (simp add: hint_ok_def fits_card)

lemma hint_ok_min: "hint_ok F h \<Longrightarrow> hint_ok F h' \<Longrightarrow> hint_ok F (if h < h' then h else h')"
  by (auto simp: hint_ok_def)

lemma hint_ok_mono: "hint_ok F h \<Longrightarrow> h \<le> h' \<Longrightarrow> hint_ok F h'"
  by (fastforce simp: hint_ok_def)

lemma cand_fits: "cand at b F n j \<Longrightarrow> fits n F"
  by (auto simp: cand_def fits_def)

lemma fits_cand: "fits n F \<Longrightarrow> 1 \<le> n \<Longrightarrow> F \<subseteq> {0..} \<Longrightarrow> at < b + 32 \<Longrightarrow> \<exists>j. cand at b F n j"
proof -
  assume "fits n F" "1 \<le> n" "F \<subseteq> {0..}" "at < b + 32"
  then obtain j where j: "{j..<j + n} \<subseteq> F" "j mod 32 + n \<le> 32" by (auto simp: fits_def)
  with \<open>1 \<le> n\<close> have "j \<in> F" by auto
  with \<open>F \<subseteq> {0..}\<close> have "0 \<le> j div 32" by auto
  with \<open>at < b + 32\<close> have "at < b + j div 32 * 32 + 32" by linarith
  with j show ?thesis by (auto simp: cand_def)
qed

text \<open>Candidates of a node are the candidates of its children.\<close>

lemma run_in_slice:
  assumes "32 dvd R" "0 < (R::int)" "1 \<le> n" "j mod 32 + n \<le> 32"
  shows "j mod R + n \<le> R"
proof -
  from assms(1) obtain q where R: "R = 32 * q" by (rule dvdE)
  have m: "j mod R mod 32 = j mod 32" using R by (simp add: mod_mult2_eq mod_mod_cancel)
  have "j mod R < R" using assms(2) by simp
  have d: "j mod R div 32 < q"
    using \<open>j mod R < R\<close> R by (simp add: div_less_iff_less_mult)
  have "j mod R = j mod R div 32 * 32 + j mod 32" using m by (metis div_mult_mod_eq)
  also have "\<dots> + n \<le> j mod R div 32 * 32 + 32" using assms(4) by simp
  also have "\<dots> \<le> 32 * q" using d by simp
  finally show ?thesis using R by simp
qed

lemma cand_slice:
  assumes "32 dvd R" "0 < R" "1 \<le> n"
  shows "cand at (b + int k * R) (slice R k F) n j \<longleftrightarrow>
           cand at b F n (int k * R + j) \<and> 0 \<le> j \<and> j < R"
proof -
  from assms(1) obtain q where R: "R = 32 * q" by (rule dvdE)
  have kR: "int k * R + j = j + 32 * (int k * q)" by (simp add: R)
  have m: "(int k * R + j) mod 32 = j mod 32" unfolding kR by simp
  have d: "(int k * R + j) div 32 * 32 = int k * R + j div 32 * 32"
    unfolding kR by (simp add: R)
  have run: "{j..<j + n} \<subseteq> slice R k F \<longleftrightarrow> {int k * R + j..<int k * R + j + n} \<subseteq> F \<and> 0 \<le> j \<and> j < R"
    if "j mod 32 + n \<le> 32"
  proof
    assume s: "{j..<j + n} \<subseteq> slice R k F"
    have "j \<in> slice R k F" using s assms(3) by auto
    moreover have "{int k * R + j..<int k * R + j + n} \<subseteq> F"
    proof
      fix x assume "x \<in> {int k * R + j..<int k * R + j + n}"
      then have "x - int k * R \<in> {j..<j + n}" by auto
      with s have "x - int k * R \<in> slice R k F" by blast
      then show "x \<in> F" by (simp add: in_slice)
    qed
    ultimately show "{int k * R + j..<int k * R + j + n} \<subseteq> F \<and> 0 \<le> j \<and> j < R"
      by (simp add: in_slice)
  next
    assume s: "{int k * R + j..<int k * R + j + n} \<subseteq> F \<and> 0 \<le> j \<and> j < R"
    then have "j + n \<le> R"
      using run_in_slice [OF assms(1,2,3) that] by simp
    with s show "{j..<j + n} \<subseteq> slice R k F"
      by (auto simp: in_slice subset_iff)
  qed
  show ?thesis
    unfolding cand_def m d using run by (auto simp: algebra_simps)
qed

lemma cand_range:
  assumes "cand at b F n j" "F \<subseteq> {0..<16 * R}" "1 \<le> n"
  shows "0 \<le> j" "j < 16 * R" "j \<in> F"
proof -
  from assms have "j \<in> F" by (auto simp: cand_def)
  with assms(2) show "0 \<le> j" "j < 16 * R" "j \<in> F" by auto
qed

lemma fits_slice:
  assumes "32 dvd R" "0 < R" "1 \<le> n" "F \<subseteq> {0..<16 * R}" "fits n F"
  shows "\<exists>k < 16. fits n (slice R k F)"
proof -
  have "\<exists>j. cand 0 0 F n j" using fits_cand [OF assms(5,3)] assms(4) by force
  then obtain j where c: "cand 0 0 F n j" by blast
  let ?k = "nat (j div R)"
  have j: "j \<in> F" using cand_range [OF c assms(4,3)] by blast
  note sc = slice_cover [OF assms(4,2) j]
  have "cand 0 (0 + int ?k * R) (slice R ?k F) n (j - int ?k * R)"
    using c sc(2) by (subst cand_slice [OF assms(1-3)]) (auto simp: in_slice)
  then have "fits n (slice R ?k F)" by (rule cand_fits)
  with sc(1) show ?thesis by blast
qed

section \<open>The skeleton of the node array\<close>

definition tpat :: "blmeta list \<Rightarrow> bool list" where
  "tpat mem = map (\<lambda>n. bm_bighint n = - 1) mem"

fun blst_shape :: "blmeta list \<Rightarrow> nat \<Rightarrow> nat \<Rightarrow> int \<Rightarrow> bool" where
  "blst_shape mem 0 s cnt \<longleftrightarrow> s < length mem \<and> bm_bighint (mem ! s) \<noteq> - 1"
| "blst_shape mem (Suc l) s cnt \<longleftrightarrow>
     s < length mem \<and> bm_bighint (mem ! s) \<noteq> - 1 \<and>
     (\<forall>k < 16. int k * radixL l < cnt \<longrightarrow> blst_shape mem l (child s l k) (ccnt l cnt k)) \<and>
     (\<forall>k < 16. cnt \<le> int k * radixL l \<and> (int k - 1) * radixL l < cnt \<longrightarrow>
        child s l k < length mem \<and> bm_bighint (mem ! child s l k) = - 1)"

lemma tpat_length: "tpat mem' = tpat mem \<Longrightarrow> length mem' = length mem"
  by (metis length_map tpat_def)

lemma tpat_nth: "tpat mem' = tpat mem \<Longrightarrow> i < length mem \<Longrightarrow>
    (bm_bighint (mem' ! i) = - 1) = (bm_bighint (mem ! i) = - 1)"
  by (simp add: tpat_def list_eq_iff_nth_eq)

lemma tpat_update: "(bm_bighint x = - 1) = (bm_bighint (mem ! i) = - 1) \<Longrightarrow> tpat (mem[i := x]) = tpat mem"
  by (cases "i < length mem") (auto simp: tpat_def map_update list_update_same_conv list_update_beyond)

lemma blst_shape_tpat:
  assumes "tpat mem' = tpat mem" "blst_shape mem l s cnt"
  shows "blst_shape mem' l s cnt"
proof -
  note facts = tpat_length [OF assms(1)] tpat_nth [OF assms(1)]
  from assms(2) show ?thesis
  proof (induction l arbitrary: s cnt)
    case 0
    then show ?case by (simp add: facts)
  next
    case (Suc l)
    then show ?case by (simp add: facts)
  qed
qed

lemma blst_shape_root: "blst_shape mem l s cnt \<Longrightarrow> s < length mem \<and> bm_bighint (mem ! s) \<noteq> - 1"
  by (cases l) auto

section \<open>The contents of the node array\<close>

fun blst_vals :: "blmeta list \<Rightarrow> nat \<Rightarrow> nat \<Rightarrow> int \<Rightarrow> int set \<Rightarrow> bool" where
  "blst_vals mem 0 s cnt F \<longleftrightarrow>
     bits32 (bmu_bitmap (mem ! s)) = F \<and> hint_ok F (bm_bighint (mem ! s))"
| "blst_vals mem (Suc l) s cnt F \<longleftrightarrow>
     bmu_avail (mem ! s) = int (card F) \<and> hint_ok F (bm_bighint (mem ! s)) \<and>
     (F \<noteq> {} \<and> F \<noteq> {0..<radixL (Suc l)} \<longrightarrow>
        (\<forall>k < 16. int k * radixL l < cnt \<longrightarrow>
           blst_vals mem l (child s l k) (ccnt l cnt k) (slice (radixL l) k F)))"

text \<open>The children of a meta node, once it is open.\<close>

definition blst_kids :: "blmeta list \<Rightarrow> nat \<Rightarrow> nat \<Rightarrow> int \<Rightarrow> (nat \<Rightarrow> int set) \<Rightarrow> bool" where
  "blst_kids mem l s cnt G \<longleftrightarrow>
     (\<forall>k < 16. int k * radixL l < cnt \<longrightarrow> blst_vals mem l (child s l k) (ccnt l cnt k) (G k))"

lemma blst_vals_hint: "blst_vals mem l s cnt F \<Longrightarrow> hint_ok F (bm_bighint (mem ! s))"
  by (cases l) auto

lemma blst_vals_frame:
  "same_outside A mem mem' \<Longrightarrow> region s l \<inter> A = {} \<Longrightarrow> blst_shape mem l s cnt \<Longrightarrow>
     blst_vals mem' l s cnt F = blst_vals mem l s cnt F"
proof (induction l arbitrary: s cnt F)
  case 0
  then have "mem' ! s = mem ! s" by (intro same_outside_nth) auto
  then show ?case by simp
next
  case (Suc l)
  have root: "mem' ! s = mem ! s"
    using Suc.prems by (intro same_outside_nth) auto
  have kid: "blst_vals mem' l (child s l k) (ccnt l cnt k) G = blst_vals mem l (child s l k) (ccnt l cnt k) G"
    if "k < 16" "int k * radixL l < cnt" for k G
    using that Suc.prems child_region [of k s l] by (intro Suc.IH) auto
  show ?case by (simp add: root kid)
qed

lemma blst_kids_frame:
  assumes "same_outside A mem mem'" "A \<inter> region s (Suc l) \<subseteq> {s}" "blst_shape mem (Suc l) s cnt"
  shows "blst_kids mem' l s cnt G = blst_kids mem l s cnt G"
proof -
  have "blst_vals mem' l (child s l k) (ccnt l cnt k) (G k) = blst_vals mem l (child s l k) (ccnt l cnt k) (G k)"
    if "k < 16" "int k * radixL l < cnt" for k
  proof (rule blst_vals_frame [OF assms(1)])
    show "region (child s l k) l \<inter> A = {}" using child_region [OF that(1), of s l] assms(2) by blast
    show "blst_shape mem l (child s l k) (ccnt l cnt k)" using that assms(3) by simp
  qed
  then show ?thesis by (simp add: blst_kids_def)
qed

lemma blst_kids_update_root:
  "blst_shape mem (Suc l) s cnt \<Longrightarrow> blst_kids (mem[s := x]) l s cnt G = blst_kids mem l s cnt G"
  by (rule blst_kids_frame [of "{s}"]) (auto intro: same_outside_update)

text \<open>One child changes, the others keep their contents.\<close>

lemma blst_kids_child:
  assumes "same_outside (region (child s l k) l) mem mem'" "blst_shape mem (Suc l) s cnt" "k < 16"
    and "blst_kids mem l s cnt G" "\<And>k'. k' \<noteq> k \<Longrightarrow> G' k' = G k'"
    and "int k * radixL l < cnt \<Longrightarrow> blst_vals mem' l (child s l k) (ccnt l cnt k) (G' k)"
  shows "blst_kids mem' l s cnt G'"
proof -
  have "blst_vals mem' l (child s l k') (ccnt l cnt k') (G' k')" if k': "k' < 16" "int k' * radixL l < cnt" for k'
  proof (cases "k' = k")
    case True
    with assms(6) k' show ?thesis by simp
  next
    case False
    have "blst_vals mem' l (child s l k') (ccnt l cnt k') (G k') =
          blst_vals mem l (child s l k') (ccnt l cnt k') (G k')"
      using assms(1) k' assms(2) child_region_disjoint [OF False, of s l]
      by (intro blst_vals_frame) auto
    with assms(4,5) k' False show ?thesis by (simp add: blst_kids_def)
  qed
  then show ?thesis by (simp add: blst_kids_def)
qed

end
