(* ===== verification/Blist_Leaf.thy ===== *)
theory Blist_Leaf
  imports Blist_Inv
begin

text \<open>
  The allocation routines implement first fit: \<open>blst_leaf_alloc()\<close> and \<open>blst_meta_alloc()\<close> take the
  lowest run of free blocks of the requested length that lies in one leaf (beyond the hint position),
  and fail exactly when there is none; they keep the skeleton, the counters and the hints right.
\<close>

unbundle bit_operations_syntax

section \<open>One block from a leaf\<close>

lemma drop_mask_half: "drop_bit (2 ^ m) (mask (2 ^ Suc m) :: u32) = mask (2 ^ m)" if "m < 4"
proof (rule bit_eqI)
  fix n assume "possible_bit TYPE(32 word) n"
  have "(2::nat) ^ Suc m \<le> 2 ^ 4" using that by (intro power_increasing) auto
  then show "bit (drop_bit (2 ^ m) (mask (2 ^ Suc m) :: u32)) n = bit (mask (2 ^ m) :: u32) n"
    by (auto simp: bit_simps)
qed

lemma and_mask_eq_0_iff: "(w::u32) AND mask j = 0 \<longleftrightarrow> (\<forall>i < j. \<not> bit w i)"
proof
  assume "w AND mask j = 0"
  then have "\<not> bit (w AND mask j) i" for i by simp
  then show "\<forall>i < j. \<not> bit w i"
    by (metis bit_and_iff bit_imp_possible_bit bit_mask_iff)
next
  assume "\<forall>i < j. \<not> bit w i"
  then show "w AND mask j = 0" by (intro bit_eqI) (auto simp: bit_simps)
qed

lemma leaf_alloc_one_least:
  assumes "m \<le> 4" "bit orig i" "\<And>i'. bit orig i' \<Longrightarrow> i \<le> i'" "i < 2 * 2 ^ m"
  shows "blst_leaf_alloc_one (2 ^ m) (mask (2 ^ m)) orig r = r + i"
  using assms
proof (induction m arbitrary: orig r i)
  case 0
  have "orig AND mask 1 = 0 \<longleftrightarrow> \<not> bit orig 0"
    unfolding and_mask_eq_0_iff by (metis less_one)
  moreover have "i = (if bit orig 0 then 0 else 1)"
    using 0 by (cases "i = 0") auto
  ultimately show ?case
    by (simp add: blst_leaf_alloc_one.simps [of "Suc 0"] blst_leaf_alloc_one.simps [of 0])
next
  case (Suc m)
  let ?j = "2 ^ Suc m :: nat"
  have half: "?j div 2 = 2 ^ m" by simp
  have dm: "drop_bit (2 ^ m) (mask ?j :: u32) = mask (2 ^ m)"
    using Suc.prems(1) by (intro drop_mask_half) simp
  show ?case
  proof (cases "orig AND mask ?j = 0")
    case True
    then have ge: "?j \<le> i" using Suc.prems(2) by (auto simp: and_mask_eq_0_iff not_less [symmetric])
    have "blst_leaf_alloc_one (2 ^ m) (mask (2 ^ m)) (drop_bit ?j orig) (r + ?j) = r + ?j + (i - ?j)"
    proof (rule Suc.IH)
      show "m \<le> 4" using Suc.prems(1) by simp
      show "bit (drop_bit ?j orig) (i - ?j)" using ge Suc.prems(2) by (simp add: bit_simps)
      show "i - ?j \<le> i'" if "bit (drop_bit ?j orig) i'" for i'
        using Suc.prems(3) [of "?j + i'"] that by (simp add: bit_simps)
      show "i - ?j < 2 * 2 ^ m" using Suc.prems(4) ge by simp
    qed
    with True ge show ?thesis
      by (simp add: blst_leaf_alloc_one.simps [of ?j] dm half del: power_Suc)
  next
    case False
    then obtain i' where "i' < ?j" "bit orig i'" by (auto simp: and_mask_eq_0_iff)
    with Suc.prems(3) have "i < ?j" by (metis le_less_trans)
    then have "blst_leaf_alloc_one (2 ^ m) (mask (2 ^ m)) orig r = r + i"
      using Suc.prems by (intro Suc.IH) auto
    with False show ?thesis
      by (simp add: blst_leaf_alloc_one.simps [of ?j] dm half del: power_Suc)
  qed
qed

lemma leaf_alloc_one:
  assumes "orig \<noteq> 0"
  obtains i where "blst_leaf_alloc_one 16 (drop_bit 16 (- 1)) orig 0 = i" "i < 32"
    "int i \<in> bits32 orig" "\<And>x. x \<in> bits32 orig \<Longrightarrow> int i \<le> x"
proof -
  from assms obtain i0 where "bit orig i0" using bit_eq_iff [of orig 0] by auto
  define i where "i = (LEAST i. bit orig i)"
  have i: "bit orig i" unfolding i_def using \<open>bit orig i0\<close> by (rule LeastI)
  have least: "i \<le> i'" if "bit orig i'" for i' unfolding i_def using that by (rule Least_le)
  have "i < 32" using i bit_imp_le_length [of orig i] by simp
  have m: "drop_bit 16 (- 1) = (mask (2 ^ 4) :: u32)"
    by (rule bit_eqI) (auto simp: bit_simps)
  have "blst_leaf_alloc_one (2 ^ 4) (mask (2 ^ 4)) orig 0 = 0 + i"
    using i least \<open>i < 32\<close> by (intro leaf_alloc_one_least) auto
  then have "blst_leaf_alloc_one 16 (drop_bit 16 (- 1)) orig 0 = i" by (simp add: m)
  moreover have "int i \<in> bits32 orig" using i \<open>i < 32\<close> by (simp add: bits32_iff)
  moreover have "int i \<le> x" if "x \<in> bits32 orig" for x
    using least [of "nat x"] that by (auto simp: bits32_iff)
  ultimately show ?thesis using \<open>i < 32\<close> that by blast
qed

section \<open>A run of blocks from a leaf\<close>

lemma and_eq_mask_iff: "(orig::u32) AND m = m \<longleftrightarrow> bits32 m \<subseteq> bits32 orig"
proof -
  have "orig AND m = m \<longleftrightarrow> bits32 (orig AND m) = bits32 m"
    using bits32_inject [of "orig AND m" m] by auto
  also have "\<dots> \<longleftrightarrow> bits32 m \<subseteq> bits32 orig" unfolding bits32_and by blast
  finally show ?thesis .
qed

lemma bits32_push_bit_1:
  "bits32 w = {a..<b} \<Longrightarrow> 0 \<le> a \<Longrightarrow> b < 32 \<Longrightarrow> bits32 (push_bit 1 w) = {a + 1..<b + 1}"
proof (rule set_eqI)
  fix x assume *: "bits32 w = {a..<b}" "0 \<le> a" "b < 32"
  have "x \<in> bits32 (push_bit 1 w) \<longleftrightarrow> 1 \<le> x \<and> x < 32 \<and> bit w (nat x - 1)"
    unfolding bits32_iff bit_push_bit_iff by auto
  also have "\<dots> \<longleftrightarrow> 1 \<le> x \<and> x < 32 \<and> x - 1 \<in> bits32 w"
    by (auto simp: bits32_iff nat_diff_distrib)
  also have "\<dots> \<longleftrightarrow> x \<in> {a + 1..<b + 1}" using * by auto
  finally show "x \<in> bits32 (push_bit 1 w) \<longleftrightarrow> x \<in> {a + 1..<b + 1}" .
qed

lemma leaf_alloc_run:
  assumes "n < 32" "bits32 bm = {int j..<int j + (32 - int n)}" "j \<le> Suc n"
    and "\<And>i. i < j \<Longrightarrow> \<not> {int i..<int i + (32 - int n)} \<subseteq> bits32 orig"
  shows "case blst_leaf_alloc_run j n bm orig of
      None \<Rightarrow> \<forall>i \<le> n. \<not> {int i..<int i + (32 - int n)} \<subseteq> bits32 orig
    | Some (i, m) \<Rightarrow> i \<le> n \<and> bits32 m = {int i..<int i + (32 - int n)} \<and> bits32 m \<subseteq> bits32 orig \<and>
        (\<forall>i' < i. \<not> {int i'..<int i' + (32 - int n)} \<subseteq> bits32 orig)"
  using assms
proof (induction j n bm orig rule: blst_leaf_alloc_run.induct)
  case (1 j n bm orig)
  show ?case
  proof (cases "j \<le> n")
    case False
    with "1.prems" have "j = Suc n" by simp
    with "1.prems"(4) show ?thesis
      by (simp add: blst_leaf_alloc_run.simps [of "Suc n"] less_Suc_eq_le)
  next
    case True
    show ?thesis
    proof (cases "orig AND bm = bm")
      case hit: True
      with True "1.prems" show ?thesis
        by (simp add: blst_leaf_alloc_run.simps [of j] and_eq_mask_iff)
    next
      case miss: False
      then have nj: "\<not> {int j..<int j + (32 - int n)} \<subseteq> bits32 orig"
        using "1.prems"(2) by (simp add: and_eq_mask_iff)
      have step: "blst_leaf_alloc_run j n bm orig = blst_leaf_alloc_run (Suc j) n (push_bit 1 bm) orig"
        using True miss by (simp add: blst_leaf_alloc_run.simps [of j])
      have less: "\<not> {int i..<int i + (32 - int n)} \<subseteq> bits32 orig" if "i < Suc j" for i
        using nj "1.prems"(4) [of i] that by (cases "i = j") auto
      show ?thesis
      proof (cases "j = n")
        case True
        then show ?thesis
          unfolding step using less
          by (simp add: blst_leaf_alloc_run.simps [of "Suc n"] less_Suc_eq_le)
      next
        case False
        have "bits32 (push_bit 1 bm) = {int (Suc j)..<int (Suc j) + (32 - int n)}"
          using bits32_push_bit_1 [OF "1.prems"(2)] True False by (simp add: algebra_simps)
        then show ?thesis
          unfolding step using "1.IH" [OF True miss "1.prems"(1)] True less by simp
      qed
    qed
  qed
qed

section \<open>Allocation in a leaf\<close>

definition alloc_post ::
  "nat \<Rightarrow> blmeta list \<Rightarrow> nat \<Rightarrow> int \<Rightarrow> int \<Rightarrow> int set \<Rightarrow> int \<Rightarrow> int \<Rightarrow> (blmeta list \<times> int) kres \<Rightarrow> bool" where
  "alloc_post l mem s b cnt F at n res \<longleftrightarrow>
     (\<exists>mem' r. res = Inr (mem', r) \<and> tpat mem' = tpat mem \<and> same_outside (region s l) mem mem' \<and>
        (r = SWAPBLK_NONE \<and> (\<forall>j. \<not> cand at b F n j) \<and> blst_vals mem' l s cnt F \<or>
         (\<exists>j. r = b + j \<and> first_fit at b F n j \<and> blst_vals mem' l s cnt (F - {j..<j + n}))))"

lemma alloc_post_none:
  "tpat mem' = tpat mem \<Longrightarrow> same_outside (region s l) mem mem' \<Longrightarrow> (\<And>j. \<not> cand at b F n j) \<Longrightarrow>
     blst_vals mem' l s cnt F \<Longrightarrow> alloc_post l mem s b cnt F at n (none_result mem')"
  by (simp add: alloc_post_def)

lemma alloc_post_some:
  "tpat mem' = tpat mem \<Longrightarrow> same_outside (region s l) mem mem' \<Longrightarrow> first_fit at b F n j \<Longrightarrow>
     blst_vals mem' l s cnt (F - {j..<j + n}) \<Longrightarrow> alloc_post l mem s b cnt F at n (Inr (mem', b + j))"
  by (auto simp: alloc_post_def)

text \<open>In a leaf a candidate is a run of set bits.\<close>

lemma cand_leaf:
  assumes "F \<subseteq> {0..<32}" "1 \<le> n" "at < b + 32"
  shows "cand at b F n j \<longleftrightarrow> {j..<j + n} \<subseteq> F"
proof
  assume r: "{j..<j + n} \<subseteq> F"
  from r assms have "j \<in> F" "j + n - 1 \<in> F" by (auto simp: subset_iff)
  with assms(1) have "0 \<le> j" "j < 32" "j + n \<le> 32" by auto
  with r assms(3) show "cand at b F n j" by (simp add: cand_def)
qed (simp add: cand_def)

lemma blst_leaf_alloc_spec:
  assumes "blst_shape mem 0 s cnt" "blst_vals mem 0 s cnt F" "1 \<le> n" "n \<le> 32" "at < b + 32"
  shows "alloc_post 0 mem s b cnt F at n (blst_leaf_alloc mem s at b n)"
proof -
  let ?scan = "mem ! s" and ?orig = "bmu_bitmap (mem ! s)"
  from assms(1,2) have s: "s < length mem" and hint: "bm_bighint ?scan \<noteq> - 1"
    and F: "bits32 ?orig = F" and ok: "hint_ok F (bm_bighint ?scan)" by auto
  have F32: "F \<subseteq> {0..<32}" using F bits32_subset by blast
  note cl = cand_leaf [OF F32 assms(3,5)]
  have frame: "same_outside (region s 0) mem (mem[s := x])" for x
    by (rule same_outside_update) simp
  have miss: "alloc_post 0 mem s b cnt F at n (none_result (mem[s := ?scan\<lparr>bm_bighint := n - 1\<rparr>]))"
    if no: "\<And>j. \<not> {j..<j + n} \<subseteq> F"
  proof (rule alloc_post_none [OF _ frame])
    show "tpat (mem[s := ?scan\<lparr>bm_bighint := n - 1\<rparr>]) = tpat mem"
      using hint assms(3) by (intro tpat_update) simp
    show "\<not> cand at b F n j" for j using no by (simp add: cl)
    have "\<not> fits n F" using no by (auto simp: fits_def)
    then show "blst_vals (mem[s := ?scan\<lparr>bm_bighint := n - 1\<rparr>]) 0 s cnt F"
      using s F assms(3) by (simp add: hint_ok_no_fit)
  qed
  have hit: "alloc_post 0 mem s b cnt F at n
      (Inr (mem[s := ?scan\<lparr>bmu_bitmap := ?orig AND NOT m\<rparr>], b + int i))"
    if "bits32 m = {int i..<int i + n}" "bits32 m \<subseteq> F"
      "\<And>j. {j..<j + n} \<subseteq> F \<Longrightarrow> int i \<le> j" for m i
  proof (rule alloc_post_some [OF _ frame])
    show "tpat (mem[s := ?scan\<lparr>bmu_bitmap := ?orig AND NOT m\<rparr>]) = tpat mem"
      by (intro tpat_update) simp
    show "first_fit at b F n (int i)" using that by (simp add: first_fit_def cl)
    show "blst_vals (mem[s := ?scan\<lparr>bmu_bitmap := ?orig AND NOT m\<rparr>]) 0 s cnt (F - {int i..<int i + n})"
      using s F ok that by (auto intro: hint_ok_subset)
  qed
  show ?thesis
  proof (cases "?orig = 0")
    case True
    then have "F = {}" using F by simp
    have "alloc_post 0 mem s b cnt F at n (none_result (mem[s := ?scan\<lparr>bm_bighint := 0\<rparr>]))"
    proof (rule alloc_post_none [OF _ frame])
      show "tpat (mem[s := ?scan\<lparr>bm_bighint := 0\<rparr>]) = tpat mem"
        using hint by (intro tpat_update) simp
    qed (use \<open>F = {}\<close> True s assms(3) in \<open>auto simp: cand_def\<close>)
    with True s show ?thesis by (simp add: blst_leaf_alloc_def)
  next
    case nz: False
    show ?thesis
    proof (cases "n = 1")
      case True
      obtain i where i: "blst_leaf_alloc_one 16 (drop_bit 16 (- 1)) ?orig 0 = i" "i < 32"
        "int i \<in> bits32 ?orig" "\<And>x. x \<in> bits32 ?orig \<Longrightarrow> int i \<le> x"
        by (rule leaf_alloc_one [OF nz], rule that)
      have "alloc_post 0 mem s b cnt F at n
          (Inr (mem[s := ?scan\<lparr>bmu_bitmap := ?orig AND NOT (push_bit i 1)\<rparr>], b + int i))"
      proof (rule hit)
        have "{int i..<int i + 1} = {int i}" by auto
        then show "bits32 (push_bit i 1) = {int i..<int i + n}"
          using True bits32_push_1 [OF i(2)] by simp
        show "bits32 (push_bit i 1) \<subseteq> F" using bits32_push_1 [OF i(2)] i(3) F by simp
        show "int i \<le> j" if "{j..<j + n} \<subseteq> F" for j using that True i(4) F by auto
      qed
      with True s nz i(1) show ?thesis by (simp add: blst_leaf_alloc_def)
    next
      case False
      let ?n = "nat (32 - n)"
      have n: "?n < 32" "32 - int ?n = n" using assms(3,4) by auto
      have m: "bits32 (drop_bit ?n (- 1)) = {int 0..<int 0 + (32 - int ?n)}"
        using n by (subst bits32_drop_minus_1) auto
      have run: "case blst_leaf_alloc_run 0 ?n (drop_bit ?n (- 1)) ?orig of
          None \<Rightarrow> \<forall>i \<le> ?n. \<not> {int i..<int i + n} \<subseteq> F
        | Some (i, w) \<Rightarrow> i \<le> ?n \<and> bits32 w = {int i..<int i + n} \<and> bits32 w \<subseteq> F \<and>
            (\<forall>i' < i. \<not> {int i'..<int i' + n} \<subseteq> F)"
        by (rule leaf_alloc_run [OF n(1) m, of ?orig, unfolded n(2) F]) simp_all
      have inside: "\<exists>i. j = int i \<and> i \<le> ?n" if "{j..<j + n} \<subseteq> F" for j
      proof -
        from that assms(3) have "j \<in> F" "j + n - 1 \<in> F" by (auto simp: subset_iff)
        with F32 have "0 \<le> j" "j \<le> 32 - n" by auto
        then show ?thesis by (intro exI [of _ "nat j"]) auto
      qed
      show ?thesis
      proof (cases "blst_leaf_alloc_run 0 ?n (drop_bit ?n (- 1)) ?orig")
        case None
        have "\<not> {j..<j + n} \<subseteq> F" for j
        proof
          assume r: "{j..<j + n} \<subseteq> F"
          from inside [OF r] obtain i where "j = int i" "i \<le> ?n" by blast
          with run None r show False by simp
        qed
        with None False s nz assms(3,4) miss show ?thesis
          by (simp add: blst_leaf_alloc_def BLIST_BMAP_RADIX_def)
      next
        case (Some p)
        then obtain i w where p: "blst_leaf_alloc_run 0 ?n (drop_bit ?n (- 1)) ?orig = Some (i, w)"
          by (cases p) auto
        with run have w: "bits32 w = {int i..<int i + n}" "bits32 w \<subseteq> F"
          "\<And>i'. i' < i \<Longrightarrow> \<not> {int i'..<int i' + n} \<subseteq> F" by auto
        have "alloc_post 0 mem s b cnt F at n
            (Inr (mem[s := ?scan\<lparr>bmu_bitmap := ?orig AND NOT w\<rparr>], b + int i))"
        proof (rule hit [OF w(1,2)])
          fix j assume r: "{j..<j + n} \<subseteq> F"
          from inside [OF r] obtain i' where "j = int i'" by blast
          with r w(3) [of i'] show "int i \<le> j" by (cases "i' < i") auto
        qed
        with p False s nz assms(3,4) show ?thesis
          by (simp add: blst_leaf_alloc_def BLIST_BMAP_RADIX_def)
      qed
    qed
  qed
qed

section \<open>Opening a collapsed node\<close>

lemma blst_init_loop_spec:
  assumes "blst_shape mem (Suc l) s cnt" "k \<le> 16" "(int k - 1) * radixL l < cnt"
    and f: "\<And>c. bm_bighint c \<noteq> - 1 \<Longrightarrow> bm_bighint (f c) \<noteq> - 1"
    and init: "\<And>mem x c. x < length mem \<Longrightarrow> blst_vals (mem[x := f (mem ! x)]) l x c G"
    and prev: "\<And>k'. k' < k \<Longrightarrow> int k' * radixL l < cnt \<Longrightarrow>
        blst_vals mem l (child s l k') (ccnt l cnt k') G"
  shows "\<exists>mem'. blst_init_loop f mem s (cidx l k) (skipL (Suc l)) (Suc (skipL l)) = Inr mem' \<and>
      tpat mem' = tpat mem \<and> same_outside (region s (Suc l) - {s}) mem mem' \<and>
      blst_kids mem' l s cnt (\<lambda>_. G)"
  using assms(1-3) prev
proof (induction "16 - k" arbitrary: k mem)
  case 0
  then have "k = 16" by simp
  have "blst_init_loop f mem s (cidx l 16) (skipL (Suc l)) (Suc (skipL l)) = Inr mem"
    by (subst blst_init_loop.simps) simp
  with \<open>k = 16\<close> 0 show ?case by (auto simp: blst_kids_def)
next
  case (Suc x)
  then have k: "k < 16" by simp
  let ?c = "child s l k"
  have step: "blst_init_loop f mem s (cidx l k) (skipL (Suc l)) (Suc (skipL l)) =
      rbind (rd mem ?c) (\<lambda>c. if bm_bighint c = - 1 then Inr mem
        else blst_init_loop f (mem[?c := f c]) s (cidx l (Suc k)) (skipL (Suc l)) (Suc (skipL l)))"
    using k by (subst blst_init_loop.simps) (simp cong: if_cong)
  show ?case
  proof (cases "int k * radixL l < cnt")
    case False
    then have c: "?c < length mem" "bm_bighint (mem ! ?c) = - 1"
      using Suc.prems(1,3) k by auto
    have "k' < k" if "int k' * radixL l < cnt" for k'
    proof (rule ccontr)
      assume "\<not> k' < k"
      then have "int k * radixL l \<le> int k' * radixL l" by (intro mult_right_mono) auto
      with that False show False by simp
    qed
    then have "blst_kids mem l s cnt (\<lambda>_. G)" using Suc.prems(4) by (simp add: blst_kids_def)
    with step c show ?thesis by auto
  next
    case True
    then have sh: "blst_shape mem l ?c (ccnt l cnt k)" using Suc.prems(1) k by simp
    then have c: "?c < length mem" "bm_bighint (mem ! ?c) \<noteq> - 1" using blst_shape_root by auto
    let ?m = "mem[?c := f (mem ! ?c)]"
    have tp: "tpat ?m = tpat mem" using c f by (intro tpat_update) simp
    have so: "same_outside (region ?c l) mem ?m" by (rule same_outside_update) simp
    have sh': "blst_shape ?m (Suc l) s cnt" by (rule blst_shape_tpat [OF tp Suc.prems(1)])
    have prev': "blst_vals ?m l (child s l k') (ccnt l cnt k') G" if k': "k' < Suc k" "int k' * radixL l < cnt" for k'
    proof (cases "k' = k")
      case True
      then show ?thesis using init c(1) by simp
    next
      case False
      have "blst_vals ?m l (child s l k') (ccnt l cnt k') G = blst_vals mem l (child s l k') (ccnt l cnt k') G"
        using so child_region_disjoint [OF False, of s l] Suc.prems(1) k' k
        by (intro blst_vals_frame [of "region ?c l"]) auto
      with Suc.prems(4) [of k'] False k' show ?thesis by simp
    qed
    have x: "x = 16 - Suc k" "Suc k \<le> 16" "(int (Suc k) - 1) * radixL l < cnt"
      using Suc.hyps(2) True by simp_all
    from Suc.hyps(1) [OF x(1) sh' x(2,3) prev'] obtain mem' where
      m: "blst_init_loop f ?m s (cidx l (Suc k)) (skipL (Suc l)) (Suc (skipL l)) = Inr mem'"
        "tpat mem' = tpat ?m" "same_outside (region s (Suc l) - {s}) ?m mem'"
        "blst_kids mem' l s cnt (\<lambda>_. G)" by auto
    have "same_outside (region s (Suc l) - {s}) mem mem'"
      using same_outside_trans [OF so m(3)] child_region [OF k, of s l] by blast
    with m tp step c show ?thesis by auto
  qed
qed

lemma blst_init_free_spec:
  assumes "blst_shape mem (Suc l) s cnt" "0 < cnt"
  shows "\<exists>mem'. blst_init_free mem s (skipL (Suc l)) (Suc (skipL l)) (radixL l) = Inr mem' \<and>
      tpat mem' = tpat mem \<and> same_outside (region s (Suc l) - {s}) mem mem' \<and>
      blst_kids mem' l s cnt (\<lambda>_. {0..<radixL l})"
proof -
  let ?f = "\<lambda>c. if Suc (skipL l) = 1 then c\<lparr>bmu_bitmap := - 1, bm_bighint := BLIST_BMAP_RADIX\<rparr>
            else c\<lparr>bm_bighint := radixL l, bmu_avail := radixL l\<rparr>"
  have "\<exists>mem'. blst_init_loop ?f mem s (cidx l 0) (skipL (Suc l)) (Suc (skipL l)) = Inr mem' \<and>
      tpat mem' = tpat mem \<and> same_outside (region s (Suc l) - {s}) mem mem' \<and>
      blst_kids mem' l s cnt (\<lambda>_. {0..<radixL l})"
  proof (rule blst_init_loop_spec [OF assms(1)])
    show "(int 0 - 1) * radixL l < cnt" by (rule first_child_exists [OF assms(2)])
    show "bm_bighint (?f c) \<noteq> - 1" for c
      using radixL_pos(1) [of l] by (auto simp: BLIST_BMAP_RADIX_def simp del: radixL_pos)
    show "blst_vals (mem[x := ?f (mem ! x)]) l x c {0..<radixL l}" if "x < length mem" for mem x c
      using that by (cases l) (auto simp: BLIST_BMAP_RADIX_def skipL.simps intro!: hint_ok_32)
  qed simp_all
  then show ?thesis unfolding blst_init_free_def by simp
qed

lemma blst_init_alloced_spec:
  assumes "blst_shape mem (Suc l) s cnt" "0 < cnt"
  shows "\<exists>mem'. blst_init_alloced mem s (skipL (Suc l)) (Suc (skipL l)) = Inr mem' \<and>
      tpat mem' = tpat mem \<and> same_outside (region s (Suc l) - {s}) mem mem' \<and>
      blst_kids mem' l s cnt (\<lambda>_. {})"
proof -
  let ?f = "\<lambda>c. if Suc (skipL l) = 1 then c\<lparr>bm_bighint := 0, bmu_bitmap := 0\<rparr>
            else c\<lparr>bm_bighint := 0, bmu_avail := 0\<rparr>"
  have "\<exists>mem'. blst_init_loop ?f mem s (cidx l 0) (skipL (Suc l)) (Suc (skipL l)) = Inr mem' \<and>
      tpat mem' = tpat mem \<and> same_outside (region s (Suc l) - {s}) mem mem' \<and>
      blst_kids mem' l s cnt (\<lambda>_. {})"
  proof (rule blst_init_loop_spec [OF assms(1)])
    show "(int 0 - 1) * radixL l < cnt" by (rule first_child_exists [OF assms(2)])
    show "blst_vals (mem[x := ?f (mem ! x)]) l x c {}" if "x < length mem" for mem x c
      using that by (cases l) (auto simp: skipL.simps)
  qed simp_all
  then show ?thesis unfolding blst_init_alloced_def by simp
qed

end
