(* ===== verification/Blist_Alloc.thy ===== *)
theory Blist_Alloc
  imports Blist_Leaf
begin

text \<open>
  Allocation in a meta node implements first fit over the free blocks of the node, and keeps the
  counters and hints of every node right.
\<close>

section \<open>The loop over the children\<close>

lemma SWAPBLK_NONE_neg: "SWAPBLK_NONE < 0"
  by (simp add: SWAPBLK_NONE_def)

lemma cand_nonneg:
  assumes "cand at b F n j" "F \<subseteq> {0..<cnt}" "1 \<le> n"
  shows "0 \<le> j" "j < cnt"
proof -
  have "j \<in> {j..<j + n}" using assms(3) by simp
  then have "j \<in> F" using assms(1) unfolding cand_def by blast
  then show "0 \<le> j" "j < cnt" using assms(2) by auto
qed

definition node_alloc :: "nat \<Rightarrow> blmeta list \<Rightarrow> nat \<Rightarrow> int \<Rightarrow> int \<Rightarrow> int \<Rightarrow> (blmeta list \<times> int) kres" where
  "node_alloc l mem s at b n =
     (if l = 0 then blst_leaf_alloc mem s at b n
      else blst_meta_alloc mem s at b n (radixL l) (skipL l))"

abbreviation alloc_loop ::
  "nat \<Rightarrow> blmeta list \<Rightarrow> nat \<Rightarrow> nat \<Rightarrow> int \<Rightarrow> int \<Rightarrow> int \<Rightarrow> (blmeta list \<times> int) kres" where
  "alloc_loop l mem s k at blk n \<equiv>
     blst_meta_alloc_loop mem s (cidx l k) at blk n (radixL l) (skipL (Suc l)) (Suc (skipL l))"

lemma alloc_loop_end: "alloc_loop l mem s 16 at blk n = none_result mem"
  by (subst blst_meta_alloc_loop.simps) simp

lemma alloc_loop_step:
  "k < 16 \<Longrightarrow> alloc_loop l mem s k at blk n =
     rbind (rd mem (child s l k)) (\<lambda>c.
       if n \<le> bm_bighint c \<and> at < blk + radixL l then
         rbind (node_alloc l mem (child s l k) at blk n) (\<lambda>(mem, r).
           if r \<noteq> SWAPBLK_NONE then
             rbind (rd mem s) (\<lambda>scan.
               let avail = bmu_avail scan - n;
                   hint = (if avail < bm_bighint scan then avail else bm_bighint scan)
               in Inr (mem[s := scan\<lparr>bmu_avail := avail, bm_bighint := hint\<rparr>], r))
           else alloc_loop l mem s (Suc k) at (blk + radixL l) n)
       else if bm_bighint c = - 1 then none_result mem
       else if radixL l < n then Inl (Panic ''blist_meta_alloc: allocation too large'')
       else alloc_loop l mem s (Suc k) at (blk + radixL l) n)"
  by (subst blst_meta_alloc_loop.simps) (auto simp: node_alloc_def cong: if_cong)

definition loop_post ::
  "nat \<Rightarrow> blmeta list \<Rightarrow> nat \<Rightarrow> int \<Rightarrow> int \<Rightarrow> int set \<Rightarrow> int \<Rightarrow> int \<Rightarrow> (blmeta list \<times> int) kres \<Rightarrow> bool" where
  "loop_post l mem s b cnt F at n res \<longleftrightarrow>
     (\<exists>mem' r. res = Inr (mem', r) \<and> tpat mem' = tpat mem \<and>
        same_outside (region s (Suc l)) mem mem' \<and>
        (r = SWAPBLK_NONE \<and> (\<forall>j. \<not> cand at b F n j) \<and> mem' ! s = mem ! s \<and>
           blst_kids mem' l s cnt (\<lambda>k. slice (radixL l) k F) \<or>
         (\<exists>j avail. r = b + j \<and> first_fit at b F n j \<and> avail = bmu_avail (mem ! s) - n \<and>
           mem' ! s = (mem ! s)\<lparr>bmu_avail := avail,
             bm_bighint := (if avail < bm_bighint (mem ! s) then avail else bm_bighint (mem ! s))\<rparr> \<and>
           blst_kids mem' l s cnt (\<lambda>k. slice (radixL l) k (F - {j..<j + n})))))"

lemma no_cand_beyond:
  assumes "\<And>j. cand at b F n j \<Longrightarrow> int k * R \<le> j" "F \<subseteq> {0..<cnt}" "cnt \<le> int k * R" "1 \<le> n"
  shows "\<not> cand at b F n j"
proof
  assume c: "cand at b F n j"
  then have "j \<in> F" using assms(4) by (auto simp: cand_def)
  with assms(1) [OF c] assms(2,3) show False by auto
qed

lemma no_cand_step:
  assumes "\<And>j. cand at b F n j \<Longrightarrow> int k * R \<le> j" "32 dvd R" "0 < R" "1 \<le> n"
    and "\<And>j. \<not> cand at (b + int k * R) (slice R k F) n j" "cand at b F n j"
  shows "int (Suc k) * R \<le> j"
proof (rule ccontr)
  assume "\<not> int (Suc k) * R \<le> j"
  then have "j - int k * R < R" by (simp add: algebra_simps)
  moreover have "0 \<le> j - int k * R" using assms(1,6) by simp
  ultimately have "cand at (b + int k * R) (slice R k F) n (j - int k * R)"
    using assms(6) by (simp add: cand_slice [OF assms(2-4)])
  with assms(5) show False by blast
qed

lemma first_fit_slice:
  assumes "\<And>j. cand at b F n j \<Longrightarrow> int k * R \<le> j" "32 dvd R" "0 < R" "1 \<le> n"
    and "first_fit at (b + int k * R) (slice R k F) n j"
  shows "first_fit at b F n (int k * R + j)" "0 \<le> j" "j + n \<le> R"
proof -
  have c: "cand at (b + int k * R) (slice R k F) n j"
    and least: "\<And>j'. cand at (b + int k * R) (slice R k F) n j' \<Longrightarrow> j \<le> j'"
    using assms(5) by (auto simp: first_fit_def)
  then have up: "cand at b F n (int k * R + j)" "0 \<le> j" "j < R"
    using cand_slice [OF assms(2-4)] by blast+
  show "0 \<le> j" by fact
  have "j mod 32 + n \<le> 32" using c by (simp add: cand_def)
  from run_in_slice [OF assms(2,3,4) this] up show "j + n \<le> R" by simp
  have "int k * R + j \<le> j'" if j': "cand at b F n j'" for j'
  proof (cases "j' - int k * R < R")
    case True
    then have "cand at (b + int k * R) (slice R k F) n (j' - int k * R)"
      using j' assms(1) [OF j'] by (simp add: cand_slice [OF assms(2-4)])
    then show ?thesis using least by fastforce
  next
    case False
    with up show ?thesis by linarith
  qed
  with up show "first_fit at b F n (int k * R + j)" by (simp add: first_fit_def)
qed

lemma slice_remove:
  assumes "0 \<le> j" "j + n \<le> R"
  shows "slice R k (F - {int k * R + j..<int k * R + j + n}) = slice R k F - {j..<j + n}"
    and "k' \<noteq> k \<Longrightarrow> slice R k' (F - {int k * R + j..<int k * R + j + n}) = slice R k' F"
  using assms by (simp_all add: slice_Diff slice_run_same slice_run_other)

lemma child_no_cand:
  assumes "blst_vals mem l c cc (slice (radixL l) k F)" "1 \<le> n"
    and "\<not> (n \<le> bm_bighint (mem ! c) \<and> at < b + radixL l)"
  shows "\<not> cand at b (slice (radixL l) k F) n j"
proof
  let ?R = "radixL l"
  assume c: "cand at b (slice ?R k F) n j"
  then have j: "0 \<le> j" "j < ?R"
    using cand_slice [OF radixL_dvd [of l] radixL_pos(1) [of l] assms(2), of at "b - int k * ?R" k F j] by auto
  have "n \<le> bm_bighint (mem ! c)"
    using blst_vals_hint [OF assms(1)] cand_fits [OF c] assms(2) by (simp add: hint_ok_def)
  moreover have "j div 32 * 32 + 32 \<le> ?R"
  proof -
    obtain q where R: "?R = 32 * q" using radixL_dvd by (rule dvdE)
    then have "j div 32 < q" using j by (simp add: div_less_iff_less_mult)
    with R show ?thesis by simp
  qed
  ultimately show False using assms(3) c by (auto simp: cand_def)
qed

lemma alloc_loop_hit:
  assumes mem: "blst_shape mem (Suc l) s cnt" "blst_kids mem l s cnt (\<lambda>k. slice (radixL l) k F)"
      "bmu_avail (mem ! s) = int (card F)" and F: "F \<subseteq> {0..<cnt}" and n: "1 \<le> n" and k: "k < 16"
    and hint: "n \<le> bm_bighint (mem ! child s l k) \<and> at < b + int k * radixL l + radixL l"
    and res: "node_alloc l mem (child s l k) at (b + int k * radixL l) n = Inr (mem', r)"
    and m': "tpat mem' = tpat mem" "same_outside (region (child s l k) l) mem mem'"
    and j: "r = b + int k * radixL l + j"
      "first_fit at (b + int k * radixL l) (slice (radixL l) k F) n j"
      "blst_vals mem' l (child s l k) (ccnt l cnt k) (slice (radixL l) k F - {j..<j + n})"
    and c: "child s l k < length mem" and low: "\<And>j. cand at b F n j \<Longrightarrow> int k * radixL l \<le> j"
    and b: "0 \<le> b"
  shows "loop_post l mem s b cnt F at n (alloc_loop l mem s k at (b + int k * radixL l) n)"
proof -
  let ?R = "radixL l"
  have ff: "first_fit at b F n (int k * ?R + j)" "0 \<le> j" "j + n \<le> ?R"
    using first_fit_slice [OF _ radixL_dvd radixL_pos(1) n j(2)] low by blast+
  let ?F = "F - {int k * ?R + j..<int k * ?R + j + n}"
  have s: "s < length mem" "bm_bighint (mem ! s) \<noteq> - 1" using mem(1) by auto
  have "0 \<le> int k * ?R" by simp
  then have rd: "r \<noteq> SWAPBLK_NONE" "r = b + (int k * ?R + j)"
    using j(1) b ff(2) SWAPBLK_NONE_neg by linarith+
  have root: "mem' ! s = mem ! s" using m'(2) s by (intro same_outside_nth) auto
  have kids: "blst_kids mem' l s cnt (\<lambda>k. slice ?R k ?F)"
    by (rule blst_kids_child [OF m'(2) mem(1) k mem(2)]) (auto simp: slice_remove [OF ff(2,3)] j(3))
  have "n \<le> int (card F)"
    using ff(1) F n by (intro fits_card) (auto simp: first_fit_def intro: cand_fits finite_subset)
  then have avail: "0 \<le> bmu_avail (mem ! s) - n" using mem(3) by simp
  define new where "new = (mem ! s)\<lparr>bmu_avail := bmu_avail (mem ! s) - n, bm_bighint :=
      (if bmu_avail (mem ! s) - n < bm_bighint (mem ! s) then bmu_avail (mem ! s) - n
       else bm_bighint (mem ! s))\<rparr>"
  have loop: "alloc_loop l mem s k at (b + int k * ?R) n = Inr (mem'[s := new], r)"
    using hint c res rd(1) s root tpat_length [OF m'(1)]
    by (simp add: alloc_loop_step [OF k] Let_def new_def)
  have tp: "tpat (mem'[s := new]) = tpat mem"
    using s avail root m'(1) by (subst tpat_update) (auto simp: new_def)
  have so: "same_outside (region s (Suc l)) mem (mem'[s := new])"
    using child_region [OF k, of s l]
    by (intro same_outside_trans [OF m'(2) same_outside_update [of s "{s}"]]) auto
  have kids': "blst_kids (mem'[s := new]) l s cnt (\<lambda>k. slice ?R k ?F)"
    using kids blst_kids_update_root [OF blst_shape_tpat [OF m'(1) mem(1)]] by simp
  have "(mem'[s := new]) ! s = new" using s tpat_length [OF m'(1)] by simp
  with tp so ff(1) rd(2) kids' show ?thesis
    unfolding loop loop_post_def new_def by blast
qed

lemma alloc_loop_spec:
  assumes child: "\<And>mem s b cnt F. blst_shape mem l s cnt \<Longrightarrow> blst_vals mem l s cnt F \<Longrightarrow>
      F \<subseteq> {0..<cnt} \<Longrightarrow> (l = 0 \<longrightarrow> at < b + 32) \<Longrightarrow> 0 \<le> b \<Longrightarrow> 0 < cnt \<Longrightarrow> cnt \<le> radixL l \<Longrightarrow>
      alloc_post l mem s b cnt F at n (node_alloc l mem s at b n)"
    and n: "1 \<le> n" "n \<le> 32" and b: "0 \<le> b" and F: "F \<subseteq> {0..<cnt}" "cnt \<le> radixL (Suc l)"
    and mem: "blst_shape mem (Suc l) s cnt" "blst_kids mem l s cnt (\<lambda>k. slice (radixL l) k F)"
      "bmu_avail (mem ! s) = int (card F)"
    and k: "k \<le> 16" "(int k - 1) * radixL l < cnt"
    and low: "\<And>j. cand at b F n j \<Longrightarrow> int k * radixL l \<le> j"
  shows "loop_post l mem s b cnt F at n (alloc_loop l mem s k at (b + int k * radixL l) n)"
  using mem k low
proof (induction "16 - k" arbitrary: k mem)
  case 0
  then have "k = 16" by simp
  moreover have "cnt \<le> int k * radixL l" using \<open>k = 16\<close> F by simp
  ultimately show ?case
    using 0 no_cand_beyond [OF "0.prems"(6) F(1)] n
    by (auto simp: alloc_loop_end loop_post_def)
next
  case (Suc x)
  then have k: "k < 16" and x: "x = 16 - Suc k" "Suc k \<le> 16" by simp_all
  let ?R = "radixL l" and ?c = "child s l k" and ?b = "b + int k * radixL l"
  show ?case
  proof (cases "int k * ?R < cnt")
    case False
    then have c: "?c < length mem" "bm_bighint (mem ! ?c) = - 1"
      using Suc.prems(1,5) k by auto
    with no_cand_beyond [OF Suc.prems(6) F(1)] False n Suc.prems show ?thesis
      by (simp add: alloc_loop_step [OF k] loop_post_def)
  next
    case True
    have sh: "blst_shape mem l ?c (ccnt l cnt k)" using Suc.prems(1) k True by simp
    then have c: "?c < length mem" "bm_bighint (mem ! ?c) \<noteq> - 1" using blst_shape_root by auto
    have vals: "blst_vals mem l ?c (ccnt l cnt k) (slice ?R k F)"
      using Suc.prems(2) k True by (simp add: blst_kids_def)
    have s: "s < length mem" "bm_bighint (mem ! s) \<noteq> - 1" using Suc.prems(1) by auto
    have b': "?b + ?R = b + int (Suc k) * ?R" by (simp add: algebra_simps)
    have Suc_k: "(int (Suc k) - 1) * ?R < cnt" using True by simp
    have go_on: "loop_post l mem s b cnt F at n (alloc_loop l mem' s (Suc k) at (?b + ?R) n)"
      if m': "tpat mem' = tpat mem" "same_outside (region ?c l) mem mem'"
        "blst_vals mem' l ?c (ccnt l cnt k) (slice ?R k F)"
        and none: "\<And>j. \<not> cand at ?b (slice ?R k F) n j" for mem'
    proof -
      have root: "mem' ! s = mem ! s" using m'(2) s by (intro same_outside_nth) auto
      have kids: "blst_kids mem' l s cnt (\<lambda>k. slice ?R k F)"
        by (rule blst_kids_child [OF m'(2) Suc.prems(1) k Suc.prems(2)]) (auto simp: m'(3))
      have "loop_post l mem' s b cnt F at n (alloc_loop l mem' s (Suc k) at (b + int (Suc k) * ?R) n)"
      proof (rule Suc.hyps(1) [OF x(1) blst_shape_tpat [OF m'(1) Suc.prems(1)] kids _ x(2) Suc_k])
        show "bmu_avail (mem' ! s) = int (card F)" using root Suc.prems(3) by simp
        show "int (Suc k) * ?R \<le> j" if "cand at b F n j" for j
          using no_cand_step [OF Suc.prems(6) _ _ n(1) none that] by simp
      qed
      moreover have "region ?c l \<subseteq> region s (Suc l)" using child_region [OF k, of s l] by blast
      ultimately show ?thesis
        unfolding b' loop_post_def using root m'
        by (auto intro!: same_outside_trans [OF m'(2)])
    qed
    show ?thesis
    proof (cases "n \<le> bm_bighint (mem ! ?c) \<and> at < ?b + ?R")
      case False
      have none: "\<not> cand at ?b (slice ?R k F) n j" for j
        using child_no_cand [OF vals n(1)] False by blast
      have "alloc_loop l mem s k at ?b n = alloc_loop l mem s (Suc k) at (?b + ?R) n"
        using False c n radixL_ge_32 [of l] by (auto simp: alloc_loop_step [OF k] simp del: radixL_ge_32)
      with go_on [OF refl same_outside_refl vals none] show ?thesis by simp
    next
      case hint: True
      have cc: "0 < ccnt l cnt k" "ccnt l cnt k \<le> ?R" using True by (auto simp: ccnt_def)
      have "alloc_post l mem ?c ?b (ccnt l cnt k) (slice ?R k F) at n (node_alloc l mem ?c at ?b n)"
        using hint b cc by (intro child [OF sh vals slice_subset [OF F(1)]]) auto
      then obtain mem' r where res: "node_alloc l mem ?c at ?b n = Inr (mem', r)"
        and m': "tpat mem' = tpat mem" "same_outside (region ?c l) mem mem'"
        and alt: "r = SWAPBLK_NONE \<and> (\<forall>j. \<not> cand at ?b (slice ?R k F) n j) \<and>
            blst_vals mem' l ?c (ccnt l cnt k) (slice ?R k F) \<or>
          (\<exists>j. r = ?b + j \<and> first_fit at ?b (slice ?R k F) n j \<and>
            blst_vals mem' l ?c (ccnt l cnt k) (slice ?R k F - {j..<j + n}))"
        by (auto simp: alloc_post_def)
      from alt show ?thesis
      proof (elim disjE exE conjE)
        assume none: "r = SWAPBLK_NONE" "\<forall>j. \<not> cand at ?b (slice ?R k F) n j"
          "blst_vals mem' l ?c (ccnt l cnt k) (slice ?R k F)"
        have "alloc_loop l mem s k at ?b n = alloc_loop l mem' s (Suc k) at (?b + ?R) n"
          using hint c res none(1) by (simp add: alloc_loop_step [OF k])
        with go_on [OF m' none(3)] none(2) show ?thesis by simp
      next
        fix j assume j: "r = ?b + j" "first_fit at ?b (slice ?R k F) n j"
          "blst_vals mem' l ?c (ccnt l cnt k) (slice ?R k F - {j..<j + n})"
        show ?thesis
          using alloc_loop_hit [OF Suc.prems(1-3) F(1) n(1) k hint res m' j _ _ b] c(1) Suc.prems(6) by blast
      qed
    qed
  qed
qed

section \<open>The node operation\<close>

text \<open>Opening a node: its children are written when the node is all free.\<close>

definition open_free :: "blmeta list \<Rightarrow> nat \<Rightarrow> nat \<Rightarrow> blmeta list kres" where
  "open_free mem l s =
     (if bmu_avail (mem ! s) = radixL (Suc l)
      then blst_init_free (mem[s := (mem ! s)\<lparr>bm_bighint := radixL (Suc l)\<rparr>]) s (skipL (Suc l))
             (Suc (skipL l)) (radixL l)
      else Inr mem)"

lemma card_full:
  assumes "F \<subseteq> {0..<cnt}" "cnt \<le> R" "int (card F) = R" "0 < R"
  shows "F = {0..<R}" "cnt = R"
proof -
  have F: "F \<subseteq> {0..<R}" "card F = card {0..<R}" using assms by auto
  then show "F = {0..<R}" by (intro card_subset_eq) auto
  then have "R - 1 \<in> {0..<cnt}" using assms by auto
  with assms(2) show "cnt = R" by simp
qed

lemma open_free_spec:
  assumes sh: "blst_shape mem (Suc l) s cnt" and v: "blst_vals mem (Suc l) s cnt F"
    and F: "F \<subseteq> {0..<cnt}" "0 < cnt" "cnt \<le> radixL (Suc l)" "F \<noteq> {}"
  obtains mem' where "open_free mem l s = Inr mem'" "tpat mem' = tpat mem"
    "same_outside (region s (Suc l)) mem mem'" "bmu_avail (mem' ! s) = int (card F)"
    "hint_ok F (bm_bighint (mem' ! s))" "blst_kids mem' l s cnt (\<lambda>k. slice (radixL l) k F)"
proof (cases "bmu_avail (mem ! s) = radixL (Suc l)")
  case False
  then have "F \<noteq> {0..<radixL (Suc l)}" using v by auto
  then show thesis
    using False v F(4) by (intro that [of mem]) (auto simp: open_free_def blst_kids_def)
next
  case True
  have s: "s < length mem" "bm_bighint (mem ! s) \<noteq> - 1" using sh by auto
  from True v have card: "int (card F) = radixL (Suc l)" by simp
  note full = card_full [OF F(1,3) card radixL_pos(1)]
  let ?m = "mem[s := (mem ! s)\<lparr>bm_bighint := radixL (Suc l)\<rparr>]"
  have tp: "tpat ?m = tpat mem" using s radixL_pos(1) [of l] by (intro tpat_update) (auto simp del: radixL_pos)
  obtain mem' where m': "blst_init_free ?m s (skipL (Suc l)) (Suc (skipL l)) (radixL l) = Inr mem'"
    "tpat mem' = tpat ?m" "same_outside (region s (Suc l) - {s}) ?m mem'"
    "blst_kids mem' l s cnt (\<lambda>_. {0..<radixL l})"
    using blst_init_free_spec [OF blst_shape_tpat [OF tp sh] F(2)] by blast
  have root: "mem' ! s = ?m ! s" using m'(3) s by (intro same_outside_nth) auto
  have "blst_kids mem' l s cnt (\<lambda>k. slice (radixL l) k F)"
    using m'(4) full by (auto simp: blst_kids_def slice_full)
  moreover have "hint_ok F (radixL (Suc l))"
    by (rule hint_ok_32) (use radixL_ge_32 [of "Suc l"] in simp)
  moreover have "same_outside (region s (Suc l)) mem mem'"
    by (rule same_outside_trans [OF same_outside_update [of s "{s}"] m'(3)]) auto
  ultimately show thesis
    using True m' root s tp v by (intro that [of mem']) (auto simp: open_free_def)
qed

lemma blst_vals_kids:
  "bmu_avail (mem ! s) = int (card F) \<Longrightarrow> hint_ok F (bm_bighint (mem ! s)) \<Longrightarrow>
     blst_kids mem l s cnt (\<lambda>k. slice (radixL l) k F) \<Longrightarrow> blst_vals mem (Suc l) s cnt F"
  by (simp add: blst_kids_def)

lemma node_alloc_Suc:
  "s < length mem \<Longrightarrow> node_alloc (Suc l) mem s at b n =
     (if bmu_avail (mem ! s) = 0 then none_result (mem[s := (mem ! s)\<lparr>bm_bighint := 0\<rparr>])
      else rbind (open_free mem l s) (\<lambda>mem.
        rbind (alloc_loop l mem s 0 at b n) (\<lambda>(mem, r).
          if r \<noteq> SWAPBLK_NONE then Inr (mem, r)
          else rbind (rd mem s) (\<lambda>scan.
            if at \<le> b \<and> n \<le> bm_bighint scan
            then none_result (mem[s := scan\<lparr>bm_bighint := n - 1\<rparr>])
            else none_result mem))))"
  by (simp add: node_alloc_def blst_meta_alloc.simps open_free_def Let_def BLIST_META_RADIX_def
      skipL_div cong: if_cong)

lemma meta_alloc_post:
  assumes lp: "loop_post l mem s b cnt F at n (alloc_loop l mem s 0 at b n)"
    and sh: "blst_shape mem (Suc l) s cnt" and F: "F \<subseteq> {0..<cnt}" and b: "0 \<le> b" and n: "1 \<le> n"
    and root: "bmu_avail (mem ! s) = int (card F)" "hint_ok F (bm_bighint (mem ! s))"
  shows "alloc_post (Suc l) mem s b cnt F at n (rbind (alloc_loop l mem s 0 at b n) (\<lambda>(mem, r).
          if r \<noteq> SWAPBLK_NONE then Inr (mem, r)
          else rbind (rd mem s) (\<lambda>scan.
            if at \<le> b \<and> n \<le> bm_bighint scan
            then none_result (mem[s := scan\<lparr>bm_bighint := n - 1\<rparr>])
            else none_result mem)))"
proof -
  have s: "s < length mem" "bm_bighint (mem ! s) \<noteq> - 1" using sh by auto
  have fin: "finite F" using F by (rule finite_subset) simp
  have F0: "F \<subseteq> {0..}" using F by auto
  from lp obtain mem' r where res: "alloc_loop l mem s 0 at b n = Inr (mem', r)"
    and m': "tpat mem' = tpat mem" "same_outside (region s (Suc l)) mem mem'"
    and alt: "r = SWAPBLK_NONE \<and> (\<forall>j. \<not> cand at b F n j) \<and> mem' ! s = mem ! s \<and>
           blst_kids mem' l s cnt (\<lambda>k. slice (radixL l) k F) \<or>
         (\<exists>j avail. r = b + j \<and> first_fit at b F n j \<and> avail = bmu_avail (mem ! s) - n \<and>
           mem' ! s = (mem ! s)\<lparr>bmu_avail := avail,
             bm_bighint := (if avail < bm_bighint (mem ! s) then avail else bm_bighint (mem ! s))\<rparr> \<and>
           blst_kids mem' l s cnt (\<lambda>k. slice (radixL l) k (F - {j..<j + n})))"
    by (auto simp: loop_post_def)
  have s': "s < length mem'" using s tpat_length [OF m'(1)] by simp
  from alt show ?thesis
  proof (elim disjE exE conjE)
    assume none: "r = SWAPBLK_NONE" "\<forall>j. \<not> cand at b F n j" "mem' ! s = mem ! s"
      "blst_kids mem' l s cnt (\<lambda>k. slice (radixL l) k F)"
    have sh': "blst_shape mem' (Suc l) s cnt" by (rule blst_shape_tpat [OF m'(1) sh])
    let ?new = "(mem ! s)\<lparr>bm_bighint := n - 1\<rparr>"
    show ?thesis
    proof (cases "at \<le> b \<and> n \<le> bm_bighint (mem ! s)")
      case True
      have "hint_ok F (n - 1)"
        using True none(2) n fits_cand [of n F at b, OF _ _ F0] by (intro hint_ok_no_fit) auto
      then have "blst_vals (mem'[s := ?new]) (Suc l) s cnt F"
        using s' root none(4) blst_kids_update_root [OF sh'] by (intro blst_vals_kids) auto
      moreover have "tpat (mem'[s := ?new]) = tpat mem"
        using s s' n none(3) m'(1) by (subst tpat_update) auto
      moreover have "same_outside (region s (Suc l)) mem (mem'[s := ?new])"
        by (rule same_outside_trans [OF m'(2) same_outside_update [of s "{s}"]]) auto
      ultimately show ?thesis
        unfolding res using True none s' by (simp add: alloc_post_none del: blst_vals.simps)
    next
      case False
      have "blst_vals mem' (Suc l) s cnt F" using root none(3,4) by (intro blst_vals_kids) auto
      with False none s' m' show ?thesis
        unfolding res by (auto simp del: blst_vals.simps intro!: alloc_post_none)
    qed
  next
    fix j avail
    assume j: "r = b + j" "first_fit at b F n j" "avail = bmu_avail (mem ! s) - n"
      "mem' ! s = (mem ! s)\<lparr>bmu_avail := avail,
             bm_bighint := (if avail < bm_bighint (mem ! s) then avail else bm_bighint (mem ! s))\<rparr>"
      "blst_kids mem' l s cnt (\<lambda>k. slice (radixL l) k (F - {j..<j + n}))"
    have sub: "{j..<j + n} \<subseteq> F" using j(2) by (simp add: first_fit_def cand_def)
    have "0 \<le> j" using j(2) cand_nonneg [OF _ F n] by (auto simp: first_fit_def)
    then have r: "r \<noteq> SWAPBLK_NONE" using b j(1) SWAPBLK_NONE_neg by linarith
    have card: "int (card (F - {j..<j + n})) = avail"
      using sub fin n j(3) root(1) card_mono [OF fin sub] by (simp add: card_Diff_subset)
    have "hint_ok (F - {j..<j + n}) (bm_bighint (mem' ! s))"
      using j(4) card fin root(2) hint_ok_card [of "F - {j..<j + n}"] hint_ok_subset [OF root(2), of "F - {j..<j + n}"]
      by auto
    then have "blst_vals mem' (Suc l) s cnt (F - {j..<j + n})"
      using j(4,5) card by (intro blst_vals_kids) auto
    with r m' j(1,2) show ?thesis unfolding res by (simp add: alloc_post_some del: blst_vals.simps)
  qed
qed

theorem node_alloc_spec:
  assumes "blst_shape mem l s cnt" "blst_vals mem l s cnt F" "F \<subseteq> {0..<cnt}"
    and "l = 0 \<longrightarrow> at < b + 32" "0 \<le> b" "0 < cnt" "cnt \<le> radixL l" "1 \<le> n" "n \<le> 32"
  shows "alloc_post l mem s b cnt F at n (node_alloc l mem s at b n)"
  using assms
proof (induction l arbitrary: mem s b cnt F)
  case 0
  then show ?case by (simp add: node_alloc_def blst_leaf_alloc_spec)
next
  case (Suc l)
  have s: "s < length mem" "bm_bighint (mem ! s) \<noteq> - 1" using Suc.prems(1) by auto
  have fin: "finite F" using Suc.prems(3) by (rule finite_subset) simp
  show ?case
  proof (cases "F = {}")
    case True
    then show ?thesis
      using s Suc.prems by (auto simp: node_alloc_Suc cand_def intro!: alloc_post_none tpat_update
          same_outside_update hint_ok_no_fit)
  next
    case False
    then have ne: "bmu_avail (mem ! s) \<noteq> 0" using Suc.prems(2) fin by simp
    obtain mem' where m': "open_free mem l s = Inr mem'" "tpat mem' = tpat mem"
      "same_outside (region s (Suc l)) mem mem'" "bmu_avail (mem' ! s) = int (card F)"
      "hint_ok F (bm_bighint (mem' ! s))" "blst_kids mem' l s cnt (\<lambda>k. slice (radixL l) k F)"
      by (rule open_free_spec [OF Suc.prems(1-3,6,7) False])
    note sh' = blst_shape_tpat [OF m'(2) Suc.prems(1)]
    have "loop_post l mem' s b cnt F at n (alloc_loop l mem' s 0 at (b + int 0 * radixL l) n)"
    proof (rule alloc_loop_spec [OF Suc.IH Suc.prems(8,9,5,3,7) sh' m'(6,4)])
      show "0 \<le> (16::nat)" "(int 0 - 1) * radixL l < cnt"
        using Suc.prems(6) radixL_pos(1) [of l] by (simp_all del: radixL_pos)
      show "int 0 * radixL l \<le> j" if "cand at b F n j" for j
        using cand_nonneg [OF that Suc.prems(3,8)] by simp
    qed (use Suc.prems in simp_all)
    then have "loop_post l mem' s b cnt F at n (alloc_loop l mem' s 0 at b n)" by simp
    from meta_alloc_post [OF this sh' Suc.prems(3,5,8) m'(4,5)] show ?thesis
      unfolding node_alloc_Suc [OF s(1)] using ne m'(1-3)
      by (auto simp: alloc_post_def intro: same_outside_trans [OF m'(3)])
  qed
qed

end
