(* ===== verification/Blist_Free.thy ===== *)
theory Blist_Free
  imports Blist_Alloc
begin

text \<open>
  Freeing a range of allocated blocks adds exactly that range to the free set of a node and raises
  the hints on the way, so that no hint ever is too low.
\<close>

unbundle bit_operations_syntax

section \<open>Ranges cut at the border of a child\<close>

text \<open>
  A walk over the children reaches child \<open>k\<close> with the rest \<open>{p..<p + c}\<close> of its range: either the
  rest is empty, or it starts in child \<open>k\<close>.
\<close>

definition walk :: "int \<Rightarrow> nat \<Rightarrow> int \<Rightarrow> int \<Rightarrow> bool" where
  "walk R k p c \<longleftrightarrow> c = 0 \<and> p \<le> int k * R \<or> 0 < c \<and> int k * R \<le> p \<and> p < int k * R + R"

definition cut :: "int \<Rightarrow> nat \<Rightarrow> int \<Rightarrow> int \<Rightarrow> int" where
  "cut R k p c = min c (int k * R + R - p)"

lemma walk_start:
  assumes "0 \<le> p" "0 < c" "0 < R"
  shows "walk R (nat (p div R)) p c"
proof -
  have "p div R * R + p mod R = p" "0 \<le> p mod R" "p mod R < R" "0 \<le> p div R"
    using assms by (simp_all add: pos_imp_zdiv_nonneg_iff)
  then have "int (nat (p div R)) * R \<le> p" "p < int (nat (p div R)) * R + R"
    by (simp_all only: int_nat_eq if_True)
  with assms show ?thesis by (simp add: walk_def)
qed

lemma child_in_range:
  assumes "p < 16 * R" "0 < (R::int)"
  shows "p div R < 16"
proof (rule ccontr)
  assume "\<not> p div R < 16"
  then have "16 * R \<le> p div R * R" using assms(2) by (intro mult_right_mono) auto
  also have "\<dots> \<le> p" using div_mult_mod_eq [of p R] pos_mod_sign [OF assms(2), of p] by linarith
  finally show False using assms(1) by simp
qed

lemma walk_step:
  assumes "walk R k p c" "0 < c"
  shows "walk R (Suc k) (p + cut R k p c) (c - cut R k p c)" "0 < cut R k p c" "cut R k p c \<le> c"
    "p + cut R k p c \<le> int k * R + R" "int k * R \<le> p"
  using assms by (auto simp: walk_def cut_def algebra_simps)

lemma range_cut:
  "0 \<le> v \<Longrightarrow> v \<le> c \<Longrightarrow> {p..<p + v} \<union> {p + v..<p + v + (c - v)} = {p..<p + (c::int)}"
  by auto

lemma slice_cut:
  assumes "int k * R \<le> p" "p + v \<le> int k * R + R" "0 \<le> v"
  shows "slice R k {p..<p + v} = {p - int k * R..<p - int k * R + v}"
    and "k' \<noteq> k \<Longrightarrow> slice R k' {p..<p + v} = {}"
  using slice_run_same [of "p - int k * R" v R k] slice_run_other [of "p - int k * R" v R k' k] assms
  by simp_all

section \<open>A leaf\<close>

lemma blst_mask_bits:
  assumes "32 dvd b" "0 \<le> p" "1 \<le> c" "p + c \<le> 32"
  obtains w where "blst_mask (b + p) c = Inr w" "bits32 w = {p..<p + c}"
proof -
  obtain q where "b = 32 * q" using assms(1) by (rule dvdE)
  then have n: "(b + p) mod 32 = p" using assms by simp
  have "bits32 (push_bit (nat p) (- 1) AND drop_bit (nat (32 - c - p)) (- 1)) = {p..<p + c}"
    unfolding bits32_and using assms by (subst bits32_push_minus_1 bits32_drop_minus_1, simp)+ auto
  moreover have "blst_mask (b + p) c =
      Inr (push_bit (nat p) (- 1) AND drop_bit (nat (32 - c - p)) (- 1))"
    using n assms by (simp add: blst_mask_def BLIST_BMAP_RADIX_def Let_def del: push_bit_minus_one)
  ultimately show thesis using that by blast
qed

definition free_post :: "nat \<Rightarrow> blmeta list \<Rightarrow> nat \<Rightarrow> int \<Rightarrow> int set \<Rightarrow> blmeta list kres \<Rightarrow> bool" where
  "free_post l mem s cnt F res \<longleftrightarrow>
     (\<exists>mem'. res = Inr mem' \<and> tpat mem' = tpat mem \<and> same_outside (region s l) mem mem' \<and>
        blst_vals mem' l s cnt F)"

lemma blst_leaf_free_spec:
  assumes "blst_shape mem 0 s cnt" "blst_vals mem 0 s cnt F"
    and "32 dvd b" "0 \<le> p" "1 \<le> c" "p + c \<le> 32" "{p..<p + c} \<inter> F = {}"
  shows "free_post 0 mem s cnt (F \<union> {p..<p + c}) (blst_leaf_free mem s (b + p) c)"
proof -
  obtain w where w: "blst_mask (b + p) c = Inr w" "bits32 w = {p..<p + c}"
    by (rule blst_mask_bits [OF assms(3-6)])
  have s: "s < length mem" "bits32 (bmu_bitmap (mem ! s)) = F" using assms(1,2) by auto
  have "bmu_bitmap (mem ! s) AND w = 0"
    using assms(7) s(2) w(2) by (simp add: bits32_eq_empty_iff [symmetric] bits32_and Int_commute)
  with w s show ?thesis
    using assms(1) by (auto simp: free_post_def blst_leaf_free_def BLIST_BMAP_RADIX_def
        intro!: tpat_update same_outside_update hint_ok_32)
qed

section \<open>The loop over the children\<close>

definition node_free :: "nat \<Rightarrow> blmeta list \<Rightarrow> nat \<Rightarrow> int \<Rightarrow> int \<Rightarrow> int \<Rightarrow> blmeta list kres" where
  "node_free l mem s fb c b =
     (if l = 0 then blst_leaf_free mem s fb c else blst_meta_free mem s fb c (radixL l) (skipL l) b)"

abbreviation free_loop ::
  "nat \<Rightarrow> blmeta list \<Rightarrow> nat \<Rightarrow> nat \<Rightarrow> int \<Rightarrow> int \<Rightarrow> int \<Rightarrow> blmeta list kres" where
  "free_loop l mem s k fb c blk \<equiv>
     blst_meta_free_loop mem s (cidx l k) fb c (radixL l) (skipL (Suc l)) (Suc (skipL l)) blk"

lemma free_loop_end:
  "16 \<le> k \<or> fb + c \<le> blk \<Longrightarrow> free_loop l mem s k fb c blk = Inr mem"
  by (subst blst_meta_free_loop.simps) auto

definition raise_hint :: "blmeta list \<Rightarrow> nat \<Rightarrow> nat \<Rightarrow> blmeta list" where
  "raise_hint mem s c =
     (if bm_bighint (mem ! s) < bm_bighint (mem ! c)
      then mem[s := (mem ! s)\<lparr>bm_bighint := bm_bighint (mem ! c)\<rparr>] else mem)"

lemma raise_hint_props:
  assumes "s < length mem" "bm_bighint (mem ! s) \<noteq> - 1" "bm_bighint (mem ! c) \<noteq> - 1"
  shows "tpat (raise_hint mem s c) = tpat mem" "same_outside {s} mem (raise_hint mem s c)"
    "bmu_avail (raise_hint mem s c ! s) = bmu_avail (mem ! s)"
    "bm_bighint (raise_hint mem s c ! s) = max (bm_bighint (mem ! s)) (bm_bighint (mem ! c))"
  using assms by (auto simp: raise_hint_def intro!: tpat_update same_outside_update)

lemma free_loop_unfold:
  "k < 16 \<Longrightarrow> blk < fb + c \<Longrightarrow> free_loop l mem s k fb c blk =
     (let v = (if c < blk + radixL l - fb then c else blk + radixL l - fb) in
      rbind (rd mem s) (\<lambda>scan.
        if bm_bighint scan = - 1 then Inl (Panic ''blst_meta_free: freeing unexpected range'')
        else rbind (node_free l mem (child s l k) fb v blk) (\<lambda>mem.
          rbind (rd mem s) (\<lambda>scan.
          rbind (rd mem (child s l k)) (\<lambda>c'.
            free_loop l (if bm_bighint scan < bm_bighint c'
                         then mem[s := scan\<lparr>bm_bighint := bm_bighint c'\<rparr>] else mem)
              s (Suc k) (fb + v) (c - v) (blk + radixL l))))))"
  by (subst blst_meta_free_loop.simps) (simp add: node_free_def Let_def cong: if_cong)

lemma free_loop_step:
  assumes "k < 16" "s < length mem" "bm_bighint (mem ! s) \<noteq> - 1" "int k * radixL l < p + c"
    and "node_free l mem (child s l k) (b + p) (cut (radixL l) k p c) (b + int k * radixL l) = Inr mem'"
    and "length mem' = length mem" "child s l k < length mem"
  shows "free_loop l mem s k (b + p) c (b + int k * radixL l) =
    free_loop l (raise_hint mem' s (child s l k)) s (Suc k) (b + (p + cut (radixL l) k p c))
      (c - cut (radixL l) k p c) (b + int (Suc k) * radixL l)"
proof -
  have v: "(if c < b + int k * radixL l + radixL l - (b + p) then c
      else b + int k * radixL l + radixL l - (b + p)) = cut (radixL l) k p c"
    by (simp add: cut_def)
  have e: "b + p + cut (radixL l) k p c = b + (p + cut (radixL l) k p c)"
    "b + int k * radixL l + radixL l = b + int (Suc k) * radixL l" by (simp_all add: algebra_simps)
  have lt: "b + int k * radixL l < b + p + c" using assms(4) by simp
  show ?thesis
    unfolding free_loop_unfold [OF assms(1) lt] Let_def v
    using assms(2,3,5-7) unfolding e by (simp add: raise_hint_def)
qed

lemma slice_fits:
  assumes "32 dvd R" "fits n (slice R k F)"
  shows "fits n F"
proof -
  obtain j where j: "{j..<j + n} \<subseteq> slice R k F" "j mod 32 + n \<le> 32"
    using assms(2) by (auto simp: fits_def)
  have "x \<in> F" if "x \<in> {int k * R + j..<int k * R + j + n}" for x
    using j(1) that by (auto simp: in_slice subset_iff dest!: spec [of _ "x - int k * R"])
  moreover have "(int k * R + j) mod 32 = j mod 32"
  proof -
    obtain q where "R = 32 * q" using assms(1) by (rule dvdE)
    then have "int k * R + j = j + 32 * (int k * q)" by simp
    then show ?thesis by (simp only: mod_mult_self2)
  qed
  ultimately show ?thesis unfolding fits_def using j(2) by (intro exI [of _ "int k * R + j"]) auto
qed

lemma hint_ok_raise:
  assumes "hint_ok F h" "hint_ok (slice R k (F \<union> G)) hc" "F \<union> G \<subseteq> {0..<16 * R}"
    "32 dvd R" "0 < R" "\<And>k'. k' \<noteq> k \<Longrightarrow> slice R k' G = {}"
  shows "hint_ok (F \<union> G) (max h hc)"
  unfolding hint_ok_def
proof (intro allI impI)
  fix n :: int assume n: "1 \<le> n" "fits n (F \<union> G)"
  from fits_slice [OF assms(4,5) n(1) assms(3) n(2)]
  obtain k' where k': "fits n (slice R k' (F \<union> G))" by blast
  show "n \<le> max h hc"
  proof (cases "k' = k")
    case True
    with k' n(1) assms(2) show ?thesis by (auto simp: hint_ok_def)
  next
    case False
    then have "fits n (slice R k' F)" using k' assms(6) by (simp add: slice_Un)
    then have "fits n F" by (rule slice_fits [OF assms(4)])
    with n(1) assms(1) show ?thesis by (auto simp: hint_ok_def)
  qed
qed

definition free_loop_post ::
  "nat \<Rightarrow> blmeta list \<Rightarrow> nat \<Rightarrow> int \<Rightarrow> int set \<Rightarrow> blmeta list kres \<Rightarrow> bool" where
  "free_loop_post l mem s cnt F res \<longleftrightarrow>
     (\<exists>mem'. res = Inr mem' \<and> tpat mem' = tpat mem \<and> same_outside (region s (Suc l)) mem mem' \<and>
        bmu_avail (mem' ! s) = bmu_avail (mem ! s) \<and> hint_ok F (bm_bighint (mem' ! s)) \<and>
        blst_kids mem' l s cnt (\<lambda>k. slice (radixL l) k F))"

lemma free_loop_spec:
  assumes child: "\<And>mem s b cnt F p c. blst_shape mem l s cnt \<Longrightarrow> blst_vals mem l s cnt F \<Longrightarrow>
      F \<subseteq> {0..<cnt} \<Longrightarrow> 0 < cnt \<Longrightarrow> cnt \<le> radixL l \<Longrightarrow> 32 dvd b \<Longrightarrow> 0 \<le> p \<Longrightarrow> 1 \<le> c \<Longrightarrow>
      p + c \<le> cnt \<Longrightarrow> {p..<p + c} \<inter> F = {} \<Longrightarrow>
      free_post l mem s cnt (F \<union> {p..<p + c}) (node_free l mem s (b + p) c b)"
    and cnt: "cnt \<le> radixL (Suc l)" and b: "32 dvd b"
    and mem: "blst_shape mem (Suc l) s cnt" "blst_kids mem l s cnt (\<lambda>k. slice (radixL l) k F)"
      "hint_ok F (bm_bighint (mem ! s))"
    and F: "F \<subseteq> {0..<cnt}" "{p..<p + c} \<inter> F = {}" "p + c \<le> cnt" "0 \<le> p" "walk (radixL l) k p c"
    and k: "k \<le> 16"
  shows "free_loop_post l mem s cnt (F \<union> {p..<p + c})
           (free_loop l mem s k (b + p) c (b + int k * radixL l))"
  using mem F k
proof (induction "16 - k" arbitrary: k mem F p c)
  case 0
  then have "k = 16" by simp
  with "0.prems" cnt have "c = 0" by (auto simp: walk_def)
  with 0 \<open>k = 16\<close> show ?case by (simp add: free_loop_end free_loop_post_def)
next
  case (Suc x)
  then have k: "k < 16" and x: "x = 16 - Suc k" "Suc k \<le> 16" by simp_all
  let ?R = "radixL l" and ?c = "child s l k"
  show ?case
  proof (cases "c = 0")
    case True
    with Suc.prems show ?thesis
      by (subst free_loop_end) (auto simp: walk_def free_loop_post_def)
  next
    case False
    with Suc.prems(8) have c0: "0 < c" by (auto simp: walk_def)
    let ?v = "cut ?R k p c"
    note w = walk_step [OF Suc.prems(8) c0]
    have lt: "int k * ?R < cnt" "int k * ?R < p + c" using w Suc.prems(6) c0 by linarith+
    have sh: "blst_shape mem l ?c (ccnt l cnt k)" using Suc.prems(1) k lt(1) by simp
    have c: "?c < length mem" "bm_bighint (mem ! ?c) \<noteq> - 1" using blst_shape_root [OF sh] by auto
    have s: "s < length mem" "bm_bighint (mem ! s) \<noteq> - 1" using Suc.prems(1) by auto
    note sl = slice_cut [OF w(5,4) less_imp_le [OF w(2)]]
    have sub: "{p..<p + ?v} \<subseteq> {p..<p + c}" using w(3) by auto
    have dis: "{p - int k * ?R..<p - int k * ?R + ?v} \<inter> slice ?R k F = {}"
    proof -
      have "{p..<p + ?v} \<inter> F = {}" using Suc.prems(5) sub by blast
      then show ?thesis unfolding sl(1) [symmetric] slice_Int [symmetric] by simp
    qed
    have "free_post l mem ?c (ccnt l cnt k)
        (slice ?R k F \<union> {p - int k * ?R..<p - int k * ?R + ?v})
        (node_free l mem ?c ((b + int k * ?R) + (p - int k * ?R)) ?v (b + int k * ?R))"
      using Suc.prems(2,6) k lt w b
      by (intro child sh slice_subset Suc.prems(4) dis) (auto simp: blst_kids_def ccnt_def cut_def)
    then obtain m where m: "node_free l mem ?c (b + p) ?v (b + int k * ?R) = Inr m"
      "tpat m = tpat mem" "same_outside (region ?c l) mem m"
      "blst_vals m l ?c (ccnt l cnt k) (slice ?R k (F \<union> {p..<p + ?v}))"
      by (auto simp: free_post_def slice_Un sl(1))
    let ?m = "raise_hint m s ?c" and ?F = "F \<union> {p..<p + ?v}"
    have ms: "m ! s = mem ! s" using m(3) s by (intro same_outside_nth) auto
    have sm: "s < length m" "bm_bighint (m ! s) \<noteq> - 1" "bm_bighint (m ! ?c) \<noteq> - 1"
      using s ms tpat_length [OF m(2)] tpat_nth [OF m(2)] c by auto
    note rh = raise_hint_props [OF sm]
    have shm: "blst_shape ?m (Suc l) s cnt"
      by (rule blst_shape_tpat [OF _ Suc.prems(1)]) (simp add: rh m)
    have kids: "blst_kids m l s cnt (\<lambda>k. slice ?R k ?F)"
      by (rule blst_kids_child [OF m(3) Suc.prems(1) k Suc.prems(2)])
         (simp add: slice_Un sl(2), rule m(4))
    have kids': "blst_kids ?m l s cnt (\<lambda>k. slice ?R k ?F)"
      using kids blst_kids_frame [OF rh(2) _ blst_shape_tpat [OF m(2) Suc.prems(1)]] by auto
    have Fc: "?F \<subseteq> {0..<cnt}" using Suc.prems(4,6,7) sub by auto
    have F16: "?F \<subseteq> {0..<16 * ?R}" using Fc cnt by auto
    have hint: "hint_ok ?F (bm_bighint (?m ! s))"
      unfolding rh(4) ms
      by (rule hint_ok_raise [OF Suc.prems(3) blst_vals_hint [OF m(4)] F16 _ _ sl(2)]) auto
    have "{p + ?v..<p + ?v + (c - ?v)} \<subseteq> {p..<p + c}" using w(2,3) by auto
    then have dis': "{p + ?v..<p + ?v + (c - ?v)} \<inter> ?F = {}" using Suc.prems(5) by fastforce
    have "free_loop_post l ?m s cnt (?F \<union> {p + ?v..<p + ?v + (c - ?v)})
        (free_loop l ?m s (Suc k) (b + (p + ?v)) (c - ?v) (b + int (Suc k) * ?R))"
      using Suc.prems(6,7) w by (intro Suc.hyps(1) [OF x(1) shm kids' hint Fc dis' _ _ w(1) x(2)]) auto
    moreover have "?F \<union> {p + ?v..<p + ?v + (c - ?v)} = F \<union> {p..<p + c}"
      using range_cut [of ?v c p] w by (simp add: Un_assoc)
    moreover note free_loop_step [OF k s lt(2) m(1) tpat_length [OF m(2)] c(1)]
    moreover have "same_outside (region s (Suc l)) mem ?m"
      using child_region [OF k, of s l] by (intro same_outside_trans [OF m(3) rh(2)]) auto
    ultimately show ?thesis
      using rh(1,3) m(2) ms by (auto simp: free_loop_post_def intro: same_outside_trans)
  qed
qed

section \<open>The node operation\<close>

text \<open>The first half of \<open>blst_meta_free()\<close>: the counter of the node, and an all-allocated node opens.\<close>

definition open_alloced :: "blmeta list \<Rightarrow> nat \<Rightarrow> nat \<Rightarrow> int \<Rightarrow> blmeta list kres" where
  "open_alloced mem l s c =
     (if bmu_avail (mem ! s) = 0 then
        (let mem = mem[s := (mem ! s)\<lparr>bmu_avail := c, bm_bighint := c\<rparr>]
         in if c \<noteq> radixL (Suc l) then blst_init_alloced mem s (skipL (Suc l)) (Suc (skipL l)) else Inr mem)
      else Inr (mem[s := (mem ! s)\<lparr>bmu_avail := bmu_avail (mem ! s) + c\<rparr>]))"

lemma node_free_Suc:
  assumes "s < length mem" "0 \<le> p"
  shows "node_free (Suc l) mem s (b + p) c b =
     rbind (open_alloced mem l s c) (\<lambda>mem.
      rbind (rd mem s) (\<lambda>scan.
        if bmu_avail scan = radixL (Suc l) then Inr (mem[s := scan\<lparr>bm_bighint := radixL (Suc l)\<rparr>])
        else if radixL (Suc l) < bmu_avail scan then
          Inl (Panic ''blst_meta_free: freeing already free blocks'')
        else free_loop l mem s (nat (p div radixL l)) (b + p) c
               (b + int (nat (p div radixL l)) * radixL l)))"
proof -
  have q: "\<not> p div radixL l < 0" "int (nat (p div radixL l)) = p div radixL l"
    using assms(2) by (simp_all add: pos_imp_zdiv_nonneg_iff not_less)
  have i: "Suc (k + k * skipL l) = cidx l k" for k by (simp add: cidx_def)
  show ?thesis
    using assms
    by (simp add: node_free_def blst_meta_free.simps open_alloced_def Let_def BLIST_META_RADIX_def
        skipL_div q i pos_imp_zdiv_nonneg_iff not_less cong: if_cong)
qed

lemma open_alloced_spec:
  assumes sh: "blst_shape mem (Suc l) s cnt" and v: "blst_vals mem (Suc l) s cnt F"
    and F: "F \<subseteq> {0..<cnt}" "0 < cnt" "1 \<le> c" "F \<noteq> {0..<radixL (Suc l)}"
  obtains mem' where "open_alloced mem l s c = Inr mem'" "tpat mem' = tpat mem"
    "same_outside (region s (Suc l)) mem mem'" "bmu_avail (mem' ! s) = int (card F) + c"
    "hint_ok F (bm_bighint (mem' ! s))"
    "int (card F) + c \<noteq> radixL (Suc l) \<longrightarrow> blst_kids mem' l s cnt (\<lambda>k. slice (radixL l) k F)"
proof (cases "F = {}")
  case False
  have s: "s < length mem" "bm_bighint (mem ! s) \<noteq> - 1" using sh by auto
  let ?m = "mem[s := (mem ! s)\<lparr>bmu_avail := bmu_avail (mem ! s) + c\<rparr>]"
  have "finite F" using F(1) by (rule finite_subset) simp
  then have "open_alloced mem l s c = Inr ?m" using False v by (simp add: open_alloced_def)
  moreover have "blst_kids mem l s cnt (\<lambda>k. slice (radixL l) k F)"
    using False v F(4) by (auto simp: blst_kids_def)
  then have "blst_kids ?m l s cnt (\<lambda>k. slice (radixL l) k F)"
    using blst_kids_update_root [OF sh] by simp
  ultimately show thesis
    using s v by (intro that [of ?m]) (auto intro!: tpat_update same_outside_update)
next
  case True
  have s: "s < length mem" "bm_bighint (mem ! s) \<noteq> - 1" using sh by auto
  let ?m = "mem[s := (mem ! s)\<lparr>bmu_avail := c, bm_bighint := c\<rparr>]"
  have tp: "tpat ?m = tpat mem" using s F(3) by (intro tpat_update) auto
  have so: "same_outside (region s (Suc l)) mem ?m" by (intro same_outside_update) auto
  have av: "bmu_avail (mem ! s) = 0" using v True by simp
  show thesis
  proof (cases "c = radixL (Suc l)")
    case full: True
    then have "open_alloced mem l s c = Inr ?m" using av by (simp add: open_alloced_def)
    with tp so s full show thesis by (intro that [of ?m]) (auto simp: True)
  next
    case False
    obtain mem' where m': "blst_init_alloced ?m s (skipL (Suc l)) (Suc (skipL l)) = Inr mem'"
      "tpat mem' = tpat ?m" "same_outside (region s (Suc l) - {s}) ?m mem'"
      "blst_kids mem' l s cnt (\<lambda>_. {})"
      using blst_init_alloced_spec [OF blst_shape_tpat [OF tp sh] F(2)] by blast
    have root: "mem' ! s = ?m ! s" using m'(3) s by (intro same_outside_nth) auto
    have "same_outside (region s (Suc l)) mem mem'"
      by (rule same_outside_trans [OF so m'(3)]) auto
    with False m' tp av root s show thesis
      by (intro that [of mem']) (auto simp: open_alloced_def True)
  qed
qed

theorem node_free_spec:
  assumes "blst_shape mem l s cnt" "blst_vals mem l s cnt F" "F \<subseteq> {0..<cnt}" "0 < cnt"
    "cnt \<le> radixL l" "32 dvd b" "0 \<le> p" "1 \<le> c" "p + c \<le> cnt" "{p..<p + c} \<inter> F = {}"
  shows "free_post l mem s cnt (F \<union> {p..<p + c}) (node_free l mem s (b + p) c b)"
  using assms
proof (induction l arbitrary: mem s b cnt F p c)
  case 0
  then show ?case by (simp add: node_free_def blst_leaf_free_spec)
next
  case (Suc l)
  have s: "s < length mem" "bm_bighint (mem ! s) \<noteq> - 1" using Suc.prems(1) by auto
  have fin: "finite F" using Suc.prems(3) by (rule finite_subset) simp
  have "p \<in> {p..<p + c}" using Suc.prems(8) by simp
  then have pF: "p \<notin> F" using Suc.prems(10) by blast
  have nf: "F \<noteq> {0..<radixL (Suc l)}" using pF Suc.prems(5,7-9) by auto
  obtain m where m: "open_alloced mem l s c = Inr m" "tpat m = tpat mem"
    "same_outside (region s (Suc l)) mem m" "bmu_avail (m ! s) = int (card F) + c"
    "hint_ok F (bm_bighint (m ! s))"
    "int (card F) + c \<noteq> radixL (Suc l) \<longrightarrow> blst_kids m l s cnt (\<lambda>k. slice (radixL l) k F)"
    by (rule open_alloced_spec [OF Suc.prems(1-4,8) nf])
  let ?F = "F \<union> {p..<p + c}"
  have card: "int (card ?F) = int (card F) + c"
    using fin Suc.prems(8,10) by (subst card_Un_disjoint) (auto simp: Int_commute)
  have FR: "?F \<subseteq> {0..<cnt}" using Suc.prems(3,7,9) by auto
  have le: "int (card ?F) \<le> radixL (Suc l)"
    using card_mono [OF _ FR] Suc.prems(4,5) by simp
  have sm: "s < length m" "bm_bighint (m ! s) \<noteq> - 1"
    using s tpat_length [OF m(2)] tpat_nth [OF m(2)] by auto
  show ?case
  proof (cases "int (card F) + c = radixL (Suc l)")
    case True
    then have full: "?F = {0..<radixL (Suc l)}"
      using card_full [OF FR Suc.prems(5)] card by auto
    let ?m = "m[s := (m ! s)\<lparr>bm_bighint := radixL (Suc l)\<rparr>]"
    have "node_free (Suc l) mem s (b + p) c b = Inr ?m"
      using m(1,4) sm True by (simp add: node_free_Suc [OF s(1) Suc.prems(7)])
    moreover have "tpat ?m = tpat mem"
      using sm m(2) radixL_pos(1) [of l] by (subst tpat_update) (auto simp del: radixL_pos)
    moreover have "same_outside (region s (Suc l)) mem ?m"
      by (rule same_outside_trans [OF m(3) same_outside_update [of s "{s}"]]) auto
    moreover have "hint_ok ?F (radixL (Suc l))"
      by (rule hint_ok_32) (use radixL_ge_32 [of "Suc l"] in simp)
    ultimately show ?thesis
      using sm m(4) card full Suc.prems(8) by (auto simp: free_post_def simp del: radixL.simps)
  next
    case False
    have "free_loop_post l m s cnt ?F
        (free_loop l m s (nat (p div radixL l)) (b + p) c (b + int (nat (p div radixL l)) * radixL l))"
    proof (rule free_loop_spec [OF Suc.IH Suc.prems(5,6) blst_shape_tpat [OF m(2) Suc.prems(1)]
            m(6) [rule_format, OF False] m(5) Suc.prems(3,10,9,7) walk_start [OF Suc.prems(7)]])
      have "p div radixL l < 16" using Suc.prems(5,8,9) by (intro child_in_range) auto
      then show "nat (p div radixL l) \<le> 16" by simp
    qed (use Suc.prems(8) in auto)
    moreover have "node_free (Suc l) mem s (b + p) c b =
        free_loop l m s (nat (p div radixL l)) (b + p) c (b + int (nat (p div radixL l)) * radixL l)"
      using m(1,4) sm False le card by (simp add: node_free_Suc [OF s(1) Suc.prems(7)])
    ultimately show ?thesis
      using m(2-4) card by (auto simp: free_loop_post_def free_post_def blst_kids_def intro: same_outside_trans [OF m(3)])
  qed
qed

end
