(* ===== verification/Blist_Fill.thy ===== *)
theory Blist_Fill
  imports Blist_Free
begin

text \<open>
  Filling a range removes it from the free set of a node, whatever was allocated before, and returns
  how many of its blocks were free.  A range of more than 32 blocks can run into the panic
  \<open>allocation too large\<close>; a range of at most 32 blocks never does.
\<close>

unbundle bit_operations_syntax

section \<open>Counting bits\<close>

lemma clear_lowest_bit:
  fixes w :: u32
  assumes "bit w i" "\<And>j. j < i \<Longrightarrow> \<not> bit w j"
  shows "bits32 (w AND (w - 1)) = bits32 w - {int i}"
proof -
  define v where "v = w AND NOT (push_bit i 1)"
  have i: "i < 32" using assms(1) bit_imp_le_length [of w i] by simp
  have "w = v OR push_bit i 1"
    unfolding v_def using assms(1) by (intro bit_eqI) (auto simp: bit_simps)
  moreover have "v AND push_bit i 1 = 0" unfolding v_def by (rule bit_eqI) (auto simp: bit_simps)
  ultimately have w: "w = v + push_bit i 1" by (simp add: disjunctive_add_eq_or)
  have "v AND mask i = 0" unfolding v_def
    using assms(2) by (intro bit_eqI) (auto simp: bit_simps)
  then have m: "v OR mask i = v + mask i" by (simp add: disjunctive_add_eq_or)
  have "w - 1 = v OR mask i" unfolding m by (subst w) (simp add: mask_eq_exp_minus_1 push_bit_eq_mult)
  then have "w AND (w - 1) = w AND NOT (push_bit i 1)"
    using assms(2) unfolding v_def by (intro bit_eqI) (auto simp: bit_simps)
  then show ?thesis using bits32_push_1 [OF i] by (simp only: bits32_and_not)
qed

lemma blst_count_bits: "blst_count_bits w n = n + int (card (bits32 w))"
proof (induction w n rule: blst_count_bits.induct)
  case (1 w n)
  show ?case
  proof (cases "w = 0")
    case False
    then obtain j where "bit w j" using bit_eq_iff [of w 0] by auto
    define i where "i = (LEAST i. bit w i)"
    have i: "bit w i" unfolding i_def using \<open>bit w j\<close> by (rule LeastI)
    then have "i < 32" using bit_imp_le_length [of w i] by simp
    then have mem: "int i \<in> bits32 w" using i by (simp add: bits32_iff)
    have least: "\<not> bit w j" if "j < i" for j
      using not_less_Least [of j "bit w"] that unfolding i_def by blast
    have "bits32 (w AND (w - 1)) = bits32 w - {int i}" by (rule clear_lowest_bit [OF i least])
    then have "Suc (card (bits32 (w AND (w - 1)))) = card (bits32 w)"
      by (simp only: card_Suc_Diff1 [OF finite_bits32 mem])
    then have "int (card (bits32 (w AND (w - 1)))) + 1 = int (card (bits32 w))" by linarith
    with "1.IH" [OF False] False show ?thesis
      unfolding blst_count_bits.simps [of w n] by simp
  qed (simp add: blst_count_bits.simps [of 0 n])
qed

section \<open>A leaf\<close>

definition fill_post ::
  "nat \<Rightarrow> blmeta list \<Rightarrow> nat \<Rightarrow> int \<Rightarrow> int set \<Rightarrow> int set \<Rightarrow> (blmeta list \<times> int) kres \<Rightarrow> bool" where
  "fill_post l mem s cnt F G res \<longleftrightarrow>
     (\<exists>mem'. res = Inr (mem', int (card (F \<inter> G))) \<and> tpat mem' = tpat mem \<and>
        same_outside (region s l) mem mem' \<and> blst_vals mem' l s cnt (F - G))"

abbreviation fill_panic :: "('a) kres" where
  "fill_panic \<equiv> Inl (Panic ''blst_meta_fill: allocation too large'')"

lemma blst_leaf_fill_spec:
  assumes "blst_shape mem 0 s cnt" "blst_vals mem 0 s cnt F"
    and "32 dvd b" "0 \<le> p" "1 \<le> c" "p + c \<le> 32"
  shows "fill_post 0 mem s cnt F {p..<p + c} (blst_leaf_fill mem s (b + p) c)"
proof -
  obtain w where w: "blst_mask (b + p) c = Inr w" "bits32 w = {p..<p + c}"
    by (rule blst_mask_bits [OF assms(3-6)])
  have s: "s < length mem" "bits32 (bmu_bitmap (mem ! s)) = F" "bm_bighint (mem ! s) \<noteq> - 1"
    "hint_ok F (bm_bighint (mem ! s))" using assms(1,2) by auto
  then show ?thesis
    using w by (auto simp: fill_post_def blst_leaf_fill_def blst_count_bits bits32_and [of _ w]
        intro!: tpat_update same_outside_update intro: hint_ok_subset)
qed

section \<open>The loop over the children\<close>

definition node_fill :: "nat \<Rightarrow> blmeta list \<Rightarrow> nat \<Rightarrow> int \<Rightarrow> int \<Rightarrow> int \<Rightarrow> (blmeta list \<times> int) kres" where
  "node_fill l mem s fb c b =
     (if l = 0 then blst_leaf_fill mem s fb c else blst_meta_fill mem s fb c (radixL l) (skipL l) b)"

abbreviation fill_loop ::
  "nat \<Rightarrow> blmeta list \<Rightarrow> nat \<Rightarrow> nat \<Rightarrow> int \<Rightarrow> int \<Rightarrow> int \<Rightarrow> int \<Rightarrow> (blmeta list \<times> int) kres" where
  "fill_loop l mem s k fb c blk nb \<equiv>
     blst_meta_fill_loop mem s (cidx l k) fb c (radixL l) (skipL (Suc l)) (Suc (skipL l)) blk nb"

lemma fill_loop_end:
  "16 \<le> k \<or> fb + c \<le> blk \<Longrightarrow> fill_loop l mem s k fb c blk nb = Inr (mem, nb)"
  by (subst blst_meta_fill_loop.simps) auto

lemma fill_loop_unfold:
  "k < 16 \<Longrightarrow> blk < fb + c \<Longrightarrow> fill_loop l mem s k fb c blk nb =
     (let v = (if c < blk + radixL l - fb then c else blk + radixL l - fb) in
      rbind (rd mem s) (\<lambda>scan.
        if bm_bighint scan = - 1 then Inl (Panic ''blst_meta_fill: filling unexpected range'')
        else rbind (node_fill l mem (child s l k) fb v blk) (\<lambda>(mem, n).
          fill_loop l mem s (Suc k) (fb + v) (c - v) (blk + radixL l) (nb + n))))"
  by (subst blst_meta_fill_loop.simps) (simp add: node_fill_def Let_def cong: if_cong)

lemma fill_loop_step:
  assumes "k < 16" "s < length mem" "bm_bighint (mem ! s) \<noteq> - 1" "int k * radixL l < p + c"
  shows "fill_loop l mem s k (b + p) c (b + int k * radixL l) nb =
    rbind (node_fill l mem (child s l k) (b + p) (cut (radixL l) k p c) (b + int k * radixL l))
      (\<lambda>(mem, n). fill_loop l mem s (Suc k) (b + (p + cut (radixL l) k p c))
         (c - cut (radixL l) k p c) (b + int (Suc k) * radixL l) (nb + n))"
proof -
  have v: "(if c < b + int k * radixL l + radixL l - (b + p) then c
      else b + int k * radixL l + radixL l - (b + p)) = cut (radixL l) k p c"
    by (simp add: cut_def)
  have e: "b + p + cut (radixL l) k p c = b + (p + cut (radixL l) k p c)"
    "b + int k * radixL l + radixL l = b + int (Suc k) * radixL l" by (simp_all add: algebra_simps)
  have lt: "b + int k * radixL l < b + p + c" using assms(4) by simp
  show ?thesis
    unfolding fill_loop_unfold [OF assms(1) lt] Let_def v
    using assms(2,3) unfolding e by simp
qed

lemma card_slice_range:
  assumes "int k * R \<le> p" "p + v \<le> int k * R + R"
  shows "card (slice R k F \<inter> {p - int k * R..<p - int k * R + v}) = card (F \<inter> {p..<p + v})"
proof -
  have "(\<lambda>x. x + int k * R) ` (slice R k F \<inter> {p - int k * R..<p - int k * R + v}) = F \<inter> {p..<p + v}"
  proof (intro set_eqI iffI)
    fix x assume "x \<in> F \<inter> {p..<p + v}"
    then show "x \<in> (\<lambda>x. x + int k * R) ` (slice R k F \<inter> {p - int k * R..<p - int k * R + v})"
      using assms by (intro image_eqI [of _ _ "x - int k * R"]) (auto simp: in_slice)
  qed (auto simp: in_slice algebra_simps)
  then show ?thesis using card_image [of "\<lambda>x. x + int k * R"] by (metis inj_on_add')
qed

definition fill_loop_post ::
  "nat \<Rightarrow> blmeta list \<Rightarrow> nat \<Rightarrow> int \<Rightarrow> int set \<Rightarrow> int set \<Rightarrow> int \<Rightarrow> (blmeta list \<times> int) kres \<Rightarrow> bool" where
  "fill_loop_post l mem s cnt F G nb res \<longleftrightarrow>
     (\<exists>mem'. res = Inr (mem', nb + int (card (F \<inter> G))) \<and> tpat mem' = tpat mem \<and>
        same_outside (region s (Suc l) - {s}) mem mem' \<and>
        blst_kids mem' l s cnt (\<lambda>k. slice (radixL l) k (F - G)))"

lemma fill_loop_spec:
  assumes child: "\<And>mem s b cnt F p c. blst_shape mem l s cnt \<Longrightarrow> blst_vals mem l s cnt F \<Longrightarrow>
      F \<subseteq> {0..<cnt} \<Longrightarrow> 0 < cnt \<Longrightarrow> cnt \<le> radixL l \<Longrightarrow> 32 dvd b \<Longrightarrow> 0 \<le> p \<Longrightarrow> 1 \<le> c \<Longrightarrow>
      p + c \<le> cnt \<Longrightarrow> 32 < c \<and> node_fill l mem s (b + p) c b = fill_panic \<or>
      fill_post l mem s cnt F {p..<p + c} (node_fill l mem s (b + p) c b)"
    and cnt: "cnt \<le> radixL (Suc l)" and b: "32 dvd b"
    and mem: "blst_shape mem (Suc l) s cnt" "blst_kids mem l s cnt (\<lambda>k. slice (radixL l) k F)"
    and F: "F \<subseteq> {0..<cnt}" "p + c \<le> cnt" "0 \<le> p" "walk (radixL l) k p c"
    and k: "k \<le> 16"
  shows "32 < c \<and> fill_loop l mem s k (b + p) c (b + int k * radixL l) nb = fill_panic \<or>
         fill_loop_post l mem s cnt F {p..<p + c} nb
           (fill_loop l mem s k (b + p) c (b + int k * radixL l) nb)"
  using mem F k
proof (induction "16 - k" arbitrary: k mem F p c nb)
  case 0
  then have "k = 16" by simp
  with "0.prems" cnt have "c = 0" by (auto simp: walk_def)
  with 0 \<open>k = 16\<close> show ?case by (simp add: fill_loop_end fill_loop_post_def)
next
  case (Suc x)
  then have k: "k < 16" and x: "x = 16 - Suc k" "Suc k \<le> 16" by simp_all
  let ?R = "radixL l" and ?c = "child s l k"
  show ?case
  proof (cases "c = 0")
    case True
    with Suc.prems have "fill_loop l mem s k (b + p) c (b + int k * ?R) nb = Inr (mem, nb)"
      by (intro fill_loop_end) (auto simp: walk_def)
    with True Suc.prems show ?thesis by (simp add: fill_loop_post_def)
  next
    case False
    with Suc.prems(6) have c0: "0 < c" by (auto simp: walk_def)
    let ?v = "cut ?R k p c"
    note w = walk_step [OF Suc.prems(6) c0]
    have lt: "int k * ?R < cnt" "int k * ?R < p + c" using w Suc.prems(4) c0 by linarith+
    have sh: "blst_shape mem l ?c (ccnt l cnt k)" using Suc.prems(1) k lt(1) by simp
    have s: "s < length mem" "bm_bighint (mem ! s) \<noteq> - 1" using Suc.prems(1) by auto
    note sl = slice_cut [OF w(5,4) less_imp_le [OF w(2)]]
    note step = fill_loop_step [OF k s lt(2), of b nb]
    have "32 < ?v \<and> node_fill l mem ?c ((b + int k * ?R) + (p - int k * ?R)) ?v (b + int k * ?R) = fill_panic \<or>
      fill_post l mem ?c (ccnt l cnt k) (slice ?R k F) {p - int k * ?R..<p - int k * ?R + ?v}
        (node_fill l mem ?c ((b + int k * ?R) + (p - int k * ?R)) ?v (b + int k * ?R))"
      using Suc.prems(2,4) k lt w b
      by (intro child sh slice_subset Suc.prems(3)) (auto simp: blst_kids_def ccnt_def cut_def)
    then consider (panic) "32 < ?v" "node_fill l mem ?c (b + p) ?v (b + int k * ?R) = fill_panic"
      | (ok) m where "node_fill l mem ?c (b + p) ?v (b + int k * ?R) = Inr (m, int (card (F \<inter> {p..<p + ?v})))"
        "tpat m = tpat mem" "same_outside (region ?c l) mem m"
        "blst_vals m l ?c (ccnt l cnt k) (slice ?R k (F - {p..<p + ?v}))"
      by (auto simp: fill_post_def slice_Diff sl(1) card_slice_range [OF w(5,4)])
    then show ?thesis
    proof cases
      case panic
      then show ?thesis using w(3) by (simp add: step)
    next
      case ok
      let ?F = "F - {p..<p + ?v}"
      have kids: "blst_kids m l s cnt (\<lambda>k. slice ?R k ?F)"
        by (rule blst_kids_child [OF ok(3) Suc.prems(1) k Suc.prems(2)])
           (simp add: slice_Diff sl(2), rule ok(4))
      have Fc: "?F \<subseteq> {0..<cnt}" using Suc.prems(3) by auto
      let ?nb = "nb + int (card (F \<inter> {p..<p + ?v}))"
      let ?res = "fill_loop l m s (Suc k) (b + (p + ?v)) (c - ?v) (b + int (Suc k) * ?R) ?nb"
      have "32 < c - ?v \<and> ?res = fill_panic \<or>
          fill_loop_post l m s cnt ?F {p + ?v..<p + ?v + (c - ?v)} ?nb ?res"
        using Suc.prems(4,5) w
        by (intro Suc.hyps(1) [OF x(1) blst_shape_tpat [OF ok(2) Suc.prems(1)] kids Fc _ _ w(1) x(2)]) auto
      moreover have "?F \<inter> {p + ?v..<p + ?v + (c - ?v)} = F \<inter> {p + ?v..<p + c}"
        "?F - {p + ?v..<p + ?v + (c - ?v)} = F - {p..<p + c}" using w by auto
      moreover have "card (F \<inter> {p..<p + ?v}) + card (F \<inter> {p + ?v..<p + c}) = card (F \<inter> {p..<p + c})"
        using w by (subst card_Un_disjoint [symmetric]) (auto intro!: arg_cong [of _ _ card])
      moreover have "same_outside (region s (Suc l) - {s}) mem m"
        using same_outside_mono [OF ok(3) child_region [OF k]] .
      ultimately show ?thesis
        unfolding step using ok(1,2) w(2)
        by (auto simp: fill_loop_post_def intro: same_outside_trans simp flip: of_nat_add)
    qed
  qed
qed

section \<open>The node operation\<close>

definition fill_open :: "blmeta list \<Rightarrow> nat \<Rightarrow> nat \<Rightarrow> blmeta list kres" where
  "fill_open mem l s =
     (if bmu_avail (mem ! s) = radixL (Suc l)
      then blst_init_free mem s (skipL (Suc l)) (Suc (skipL l)) (radixL l) else Inr mem)"

lemma node_fill_Suc:
  assumes "s < length mem" "0 \<le> p"
  shows "node_fill (Suc l) mem s (b + p) c b =
     (if c = radixL (Suc l) \<or> bmu_avail (mem ! s) = 0
      then Inr (mem[s := (mem ! s)\<lparr>bmu_avail := 0, bm_bighint := c\<rparr>], bmu_avail (mem ! s))
      else rbind (fill_open mem l s) (\<lambda>mem.
        if radixL l < c then fill_panic
        else rbind (fill_loop l mem s (nat (p div radixL l)) (b + p) c
               (b + int (nat (p div radixL l)) * radixL l) 0) (\<lambda>(mem, nblks).
          rbind (rd mem s) (\<lambda>scan.
            Inr (mem[s := scan\<lparr>bmu_avail := bmu_avail scan - nblks\<rparr>], nblks)))))"
proof -
  have q: "\<not> p div radixL l < 0" "int (nat (p div radixL l)) = p div radixL l"
    using assms(2) by (simp_all add: pos_imp_zdiv_nonneg_iff not_less)
  have i: "Suc (k + k * skipL l) = cidx l k" for k by (simp add: cidx_def)
  show ?thesis
    using assms
    by (simp add: node_fill_def blst_meta_fill.simps fill_open_def Let_def BLIST_META_RADIX_def
        skipL_div q i pos_imp_zdiv_nonneg_iff not_less cong: if_cong)
qed

lemma fill_open_spec:
  assumes sh: "blst_shape mem (Suc l) s cnt" and v: "blst_vals mem (Suc l) s cnt F"
    and F: "F \<subseteq> {0..<cnt}" "0 < cnt" "cnt \<le> radixL (Suc l)" "F \<noteq> {}"
  obtains mem' where "fill_open mem l s = Inr mem'" "tpat mem' = tpat mem"
    "same_outside (region s (Suc l) - {s}) mem mem'"
    "blst_kids mem' l s cnt (\<lambda>k. slice (radixL l) k F)"
proof (cases "bmu_avail (mem ! s) = radixL (Suc l)")
  case False
  then have "F \<noteq> {0..<radixL (Suc l)}" using v by auto
  then show thesis
    using False v F(4) by (intro that [of mem]) (auto simp: fill_open_def blst_kids_def)
next
  case True
  then have card: "int (card F) = radixL (Suc l)" using v by simp
  note full = card_full [OF F(1,3) card radixL_pos(1)]
  obtain mem' where m': "blst_init_free mem s (skipL (Suc l)) (Suc (skipL l)) (radixL l) = Inr mem'"
    "tpat mem' = tpat mem" "same_outside (region s (Suc l) - {s}) mem mem'"
    "blst_kids mem' l s cnt (\<lambda>_. {0..<radixL l})"
    using blst_init_free_spec [OF sh F(2)] by blast
  have "blst_kids mem' l s cnt (\<lambda>k. slice (radixL l) k F)"
    using m'(4) full by (auto simp: blst_kids_def slice_full)
  with True m' show thesis by (intro that [of mem']) (auto simp: fill_open_def)
qed

lemma fill_all:
  assumes sh: "blst_shape mem (Suc l) s cnt" and v: "blst_vals mem (Suc l) s cnt F"
    and "F \<subseteq> G" "1 \<le> c"
  shows "fill_post (Suc l) mem s cnt F G
    (Inr (mem[s := (mem ! s)\<lparr>bmu_avail := 0, bm_bighint := c\<rparr>], bmu_avail (mem ! s)))"
proof -
  have e: "F - G = {}" "F \<inter> G = F" using assms(3) by auto
  have "s < length mem" "bm_bighint (mem ! s) \<noteq> - 1" "bmu_avail (mem ! s) = int (card F)"
    using sh v by auto
  with assms(4) show ?thesis
    unfolding fill_post_def e by (auto intro!: tpat_update same_outside_update)
qed

lemma meta_fill_post:
  assumes lp: "fill_loop_post l mem s cnt F G 0 res" and sh: "blst_shape mem (Suc l) s cnt"
    and fin: "finite F" and root: "bmu_avail (mem ! s) = int (card F)" "hint_ok F (bm_bighint (mem ! s))"
  shows "fill_post (Suc l) mem s cnt F G (rbind res (\<lambda>(mem, nblks).
          rbind (rd mem s) (\<lambda>scan. Inr (mem[s := scan\<lparr>bmu_avail := bmu_avail scan - nblks\<rparr>], nblks))))"
proof -
  from lp obtain m where m: "res = Inr (m, int (card (F \<inter> G)))" "tpat m = tpat mem"
    "same_outside (region s (Suc l) - {s}) mem m" "blst_kids m l s cnt (\<lambda>k. slice (radixL l) k (F - G))"
    by (auto simp: fill_loop_post_def)
  have s: "s < length m" "bm_bighint (mem ! s) \<noteq> - 1" using sh tpat_length [OF m(2)] by auto
  have ms: "m ! s = mem ! s" using m(3) sh by (intro same_outside_nth) auto
  let ?m = "m[s := (m ! s)\<lparr>bmu_avail := bmu_avail (m ! s) - int (card (F \<inter> G))\<rparr>]"
  have "int (card (F - G)) = int (card F) - int (card (F \<inter> G))"
    using fin card_mono [OF fin, of "F \<inter> G"] by (simp add: card_Diff_subset_Int)
  then have "blst_vals ?m (Suc l) s cnt (F - G)"
    using s ms root m(4) blst_kids_update_root [OF blst_shape_tpat [OF m(2) sh]]
    by (intro blst_vals_kids) (auto intro: hint_ok_subset)
  moreover have "tpat ?m = tpat mem" using s ms m(2) by (subst tpat_update) auto
  moreover have "same_outside (region s (Suc l)) mem ?m"
    by (rule same_outside_trans [OF m(3) same_outside_update [of s "{s}"]]) auto
  ultimately show ?thesis using s by (simp add: m(1) fill_post_def del: blst_vals.simps)
qed

theorem node_fill_spec:
  assumes "blst_shape mem l s cnt" "blst_vals mem l s cnt F" "F \<subseteq> {0..<cnt}" "0 < cnt"
    "cnt \<le> radixL l" "32 dvd b" "0 \<le> p" "1 \<le> c" "p + c \<le> cnt"
  shows "32 < c \<and> c \<noteq> radixL l \<and> F \<noteq> {} \<and> node_fill l mem s (b + p) c b = fill_panic \<or>
    fill_post l mem s cnt F {p..<p + c} (node_fill l mem s (b + p) c b)"
  using assms
proof (induction l arbitrary: mem s b cnt F p c)
  case 0
  then show ?case by (simp add: node_fill_def blst_leaf_fill_spec)
next
  case (Suc l)
  have s: "s < length mem" using Suc.prems(1) by auto
  have fin: "finite F" using Suc.prems(3) by (rule finite_subset) simp
  note unfold = node_fill_Suc [OF s Suc.prems(7)]
  have av: "bmu_avail (mem ! s) = int (card F)" "hint_ok F (bm_bighint (mem ! s))"
    using Suc.prems(2) by auto
  show ?case
  proof (cases "c = radixL (Suc l) \<or> F = {}")
    case True
    then have "F \<subseteq> {p..<p + c}" using Suc.prems(3,5,7,9) by fastforce
    from fill_all [OF Suc.prems(1,2) this Suc.prems(8)] True av fin show ?thesis
      by (simp add: unfold del: radixL.simps)
  next
    case False
    then have ne: "c \<noteq> radixL (Suc l)" "F \<noteq> {}" "bmu_avail (mem ! s) \<noteq> 0" using av fin by auto
    obtain m where m: "fill_open mem l s = Inr m" "tpat m = tpat mem"
      "same_outside (region s (Suc l) - {s}) mem m" "blst_kids m l s cnt (\<lambda>k. slice (radixL l) k F)"
      by (rule fill_open_spec [OF Suc.prems(1-5) ne(2)])
    have ms: "m ! s = mem ! s" using m(3) s by (intro same_outside_nth) auto
    note sh = blst_shape_tpat [OF m(2) Suc.prems(1)]
    let ?loop = "fill_loop l m s (nat (p div radixL l)) (b + p) c
               (b + int (nat (p div radixL l)) * radixL l) 0"
    show ?thesis
    proof (cases "radixL l < c")
      case True
      then have "32 < c" using radixL_ge_32 [of l] by linarith
      then show ?thesis using ne m(1) True by (simp add: unfold del: radixL.simps)
    next
      case small: False
      have "32 < c \<and> ?loop = fill_panic \<or> fill_loop_post l m s cnt F {p..<p + c} 0 ?loop"
      proof (rule fill_loop_spec [OF _ Suc.prems(5,6) sh m(4) Suc.prems(3,9,7) walk_start [OF Suc.prems(7)]])
        have "p div radixL l < 16" using Suc.prems(5,8,9) by (intro child_in_range) auto
        then show "nat (p div radixL l) \<le> 16" by simp
        show "0 < c" using Suc.prems(8) by simp
      qed (use Suc.IH in \<open>blast | simp\<close>)+
      then show ?thesis
      proof (elim disjE conjE)
        assume "32 < c" "?loop = fill_panic"
        then show ?thesis using ne m(1) small by (simp add: unfold del: radixL.simps)
      next
        assume "fill_loop_post l m s cnt F {p..<p + c} 0 ?loop"
        from meta_fill_post [OF this sh fin] have
          "fill_post (Suc l) m s cnt F {p..<p + c} (node_fill (Suc l) mem s (b + p) c b)"
          using ne m(1) small av ms by (simp add: unfold del: radixL.simps)
        then show ?thesis
          using m(2) by (auto simp: fill_post_def intro: same_outside_trans [OF m(3)])
      qed
    qed
  qed
qed

end
