(* ===== verification/Blist_Init.thy ===== *)
theory Blist_Init
  imports Blist_Fill
begin

text \<open>
  \<open>blst_radix_init()\<close> computes the size of the node array in its first run, and in its second run
  writes a well-formed tree without a free block into any array of that size.
\<close>

section \<open>The size of the array\<close>

lemma radixL_not_small [simp]: "\<not> radixL l \<le> 0" "radixL l \<noteq> 2"
  using radixL_ge_32 [of l] by linarith+

text \<open>\<open>nkids l cnt\<close> children of level \<open>l\<close> exist; the loop leaves with the index behind the last one.\<close>

definition nkids :: "nat \<Rightarrow> int \<Rightarrow> nat" where
  "nkids l cnt = nat ((cnt + radixL l - 1) div radixL l)"

fun initL :: "nat \<Rightarrow> int \<Rightarrow> nat" where
  "initL 0 cnt = 0"
| "initL (Suc l) cnt = cidx l (nkids l cnt)"

lemma nkids_le_iff: "0 < cnt \<Longrightarrow> nkids l cnt \<le> k \<longleftrightarrow> cnt \<le> int k * radixL l"
proof -
  assume cnt: "0 < cnt"
  let ?R = "radixL l" and ?q = "(cnt + radixL l - 1) div radixL l"
  have m: "?q * ?R + (cnt + ?R - 1) mod ?R = cnt + ?R - 1" "0 \<le> (cnt + ?R - 1) mod ?R"
    "(cnt + ?R - 1) mod ?R < ?R" "0 \<le> ?q"
    using cnt radixL_pos(1) [of l] by (simp_all add: pos_imp_zdiv_nonneg_iff del: radixL_pos)
  show ?thesis
  proof
    assume "nkids l cnt \<le> k"
    then have "?q \<le> int k" by (simp add: nkids_def)
    then have "?q * ?R \<le> int k * ?R" by (intro mult_right_mono) auto
    with m show "cnt \<le> int k * ?R" by linarith
  next
    assume "cnt \<le> int k * ?R"
    then have "?q * ?R < int k * ?R + ?R" using m by linarith
    then have "?q * ?R < (int k + 1) * ?R" by (simp add: algebra_simps)
    then have "?q < int k + 1" using radixL_pos(1) [of l] by (simp add: mult_less_cancel_right del: radixL_pos)
    then show "nkids l cnt \<le> k" by (simp add: nkids_def)
  qed
qed

lemma less_nkids_iff: "0 < cnt \<Longrightarrow> k < nkids l cnt \<longleftrightarrow> int k * radixL l < cnt"
  using nkids_le_iff [of cnt l k] by linarith

lemma nkids_le_16: "0 < cnt \<Longrightarrow> cnt \<le> radixL (Suc l) \<Longrightarrow> nkids l cnt \<le> 16"
  by (simp add: nkids_le_iff)

lemma cidx_mono: "k \<le> k' \<Longrightarrow> cidx l k \<le> cidx l k'"
  unfolding cidx_def by (intro add_left_mono mult_le_mono1)

lemma initL_le: "0 < cnt \<Longrightarrow> cnt \<le> radixL l \<Longrightarrow> initL l cnt \<le> Suc (skipL l)"
proof (cases l)
  case (Suc l')
  assume "0 < cnt" "cnt \<le> radixL l"
  then have "nkids l' cnt \<le> 16" using Suc nkids_le_16 by simp
  then have "initL l cnt \<le> cidx l' 16" using Suc cidx_mono by simp
  also have "\<dots> = Suc (skipL l)" using Suc by (simp add: cidx_def skipL.simps)
  finally show ?thesis .
qed simp

section \<open>The tree\<close>

lemma blst_shape_frame:
  "same_outside A mem mem' \<Longrightarrow> region s l \<inter> A = {} \<Longrightarrow> blst_shape mem l s cnt \<Longrightarrow>
     blst_shape mem' l s cnt"
proof (induction l arbitrary: s cnt)
  case 0
  then show ?case by (auto simp: region_def same_outside_nth)
next
  case (Suc l)
  have sub: "region (child s l k) l \<inter> A = {}" if "k < 16" for k
    using Suc.prems(2) child_region [OF that, of s l] by blast
  have nth: "i < length mem \<Longrightarrow> i \<in> region s (Suc l) \<Longrightarrow> mem' ! i = mem ! i" for i
    using Suc.prems(1,2) by (intro same_outside_nth) auto
  have c: "child s l k \<in> region s (Suc l)" if "k < 16" for k
    using child_region [OF that, of s l] by auto
  show ?case
    using Suc.prems(3) sub c by (auto simp: nth same_outside_length [OF Suc.prems(1)] intro!: Suc.IH [OF Suc.prems(1)])
qed

definition init_post :: "nat \<Rightarrow> blmeta list \<Rightarrow> nat \<Rightarrow> int \<Rightarrow> blmeta list \<Rightarrow> bool" where
  "init_post l mem s cnt mem' \<longleftrightarrow>
     same_outside (region s l) mem mem' \<and> blst_shape mem' l s cnt \<and> blst_vals mem' l s cnt {}"

abbreviation node_init :: "nat \<Rightarrow> blmeta list option \<Rightarrow> nat \<Rightarrow> int \<Rightarrow> (blmeta list option \<times> nat) kres" where
  "node_init l scan s cnt \<equiv> blst_radix_init scan s (radixL l) (skipL l) cnt"

abbreviation init_loop ::
  "nat \<Rightarrow> blmeta list option \<Rightarrow> nat \<Rightarrow> nat \<Rightarrow> int \<Rightarrow> nat \<Rightarrow> (blmeta list option \<times> nat) kres" where
  "init_loop l scan s k count m \<equiv>
     blst_radix_init_loop scan s (cidx l k) (radixL l) (skipL (Suc l)) (Suc (skipL l)) count m"

lemma init_loop_unfold:
  "init_loop l scan s k count m =
     (if 16 \<le> k then Inr (scan, if m < cidx l k then cidx l k else m)
      else if radixL l \<le> count then
        rbind (node_init l scan (child s l k) (radixL l)) (\<lambda>(scan, m).
          init_loop l scan s (Suc k) (count - radixL l) (cidx l k + m))
      else if 0 < count then
        rbind (node_init l scan (child s l k) count) (\<lambda>(scan, m).
          init_loop l scan s (Suc k) 0 (cidx l k + m))
      else
        rbind (blst_set scan (child s l k) (\<lambda>n. n\<lparr>bm_bighint := - 1\<rparr>)) (\<lambda>scan.
          Inr (scan, if m < cidx l k then cidx l k else m)))"
  by (subst blst_radix_init_loop.simps) (simp cong: if_cong)

lemma init_loop_child:
  assumes "k < 16" "int k * radixL l < cnt"
  shows "init_loop l scan s k (max 0 (cnt - int k * radixL l)) m =
    rbind (node_init l scan (child s l k) (ccnt l cnt k)) (\<lambda>(scan, m).
      init_loop l scan s (Suc k) (max 0 (cnt - int (Suc k) * radixL l)) (cidx l k + m))"
  using assms by (subst init_loop_unfold) (auto simp: ccnt_def algebra_simps max_def min_def)

text \<open>The kids from \<open>k\<close> on are in place, the last one followed by a terminator.\<close>

definition kids_from :: "nat \<Rightarrow> blmeta list \<Rightarrow> nat \<Rightarrow> int \<Rightarrow> nat \<Rightarrow> bool" where
  "kids_from l mem s cnt k \<longleftrightarrow>
     (\<forall>j. k \<le> j \<and> j < 16 \<and> int j * radixL l < cnt \<longrightarrow>
        blst_shape mem l (child s l j) (ccnt l cnt j) \<and> blst_vals mem l (child s l j) (ccnt l cnt j) {}) \<and>
     (\<forall>j. k \<le> j \<and> j < 16 \<and> cnt \<le> int j * radixL l \<and> (int j - 1) * radixL l < cnt \<longrightarrow>
        child s l j < length mem \<and> bm_bighint (mem ! child s l j) = - 1)"

lemma init_loop_None:
  assumes child: "\<And>s cnt. 0 < cnt \<Longrightarrow> cnt \<le> radixL l \<Longrightarrow> node_init l None s cnt = Inr (None, initL l cnt)"
    and cnt: "0 < cnt" "cnt \<le> radixL (Suc l)" and k: "k \<le> nkids l cnt" "m \<le> cidx l k"
  shows "init_loop l None s k (max 0 (cnt - int k * radixL l)) m = Inr (None, cidx l (nkids l cnt))"
  using k
proof (induction "16 - k" arbitrary: k m)
  case 0
  then have "k = 16" "nkids l cnt = 16" using nkids_le_16 [OF cnt] by simp_all
  then show ?case using 0 by (subst init_loop_unfold) auto
next
  case (Suc x)
  then have k: "k < 16" and x: "x = 16 - Suc k" by simp_all
  show ?case
  proof (cases "k < nkids l cnt")
    case True
    then have lt: "int k * radixL l < cnt" using cnt by (simp add: less_nkids_iff)
    have cc: "0 < ccnt l cnt k" "ccnt l cnt k \<le> radixL l" using lt by (auto simp: ccnt_def)
    have "cidx l k + initL l (ccnt l cnt k) \<le> cidx l (Suc k)"
      using initL_le [OF cc] cidx_Suc(1) [of l k] by linarith
    with True Suc.hyps(1) [OF x] show ?thesis
      by (simp add: init_loop_child [OF k lt] child [OF cc])
  next
    case False
    then have "nkids l cnt = k" "cnt \<le> int k * radixL l" using Suc.prems cnt by (auto simp: nkids_le_iff [symmetric])
    with k Suc.prems show ?thesis by (subst init_loop_unfold) (auto simp: blst_set_def)
  qed
qed

lemma init_loop_Some:
  assumes child: "\<And>mem s cnt. 0 < cnt \<Longrightarrow> cnt \<le> radixL l \<Longrightarrow> s + initL l cnt < length mem \<Longrightarrow>
      \<exists>mem'. node_init l (Some mem) s cnt = Inr (Some mem', initL l cnt) \<and> init_post l mem s cnt mem'"
    and cnt: "0 < cnt" "cnt \<le> radixL (Suc l)"
    and k: "k \<le> nkids l cnt" "m \<le> cidx l k" "s + cidx l (nkids l cnt) < length mem"
  shows "\<exists>mem'. init_loop l (Some mem) s k (max 0 (cnt - int k * radixL l)) m =
      Inr (Some mem', cidx l (nkids l cnt)) \<and>
      same_outside (\<Union>j \<in> {k..<16}. region (child s l j) l) mem mem' \<and> kids_from l mem' s cnt k"
  using k
proof (induction "16 - k" arbitrary: k m mem)
  case 0
  then have "k = 16" "nkids l cnt = 16" using nkids_le_16 [OF cnt] by simp_all
  moreover have "kids_from l mem s cnt 16" unfolding kids_from_def by (meson not_less)
  ultimately show ?case using "0.prems" by (subst init_loop_unfold) auto
next
  case (Suc x)
  then have k: "k < 16" and x: "x = 16 - Suc k" by simp_all
  let ?c = "child s l k" and ?U = "\<lambda>k. \<Union>j \<in> {k..<16}. region (child s l j) l"
  show ?case
  proof (cases "k < nkids l cnt")
    case True
    then have lt: "int k * radixL l < cnt" using cnt by (simp add: less_nkids_iff)
    have cc: "0 < ccnt l cnt k" "ccnt l cnt k \<le> radixL l" using lt by (auto simp: ccnt_def)
    have step: "cidx l k + initL l (ccnt l cnt k) \<le> cidx l (Suc k)"
      using initL_le [OF cc] cidx_Suc(1) [of l k] by linarith
    have "cidx l (Suc k) \<le> cidx l (nkids l cnt)" using True by (intro cidx_mono) simp
    then have "?c + initL l (ccnt l cnt k) < length mem"
      using step Suc.prems(3) by (simp add: child_def del: cidx_child)
    from child [OF cc this] obtain m1 where m1:
      "node_init l (Some mem) ?c (ccnt l cnt k) = Inr (Some m1, initL l (ccnt l cnt k))"
      "init_post l mem ?c (ccnt l cnt k) m1" by blast
    then have so: "same_outside (region ?c l) mem m1" and sv: "blst_shape m1 l ?c (ccnt l cnt k)"
      "blst_vals m1 l ?c (ccnt l cnt k) {}" by (auto simp: init_post_def)
    have "s + cidx l (nkids l cnt) < length m1" using Suc.prems(3) so by simp
    from Suc.hyps(1) [OF x _ step this] True obtain m2 where m2:
      "init_loop l (Some m1) s (Suc k) (max 0 (cnt - int (Suc k) * radixL l))
         (cidx l k + initL l (ccnt l cnt k)) = Inr (Some m2, cidx l (nkids l cnt))"
      "same_outside (?U (Suc k)) m1 m2" "kids_from l m2 s cnt (Suc k)" by auto
    have dis: "region ?c l \<inter> ?U (Suc k) = {}" using child_region_disjoint [of k _ s l] by (auto simp: Int_UN_distrib)
    have "blst_shape m2 l ?c (ccnt l cnt k)" "blst_vals m2 l ?c (ccnt l cnt k) {}"
      using blst_shape_frame [OF m2(2) dis sv(1)] blst_vals_frame [OF m2(2) dis sv(1)] sv(2) by auto
    with m2(3) lt have "kids_from l m2 s cnt k"
      unfolding kids_from_def le_eq_less_or_eq [of k] Suc_le_eq by auto
    moreover have "same_outside (?U k) mem m2"
      using k by (intro same_outside_trans [OF so m2(2)] UN_mono) (force, auto)
    ultimately show ?thesis using m1(1) m2(1) by (simp add: init_loop_child [OF k lt])
  next
    case False
    then have K: "nkids l cnt = k" "cnt \<le> int k * radixL l"
      using Suc.prems cnt by (auto simp: nkids_le_iff [symmetric])
    then have c: "?c < length mem" using Suc.prems(3) by simp
    let ?m = "mem[?c := (mem ! ?c)\<lparr>bm_bighint := - 1\<rparr>]"
    have "kids_from l ?m s cnt k"
      unfolding kids_from_def
    proof (intro conjI allI impI)
      fix j assume j: "k \<le> j \<and> j < 16 \<and> int j * radixL l < cnt"
      then have "j < nkids l cnt" using cnt by (simp add: less_nkids_iff)
      then show "blst_shape ?m l (child s l j) (ccnt l cnt j)" "blst_vals ?m l (child s l j) (ccnt l cnt j) {}"
        using K(1) j by simp_all
    next
      fix j assume j: "k \<le> j \<and> j < 16 \<and> cnt \<le> int j * radixL l \<and> (int j - 1) * radixL l < cnt"
      have "j = k"
      proof (rule ccontr)
        assume "j \<noteq> k"
        then have "int k * radixL l \<le> (int j - 1) * radixL l" using j by (intro mult_right_mono) auto
        with j K(2) show False by simp
      qed
      with c show "child s l j < length ?m" "bm_bighint (?m ! child s l j) = - 1" by simp_all
    qed
    moreover have "same_outside (?U k) mem ?m" using k by (intro same_outside_update) force
    ultimately show ?thesis
      using k K c Suc.prems(2) by (subst init_loop_unfold) (auto simp: blst_set_def)
  qed
qed

theorem node_init_None:
  "0 < cnt \<Longrightarrow> cnt \<le> radixL l \<Longrightarrow> node_init l None s cnt = Inr (None, initL l cnt)"
proof (induction l arbitrary: s cnt)
  case 0
  then show ?case by (simp add: blst_radix_init.simps BLIST_BMAP_RADIX_def blst_set_def)
next
  case (Suc l)
  have "init_loop l None s 0 (max 0 (cnt - int 0 * radixL l)) 0 = Inr (None, cidx l (nkids l cnt))"
    by (rule init_loop_None [OF Suc.IH Suc.prems]) auto
  with Suc.prems show ?case
    by (subst blst_radix_init.simps)
       (simp add: BLIST_BMAP_RADIX_def BLIST_META_RADIX_def blst_set_def)
qed

theorem node_init_Some:
  "0 < cnt \<Longrightarrow> cnt \<le> radixL l \<Longrightarrow> s + initL l cnt < length mem \<Longrightarrow>
     \<exists>mem'. node_init l (Some mem) s cnt = Inr (Some mem', initL l cnt) \<and> init_post l mem s cnt mem'"
proof (induction l arbitrary: mem s cnt)
  case 0
  then show ?case
    by (auto simp: blst_radix_init.simps BLIST_BMAP_RADIX_def blst_set_def init_post_def
        intro!: same_outside_update)
next
  case (Suc l)
  let ?m = "mem[s := (mem ! s)\<lparr>bm_bighint := 0, bmu_avail := 0\<rparr>]"
  have s: "s < length mem" using Suc.prems(3) by linarith
  have len: "s + cidx l (nkids l cnt) < length ?m" using Suc.prems(3) by simp
  have "\<exists>mem'. init_loop l (Some ?m) s 0 (max 0 (cnt - int 0 * radixL l)) 0 =
      Inr (Some mem', cidx l (nkids l cnt)) \<and>
      same_outside (\<Union>j \<in> {0..<16}. region (child s l j) l) ?m mem' \<and> kids_from l mem' s cnt 0"
    by (rule init_loop_Some [OF Suc.IH Suc.prems(1,2) _ _ len]) auto
  then obtain m where m: "init_loop l (Some ?m) s 0 cnt 0 = Inr (Some m, cidx l (nkids l cnt))"
    "same_outside (\<Union>j \<in> {0..<16}. region (child s l j) l) ?m m" "kids_from l m s cnt 0"
    using Suc.prems(1) by auto
  have "s \<notin> (\<Union>j \<in> {0..<16}. region (child s l j) l)" by auto
  from same_outside_nth [OF m(2) this] s have ms: "m ! s = ?m ! s" by simp
  have "same_outside (region s (Suc l)) mem m"
    by (intro same_outside_trans [OF same_outside_update [of s "{s}"] m(2)])
       (auto dest: subsetD [OF child_region])
  moreover have "s < length m" using s same_outside_length [OF m(2)] by simp
  ultimately have "init_post (Suc l) mem s cnt m"
    using m(3) ms s by (simp add: init_post_def kids_from_def)
  moreover have "node_init (Suc l) (Some mem) s cnt = Inr (Some m, initL (Suc l) cnt)"
    using m(1) s by (subst blst_radix_init.simps)
      (simp add: BLIST_BMAP_RADIX_def BLIST_META_RADIX_def blst_set_def)
  ultimately show ?case by blast
qed

section \<open>The size of the tree\<close>

lemma skipL_mono: "l \<le> m \<Longrightarrow> skipL l \<le> skipL m"
  by (induction m) (auto simp: le_Suc_eq skipL.simps)

lemma radixL_pow: "radixL l = 32 * 16 ^ l"
  by (induction l) auto

lemma skipL_pow: "15 * int (skipL l) + 16 = 16 ^ Suc l"
  by (induction l) (auto simp: skipL.simps)

lemma radixL_7: "radixL 7 = 2 ^ 33" and skipL_7: "int (skipL 7) < 2 ^ 31"
  using skipL_pow [of 7] by (simp_all add: radixL_pow)

lemma create_scan_level:
  assumes "blocks < 2 ^ 31" "l \<le> 7"
  shows "\<exists>L \<le> 7. blist_create_scan (radixL l) (skipL l) blocks = Inr (radixL L, skipL L) \<and> blocks \<le> radixL L"
  using assms(2)
proof (induction "7 - l" arbitrary: l)
  case 0
  then have "l = 7" by simp
  with assms(1) radixL_7 show ?case by (subst blist_create_scan.simps) auto
next
  case (Suc x)
  then have l: "Suc l \<le> 7" "x = 7 - Suc l" by simp_all
  have "int (skipL (Suc l)) \<le> int (skipL 7)" using skipL_mono [OF l(1)] by simp
  then have "\<not> 2 ^ 31 \<le> int (skipL (Suc l))" using skipL_7 by linarith
  then have step: "blist_create_scan (radixL l) (skipL l) blocks =
      (if radixL l < blocks then blist_create_scan (radixL (Suc l)) (skipL (Suc l)) blocks
       else Inr (radixL l, skipL l))"
    by (subst blist_create_scan.simps)
       (simp add: BLIST_META_RADIX_def Let_def skipL.simps mult.commute)
  show ?case
    using Suc.hyps(1) [OF l(2,1)] Suc.prems unfolding step by (cases "radixL l < blocks") auto
qed

end
