(* ===== verification/Blist_Ops.thy ===== *)
theory Blist_Ops
  imports Blist_Init
begin

text \<open>
  The interface of the block list: its invariant relates a \<open>struct blist\<close> to the set of its free
  blocks, and every interface routine is an operation on that set.
\<close>

unbundle bit_operations_syntax

section \<open>The invariant\<close>

definition blist_inv :: "blist \<Rightarrow> int set \<Rightarrow> bool" where
  "blist_inv bl F \<longleftrightarrow>
     0 < bl_blocks bl \<and> bl_blocks bl \<le> BLIST_MAXBLKS \<and> F \<subseteq> {0..<bl_blocks bl} \<and>
     bl_free bl = int (card F) \<and> length (bl_root bl) = bl_rootblks bl \<and>
     (\<exists>L. bl_radix bl = radixL L \<and> bl_skip bl = skipL L \<and> bl_blocks bl \<le> radixL L \<and>
        blst_shape (bl_root bl) L 0 (bl_blocks bl) \<and> blst_vals (bl_root bl) L 0 (bl_blocks bl) F)"

lemma blist_invE:
  assumes "blist_inv bl F"
  obtains L where "bl_radix bl = radixL L" "bl_skip bl = skipL L" "bl_blocks bl \<le> radixL L"
    "blst_shape (bl_root bl) L 0 (bl_blocks bl)" "blst_vals (bl_root bl) L 0 (bl_blocks bl) F"
    "F \<subseteq> {0..<bl_blocks bl}" "0 < bl_blocks bl"
  using assms by (auto simp: blist_inv_def)

lemma blist_inv_finite: "blist_inv bl F \<Longrightarrow> finite F"
  by (auto simp: blist_inv_def intro: finite_subset)

lemma blist_inv_free: "blist_inv bl F \<Longrightarrow> bl_free bl = int (card F)"
  by (simp add: blist_inv_def)

lemma blist_inv_update:
  assumes "blist_inv bl F" "bl_radix bl = radixL L" "tpat mem = tpat (bl_root bl)"
    and "\<And>L. bl_radix bl = radixL L \<Longrightarrow> blst_vals mem L 0 (bl_blocks bl) G"
    and "G \<subseteq> {0..<bl_blocks bl}" "fr = int (card G)"
  shows "blist_inv (bl\<lparr>bl_root := mem, bl_free := fr\<rparr>) G"
  using assms tpat_length [OF assms(3)] blst_shape_tpat [OF assms(3)]
  by (auto simp: blist_inv_def)

lemma radixL_inject: "radixL l = radixL m \<longleftrightarrow> l = m"
  by (simp add: radixL_pow)

lemma level0_iff: "radixL L = BLIST_BMAP_RADIX \<longleftrightarrow> L = 0"
  using radixL_inject [of L 0] by (simp add: BLIST_BMAP_RADIX_def)

section \<open>Creation\<close>

lemma BLIST_MAXBLKS_eq: "BLIST_MAXBLKS = 2 ^ 29"
  by (simp add: BLIST_MAXBLKS_def BLIST_BMAP_RADIX_def BLIST_META_RADIX_def)

lemma blist_create_spec:
  assumes "0 < blocks" "blocks \<le> BLIST_MAXBLKS"
  shows "\<exists>bl. blist_create junk blocks = Inr bl \<and> bl_blocks bl = blocks \<and> blist_inv bl {}"
proof -
  have "\<exists>L \<le> 7. blist_create_scan (radixL 0) (skipL 0) blocks = Inr (radixL L, skipL L) \<and> blocks \<le> radixL L"
    using assms(2) by (intro create_scan_level) (simp_all add: BLIST_MAXBLKS_eq)
  then obtain L where L: "blist_create_scan BLIST_BMAP_RADIX 0 blocks = Inr (radixL L, skipL L)"
    "blocks \<le> radixL L" by (auto simp: BLIST_BMAP_RADIX_def)
  let ?m = "map junk [0..<1 + initL L blocks]"
  have "0 + initL L blocks < length ?m" by simp
  from node_init_Some [OF assms(1) L(2) this] obtain mem where mem:
    "node_init L (Some ?m) 0 blocks = Inr (Some mem, initL L blocks)" "init_post L ?m 0 blocks mem"
    by blast
  have "length mem = 1 + initL L blocks" using mem(2) by (auto simp: init_post_def)
  with mem L assms show ?thesis
    unfolding blist_create_def by (simp add: node_init_None blist_inv_def init_post_def) blast
qed

section \<open>Allocation\<close>

lemma blist_allocat_node:
  assumes "bl_radix bl = radixL L" "bl_skip bl = skipL L"
  shows "blist_allocat (Some bl) n at = rbind (node_alloc L (bl_root bl) 0 at 0 n) (\<lambda>(root, blk).
    Inr (Some (if blk \<noteq> SWAPBLK_NONE then bl\<lparr>bl_root := root, bl_free := bl_free bl - n\<rparr>
               else bl\<lparr>bl_root := root\<rparr>), blk))"
  using assms by (simp add: blist_allocat_def node_alloc_def level0_iff)

lemma blist_alloc_allocat: "blist_alloc b n = blist_allocat b n 0"
  by (cases b) (simp_all add: blist_alloc_def blist_allocat_def)

definition allocat_post :: "blist \<Rightarrow> int set \<Rightarrow> int \<Rightarrow> int \<Rightarrow> (blist option \<times> int) kres \<Rightarrow> bool" where
  "allocat_post bl F n at res \<longleftrightarrow>
     (\<exists>bl' r. res = Inr (Some bl', r) \<and> bl_blocks bl' = bl_blocks bl \<and>
        (r = SWAPBLK_NONE \<and> (\<forall>j. \<not> cand at 0 F n j) \<and> blist_inv bl' F \<or>
         first_fit at 0 F n r \<and> blist_inv bl' (F - {r..<r + n})))"

lemma blist_allocat_spec:
  assumes inv: "blist_inv bl F" and n: "1 \<le> n" "n \<le> 32" and at: "bl_radix bl = 32 \<longrightarrow> at < 32"
  shows "allocat_post bl F n at (blist_allocat (Some bl) n at)"
proof -
  from inv obtain L where L: "bl_radix bl = radixL L" "bl_skip bl = skipL L" "bl_blocks bl \<le> radixL L"
    "blst_shape (bl_root bl) L 0 (bl_blocks bl)" "blst_vals (bl_root bl) L 0 (bl_blocks bl) F"
    "F \<subseteq> {0..<bl_blocks bl}" "0 < bl_blocks bl" by (rule blist_invE)
  have "alloc_post L (bl_root bl) 0 0 (bl_blocks bl) F at n (node_alloc L (bl_root bl) 0 at 0 n)"
    using at L(1) by (intro node_alloc_spec [OF L(4,5,6) _ _ L(7,3) n]) auto
  then obtain mem r where mem: "node_alloc L (bl_root bl) 0 at 0 n = Inr (mem, r)"
    "tpat mem = tpat (bl_root bl)"
    and alt: "r = SWAPBLK_NONE \<and> (\<forall>j. \<not> cand at 0 F n j) \<and> blst_vals mem L 0 (bl_blocks bl) F \<or>
       first_fit at 0 F n r \<and> blst_vals mem L 0 (bl_blocks bl) (F - {r..<r + n})"
    by (auto simp: alloc_post_def)
  have lev: "L' = L" if "bl_radix bl = radixL L'" for L' using that L(1) by (simp add: radixL_inject)
  note unfold = blist_allocat_node [OF L(1,2), of n at]
  from alt show ?thesis
  proof (elim disjE conjE)
    assume a: "r = SWAPBLK_NONE" "\<forall>j. \<not> cand at 0 F n j" "blst_vals mem L 0 (bl_blocks bl) F"
    have "blist_inv (bl\<lparr>bl_root := mem, bl_free := bl_free bl\<rparr>) F"
      using a(3) lev blist_inv_free [OF inv] L(6) by (intro blist_inv_update [OF inv L(1) mem(2)]) auto
    moreover have "bl\<lparr>bl_root := mem, bl_free := bl_free bl\<rparr> = bl\<lparr>bl_root := mem\<rparr>" by simp
    ultimately show ?thesis using a by (simp add: unfold mem(1) allocat_post_def)
  next
    assume a: "first_fit at 0 F n r" "blst_vals mem L 0 (bl_blocks bl) (F - {r..<r + n})"
    have c: "cand at 0 F n r" and sub: "{r..<r + n} \<subseteq> F" using a(1) by (auto simp: first_fit_def cand_def)
    have r: "r \<noteq> SWAPBLK_NONE" using cand_nonneg(1) [OF c L(6) n(1)] SWAPBLK_NONE_neg by linarith
    have fin: "finite F" by (rule blist_inv_finite [OF inv])
    have "bl_free bl - n = int (card (F - {r..<r + n}))"
      using sub fin n blist_inv_free [OF inv] card_mono [OF fin sub] by (simp add: card_Diff_subset)
    then have "blist_inv (bl\<lparr>bl_root := mem, bl_free := bl_free bl - n\<rparr>) (F - {r..<r + n})"
      using a(2) lev L(6) by (intro blist_inv_update [OF inv L(1) mem(2)]) auto
    with a r show ?thesis by (simp add: unfold mem(1) allocat_post_def)
  qed
qed

section \<open>Freeing and filling\<close>

lemma blist_free_node:
  assumes "bl_radix bl = radixL L" "bl_skip bl = skipL L"
  shows "blist_free (Some bl) blkno c = rbind (node_free L (bl_root bl) 0 blkno c 0) (\<lambda>root.
    Inr (Some (bl\<lparr>bl_root := root, bl_free := bl_free bl + c\<rparr>)))"
  using assms by (simp add: blist_free_def node_free_def level0_iff)

lemma blist_free_spec:
  assumes inv: "blist_inv bl F" and r: "0 \<le> p" "1 \<le> c" "p + c \<le> bl_blocks bl" "{p..<p + c} \<inter> F = {}"
  shows "\<exists>bl'. blist_free (Some bl) p c = Inr (Some bl') \<and> bl_blocks bl' = bl_blocks bl \<and>
    blist_inv bl' (F \<union> {p..<p + c})"
proof -
  from inv obtain L where L: "bl_radix bl = radixL L" "bl_skip bl = skipL L" "bl_blocks bl \<le> radixL L"
    "blst_shape (bl_root bl) L 0 (bl_blocks bl)" "blst_vals (bl_root bl) L 0 (bl_blocks bl) F"
    "F \<subseteq> {0..<bl_blocks bl}" "0 < bl_blocks bl" by (rule blist_invE)
  have "free_post L (bl_root bl) 0 (bl_blocks bl) (F \<union> {p..<p + c}) (node_free L (bl_root bl) 0 (0 + p) c 0)"
    by (rule node_free_spec [OF L(4-7,3) _ r]) simp
  then obtain mem where mem: "node_free L (bl_root bl) 0 p c 0 = Inr mem" "tpat mem = tpat (bl_root bl)"
    "blst_vals mem L 0 (bl_blocks bl) (F \<union> {p..<p + c})"
    by (auto simp: free_post_def)
  have "bl_free bl + c = int (card (F \<union> {p..<p + c}))"
    using r(2,4) blist_inv_free [OF inv] blist_inv_finite [OF inv]
    by (subst card_Un_disjoint) (auto simp: Int_commute)
  then have "blist_inv (bl\<lparr>bl_root := mem, bl_free := bl_free bl + c\<rparr>) (F \<union> {p..<p + c})"
    using mem(3) L(6) L(1) r by (intro blist_inv_update [OF inv L(1) mem(2)]) (auto simp: radixL_inject)
  then show ?thesis by (simp add: blist_free_node [OF L(1,2)] mem(1))
qed

lemma blist_fill_node:
  assumes "bl_radix bl = radixL L" "bl_skip bl = skipL L"
  shows "blist_fill (Some bl) blkno c = rbind (node_fill L (bl_root bl) 0 blkno c 0) (\<lambda>(root, filled).
    Inr (Some (bl\<lparr>bl_root := root, bl_free := bl_free bl - filled\<rparr>), filled))"
  using assms by (simp add: blist_fill_def node_fill_def level0_iff)

lemma blist_fill_spec:
  assumes inv: "blist_inv bl F" and r: "0 \<le> p" "1 \<le> c" "p + c \<le> bl_blocks bl"
  shows "32 < c \<and> c \<noteq> bl_radix bl \<and> F \<noteq> {} \<and> blist_fill (Some bl) p c = fill_panic \<or>
    (\<exists>bl'. blist_fill (Some bl) p c = Inr (Some bl', int (card (F \<inter> {p..<p + c}))) \<and>
       bl_blocks bl' = bl_blocks bl \<and> blist_inv bl' (F - {p..<p + c}))"
proof -
  from inv obtain L where L: "bl_radix bl = radixL L" "bl_skip bl = skipL L" "bl_blocks bl \<le> radixL L"
    "blst_shape (bl_root bl) L 0 (bl_blocks bl)" "blst_vals (bl_root bl) L 0 (bl_blocks bl) F"
    "F \<subseteq> {0..<bl_blocks bl}" "0 < bl_blocks bl" by (rule blist_invE)
  note unfold = blist_fill_node [OF L(1,2)]
  let ?res = "node_fill L (bl_root bl) 0 p c 0"
  have "32 < c \<and> c \<noteq> radixL L \<and> F \<noteq> {} \<and> node_fill L (bl_root bl) 0 (0 + p) c 0 = fill_panic \<or>
      fill_post L (bl_root bl) 0 (bl_blocks bl) F {p..<p + c} (node_fill L (bl_root bl) 0 (0 + p) c 0)"
    by (rule node_fill_spec [OF L(4-7,3) _ r]) simp
  then consider "32 < c" "c \<noteq> radixL L" "F \<noteq> {}" "?res = fill_panic"
    | mem where "?res = Inr (mem, int (card (F \<inter> {p..<p + c})))" "tpat mem = tpat (bl_root bl)"
      "blst_vals mem L 0 (bl_blocks bl) (F - {p..<p + c})"
    by (auto simp: fill_post_def)
  then show ?thesis
  proof cases
    case 2
    have fin: "finite F" by (rule blist_inv_finite [OF inv])
    have "int (card (F - {p..<p + c})) = int (card F) - int (card (F \<inter> {p..<p + c}))"
      using fin card_mono [OF fin, of "F \<inter> {p..<p + c}"] by (simp add: card_Diff_subset_Int)
    then have "blist_inv (bl\<lparr>bl_root := mem, bl_free := bl_free bl - int (card (F \<inter> {p..<p + c}))\<rparr>) (F - {p..<p + c})"
      using 2(3) L(1,6) blist_inv_free [OF inv]
      by (intro blist_inv_update [OF inv L(1) 2(2)]) (auto simp: radixL_inject)
    then show ?thesis by (simp add: unfold 2(1))
  qed (simp add: unfold L(1))
qed

end
