(* ===== verification/Blist_Resize.thy ===== *)
theory Blist_Resize
  imports Blist_Ops
begin

text \<open>
  \<open>blst_copy()\<close> frees in the destination what is free in the source, so that \<open>blist_resize()\<close> keeps the
  free set of the blocks both lists have.
\<close>

unbundle bit_operations_syntax

section \<open>Copying\<close>

definition shift :: "int \<Rightarrow> int set \<Rightarrow> int set" where
  "shift b F = {x. x - b \<in> F}"

lemma shift_interval [simp]: "shift b {p..<q} = {b + p..<b + q}"
  by (auto simp: shift_def)

lemma shift_empty [simp]: "shift b {} = {}"
  by (simp add: shift_def)

definition copy_post :: "blist \<Rightarrow> int set \<Rightarrow> blist option kres \<Rightarrow> bool" where
  "copy_post d G res \<longleftrightarrow> (\<exists>d'. res = Inr (Some d') \<and> bl_blocks d' = bl_blocks d \<and> blist_inv d' G)"

lemma copy_post_self: "blist_inv d G \<Longrightarrow> copy_post d G (Inr (Some d))"
  by (simp add: copy_post_def)

lemma copy_post_bind:
  assumes "copy_post d G res"
    and "\<And>d'. bl_blocks d' = bl_blocks d \<Longrightarrow> blist_inv d' G \<Longrightarrow> copy_post d' H (f (Some d'))"
  shows "copy_post d H (rbind res f)"
  using assms by (fastforce simp: copy_post_def)

lemma copy_bits_spec:
  assumes "blist_inv d (G \<union> shift b (bits32 v \<inter> {0..<min count (int i)}))" "i \<le> 32"
    and "0 \<le> b" "b + count \<le> bl_blocks d" "{b..<b + count} \<inter> G = {}" "count \<le> 32"
  shows "copy_post d (G \<union> shift b (bits32 v \<inter> {0..<count})) (blst_copy_bits v i b (Some d) count)"
  using assms
proof (induction "32 - i" arbitrary: i d)
  case 0
  then have "i = 32" by simp
  moreover have "min count (int i) = count" using 0 \<open>i = 32\<close> by simp
  ultimately show ?case
    using 0 by (subst blst_copy_bits.simps) (simp add: copy_post_self)
next
  case (Suc x)
  then have i: "i < 32" "x = 32 - Suc i" by simp_all
  show ?case
  proof (cases "int i < count")
    case False
    then have "min count (int i) = count" by simp
    with False Suc.prems show ?thesis
      by (subst blst_copy_bits.simps) (simp add: copy_post_self)
  next
    case True
    let ?G = "\<lambda>i. G \<union> shift b (bits32 v \<inter> {0..<min count (int i)})"
    have "copy_post d (?G (Suc i)) (if bit v i then blist_free (Some d) (b + int i) 1 else Inr (Some d))"
    proof (cases "bit v i")
      case bit: True
      have "{b + int i..<b + int i + 1} \<inter> ?G i = {}"
      proof -
        have "b + int i \<in> {b..<b + count}" using True by simp
        then have "b + int i \<notin> G" using Suc.prems(5) by blast
        then show ?thesis by (auto simp: shift_def)
      qed
      from blist_free_spec [OF Suc.prems(1) _ _ _ this]
      have "copy_post d (?G i \<union> {b + int i..<b + int i + 1}) (blist_free (Some d) (b + int i) 1)"
        using Suc.prems(3,4) True by (auto simp: copy_post_def)
      moreover have "?G i \<union> {b + int i..<b + int i + 1} = ?G (Suc i)"
      proof -
        have "x - b \<in> bits32 v" if "x = b + int i" for x using that bit i by (simp add: bits32_iff)
        then show ?thesis using True by (auto simp: shift_def min_def)
      qed
      ultimately show ?thesis using bit by simp
    next
      case False
      have "?G (Suc i) = ?G i"
      proof -
        have "bits32 v \<inter> {0..<int (Suc i)} = bits32 v \<inter> {0..<int i}"
          using False by (auto simp: bits32_iff) (metis linorder_neqE nat_int zle_add1_eq_le add.commute not_le)
        moreover have "min count (int (Suc i)) = int (Suc i)" "min count (int i) = int i" using True by auto
        ultimately show ?thesis by simp
      qed
      with False Suc.prems(1) show ?thesis by (simp add: copy_post_self)
    qed
    moreover have "copy_post d' (G \<union> shift b (bits32 v \<inter> {0..<count})) (blst_copy_bits v (Suc i) b (Some d') count)"
      if "bl_blocks d' = bl_blocks d" "blist_inv d' (?G (Suc i))" for d'
      using that Suc.prems i by (intro Suc.hyps(1) [OF i(2)]) auto
    ultimately show ?thesis
      using i True by (subst blst_copy_bits.simps) (simp add: copy_post_bind)
  qed
qed

abbreviation node_copy :: "nat \<Rightarrow> blmeta list \<Rightarrow> nat \<Rightarrow> int \<Rightarrow> blist option \<Rightarrow> int \<Rightarrow> blist option kres" where
  "node_copy l mem s b dest count \<equiv> blst_copy mem s b (radixL l) (skipL l) dest count"

abbreviation copy_loop ::
  "nat \<Rightarrow> blmeta list \<Rightarrow> nat \<Rightarrow> nat \<Rightarrow> int \<Rightarrow> blist option \<Rightarrow> int \<Rightarrow> blist option kres" where
  "copy_loop l mem s k b dest count \<equiv>
     blst_copy_loop mem s (cidx l k) b (radixL l) (skipL (Suc l)) (Suc (skipL l)) dest count"

lemma copy_loop_end: "16 \<le> k \<or> count = 0 \<Longrightarrow> copy_loop l mem s k b dest count = Inr dest"
  by (subst blst_copy_loop.simps) auto

lemma copy_loop_step:
  assumes "k < 16" "int k * radixL l < count" "child s l k < length mem" "bm_bighint (mem ! child s l k) \<noteq> - 1"
  shows "copy_loop l mem s k (b + int k * radixL l) dest (max 0 (count - int k * radixL l)) =
    rbind (node_copy l mem (child s l k) (b + int k * radixL l) dest (ccnt l count k)) (\<lambda>dest.
      copy_loop l mem s (Suc k) (b + int (Suc k) * radixL l) dest (max 0 (count - int (Suc k) * radixL l)))"
proof -
  have "child (Suc (skipL l)) l k = cidx l (Suc k)" by (simp add: child_def cidx_def)
  with assms show ?thesis
    by (subst blst_copy_loop.simps) (auto simp: ccnt_def algebra_simps max_def min_def)
qed

lemma shift_slice:
  assumes "0 < R"
  shows "shift b (F \<inter> {0..<min count (int k * R)}) \<union>
      shift (b + int k * R) (slice R k F \<inter> {0..<min R (count - int k * R)}) =
    shift b (F \<inter> {0..<min count (int (Suc k) * R)})"
proof (intro set_eqI)
  fix x
  define a where "a = int k * R"
  have a: "0 \<le> a" "int (Suc k) * R = a + R" using assms by (simp_all add: a_def algebra_simps)
  have e: "a + (x - (b + a)) = x - b" by simp
  show "x \<in> shift b (F \<inter> {0..<min count (int k * R)}) \<union>
      shift (b + int k * R) (slice R k F \<inter> {0..<min R (count - int k * R)}) \<longleftrightarrow>
    x \<in> shift b (F \<inter> {0..<min count (int (Suc k) * R)})"
    unfolding shift_def mem_Collect_eq Un_iff Int_iff in_slice atLeastLessThan_iff a(2)
      a_def [symmetric] e using a(1) assms by auto
qed

lemma copy_loop_spec:
  assumes child: "\<And>s b F count cnt d G. blst_shape mem l s cnt \<Longrightarrow> blst_vals mem l s cnt F \<Longrightarrow>
      F \<subseteq> {0..<cnt} \<Longrightarrow> cnt \<le> radixL l \<Longrightarrow> 0 < count \<Longrightarrow> count \<le> cnt \<Longrightarrow> blist_inv d G \<Longrightarrow> 0 \<le> b \<Longrightarrow>
      b + count \<le> bl_blocks d \<Longrightarrow> {b..<b + count} \<inter> G = {} \<Longrightarrow>
      copy_post d (G \<union> shift b (F \<inter> {0..<count})) (node_copy l mem s b (Some d) count)"
    and src: "blst_shape mem (Suc l) s cnt" "blst_kids mem l s cnt (\<lambda>k. slice (radixL l) k F)"
      "F \<subseteq> {0..<cnt}" "cnt \<le> radixL (Suc l)" "0 < count" "count \<le> cnt"
    and dst: "0 \<le> b" "b + count \<le> bl_blocks d" "{b..<b + count} \<inter> G = {}"
      "blist_inv d (G \<union> shift b (F \<inter> {0..<min count (int k * radixL l)}))" and k: "k \<le> 16"
  shows "copy_post d (G \<union> shift b (F \<inter> {0..<count}))
    (copy_loop l mem s k (b + int k * radixL l) (Some d) (max 0 (count - int k * radixL l)))"
  using dst k
proof (induction "16 - k" arbitrary: k d)
  case 0
  then have "k = 16" by simp
  with 0 src(4,6) show ?case by (simp add: copy_loop_end copy_post_self)
next
  case (Suc x)
  then have k: "k < 16" "x = 16 - Suc k" "Suc k \<le> 16" by simp_all
  let ?R = "radixL l" and ?c = "child s l k" and ?G = "\<lambda>k. G \<union> shift b (F \<inter> {0..<min count (int k * radixL l)})"
  show ?case
  proof (cases "int k * ?R < count")
    case False
    with Suc.prems(4) show ?thesis by (simp add: copy_loop_end copy_post_self)
  next
    case True
    then have lt: "int k * ?R < cnt" using src(6) by linarith
    have sh: "blst_shape mem l ?c (ccnt l cnt k)" using src(1) k(1) lt by simp
    have v: "blst_vals mem l ?c (ccnt l cnt k) (slice ?R k F)" using src(2) k(1) lt by (simp add: blst_kids_def)
    have cc: "0 < ccnt l count k" "ccnt l count k \<le> ccnt l cnt k" "ccnt l cnt k \<le> ?R"
      "ccnt l count k \<le> count - int k * ?R"
      using True src(6) by (auto simp: ccnt_def)
    have kR: "0 \<le> int k * ?R" by simp
    have dis: "{b + int k * ?R..<b + int k * ?R + ccnt l count k} \<inter> ?G k = {}"
    proof -
      have "{b + int k * ?R..<b + int k * ?R + ccnt l count k} \<subseteq> {b..<b + count}" using cc(4) kR by auto
      then have "{b + int k * ?R..<b + int k * ?R + ccnt l count k} \<inter> G = {}" using Suc.prems(3) by blast
      moreover have "{b + int k * ?R..<b + int k * ?R + ccnt l count k} \<inter>
          shift b (F \<inter> {0..<min count (int k * ?R)}) = {}" by (auto simp: shift_def)
      ultimately show ?thesis by blast
    qed
    have "copy_post d (?G k \<union> shift (b + int k * ?R) (slice ?R k F \<inter> {0..<ccnt l count k}))
        (node_copy l mem ?c (b + int k * ?R) (Some d) (ccnt l count k))"
      using Suc.prems(1,2) cc(4) kR
      by (intro child [OF sh v slice_subset [OF src(3)] cc(3,1,2) Suc.prems(4) _ _ dis]) linarith+
    moreover have "?G k \<union> shift (b + int k * ?R) (slice ?R k F \<inter> {0..<ccnt l count k}) = ?G (Suc k)"
      using shift_slice [of ?R b F count k] by (simp add: ccnt_def Un_assoc)
    ultimately have "copy_post d (?G (Suc k)) (node_copy l mem ?c (b + int k * ?R) (Some d) (ccnt l count k))"
      by simp
    moreover have "copy_post d' (G \<union> shift b (F \<inter> {0..<count}))
        (copy_loop l mem s (Suc k) (b + int (Suc k) * ?R) (Some d') (max 0 (count - int (Suc k) * ?R)))"
      if "bl_blocks d' = bl_blocks d" "blist_inv d' (?G (Suc k))" for d'
      using that Suc.prems(1-3) by (intro Suc.hyps(1) [OF k(2)] k(3)) auto
    moreover note blst_shape_root [OF sh]
    ultimately show ?thesis
      using copy_loop_step [OF k(1) True] by (simp add: copy_post_bind)
  qed
qed

theorem node_copy_spec:
  assumes "blst_shape mem l s cnt" "blst_vals mem l s cnt F" "F \<subseteq> {0..<cnt}" "cnt \<le> radixL l"
    "0 < count" "count \<le> cnt" "blist_inv d G" "0 \<le> b" "b + count \<le> bl_blocks d" "{b..<b + count} \<inter> G = {}"
  shows "copy_post d (G \<union> shift b (F \<inter> {0..<count})) (node_copy l mem s b (Some d) count)"
  using assms
proof (induction l arbitrary: s b F count cnt d G)
  case 0
  have F: "bits32 (bmu_bitmap (mem ! s)) = F" and s: "s < length mem" using 0 by auto
  have full: "copy_post d (G \<union> {b..<b + count}) (blist_free (Some d) b count)"
    using blist_free_spec [OF "0.prems"(7,8) _ "0.prems"(9,10)] "0.prems"(5) by (auto simp: copy_post_def)
  have bits: "copy_post d (G \<union> shift b (F \<inter> {0..<count}))
      (blst_copy_bits (bmu_bitmap (mem ! s)) 0 b (Some d) count)"
    unfolding F [symmetric] using 0 by (intro copy_bits_spec) auto
  have "count \<le> 32" using 0 by simp
  then have "{0..<32} \<inter> {0..<count} = {0..<count}" by auto
  then show ?case
    using s F full bits "0.prems"(7)
    by (subst blst_copy.simps) (auto simp: BLIST_BMAP_RADIX_def copy_post_self)
next
  case (Suc l)
  have s: "s < length mem" and av: "bmu_avail (mem ! s) = int (card F)" using Suc.prems by auto
  have fin: "finite F" using Suc.prems(3) by (rule finite_subset) simp
  show ?case
  proof (cases "F = {} \<or> int (card F) = radixL (Suc l)")
    case True
    then show ?thesis
    proof
      assume "F = {}"
      with s av Suc.prems(7) show ?thesis
        by (subst blst_copy.simps) (simp add: BLIST_BMAP_RADIX_def copy_post_self)
    next
      assume f: "int (card F) = radixL (Suc l)"
      note full = card_full [OF Suc.prems(3,4) f radixL_pos(1)]
      then have "F \<inter> {0..<count} = {0..<count}" using Suc.prems(6) by auto
      moreover have "copy_post d (G \<union> {b..<b + count}) (blist_free (Some d) b count)"
        using blist_free_spec [OF Suc.prems(7,8) _ Suc.prems(9,10)] Suc.prems(5) by (auto simp: copy_post_def)
      moreover have "(if count < radixL (Suc l) then count else radixL (Suc l)) = count"
        using Suc.prems(6) full(2) by simp
      moreover have "node_copy (Suc l) mem s b (Some d) count = blist_free (Some d) b
          (if count < radixL (Suc l) then count else radixL (Suc l))"
        using s av f by (subst blst_copy.simps) (simp add: BLIST_BMAP_RADIX_def)
      ultimately show ?thesis by simp
    qed
  next
    case False
    then have ne: "F \<noteq> {}" "F \<noteq> {0..<radixL (Suc l)}" "bmu_avail (mem ! s) \<noteq> 0"
      "bmu_avail (mem ! s) \<noteq> radixL (Suc l)" using av fin by auto
    then have kids: "blst_kids mem l s cnt (\<lambda>k. slice (radixL l) k F)"
      using Suc.prems(2) by (simp add: blst_kids_def)
    have "copy_post d (G \<union> shift b (F \<inter> {0..<count}))
        (copy_loop l mem s 0 (b + int 0 * radixL l) (Some d) (max 0 (count - int 0 * radixL l)))"
      using Suc.prems(5,7)
      by (intro copy_loop_spec [OF Suc.IH Suc.prems(1) kids Suc.prems(3-6,8-10)]) auto
    moreover have "node_copy (Suc l) mem s b (Some d) count = copy_loop l mem s 0 b (Some d) count"
      using s ne by (subst blst_copy.simps) (simp add: BLIST_BMAP_RADIX_def BLIST_META_RADIX_def)
    ultimately show ?thesis using Suc.prems(5) by simp
  qed
qed

section \<open>Resizing\<close>

lemma blist_resize_spec:
  assumes inv: "blist_inv save F" and c: "0 < count" "count \<le> BLIST_MAXBLKS"
  shows "\<exists>bl. blist_resize junk save count freenew = Inr (Some bl) \<and> bl_blocks bl = count \<and>
    blist_inv bl (F \<inter> {0..<count} \<union> (if freenew then {bl_blocks save..<count} else {}))"
proof -
  from inv obtain L where L: "bl_radix save = radixL L" "bl_skip save = skipL L" "bl_blocks save \<le> radixL L"
    "blst_shape (bl_root save) L 0 (bl_blocks save)" "blst_vals (bl_root save) L 0 (bl_blocks save) F"
    "F \<subseteq> {0..<bl_blocks save}" "0 < bl_blocks save" by (rule blist_invE)
  obtain newbl where new: "blist_create junk count = Inr newbl" "bl_blocks newbl = count" "blist_inv newbl {}"
    using blist_create_spec [OF c] by blast
  let ?c = "if bl_blocks save < count then bl_blocks save else count"
  have "copy_post newbl ({} \<union> shift 0 (F \<inter> {0..<?c})) (node_copy L (bl_root save) 0 0 (Some newbl) ?c)"
    using c(1) L(7) new(2) by (intro node_copy_spec [OF L(4-6,3) _ _ new(3)]) auto
  moreover have "shift 0 (F \<inter> {0..<?c}) = F \<inter> {0..<count}" using L(6) by (auto simp: shift_def)
  ultimately obtain d where d: "blst_copy (bl_root save) 0 0 (bl_radix save) (bl_skip save) (Some newbl) ?c =
      Inr (Some d)" "bl_blocks d = count" "blist_inv d (F \<inter> {0..<count})"
    using new(2) L(1,2) by (auto simp: copy_post_def)
  show ?thesis
  proof (cases "freenew \<and> bl_blocks save < count")
    case True
    have "{bl_blocks save..<bl_blocks save + (count - bl_blocks save)} \<inter> (F \<inter> {0..<count}) = {}"
      using L(6) by auto
    from blist_free_spec [OF d(3) _ _ _ this] True d(2) L(7) obtain d' where
      "blist_free (Some d) (bl_blocks save) (count - bl_blocks save) = Inr (Some d')" "bl_blocks d' = count"
      "blist_inv d' (F \<inter> {0..<count} \<union> {bl_blocks save..<count})" by auto
    with True d(1) new show ?thesis by (simp add: blist_resize_def Let_def)
  next
    case False
    then have "(if freenew then {bl_blocks save..<count} else {}) = {}" by auto
    with False d new show ?thesis by (auto simp: blist_resize_def Let_def)
  qed
qed

end
