(* ===== verification/Block_Client.thy ===== *)
theory Block_Client
  imports Kern_Prelude
begin

text \<open>
  The contract a block allocator offers, and what a client that follows the rules gets from it: for
  every sequence of allocations and releases the allocator neither panics nor strays, and the runs
  the client holds are disjoint from each other and from the free blocks.
\<close>

datatype client_op = Take int | Give nat

text \<open>
  A client asks for runs, keeps what it got in a list, and gives back runs of that list (an index
  beyond the list is ignored).
\<close>

fun client_run ::
  "('s \<Rightarrow> int \<Rightarrow> ('s \<times> int) kres) \<Rightarrow> ('s \<Rightarrow> int \<Rightarrow> int \<Rightarrow> 's kres) \<Rightarrow> int \<Rightarrow> client_op list
     \<Rightarrow> 's \<times> (int \<times> int) list \<Rightarrow> ('s \<times> (int \<times> int) list) kres" where
  "client_run alloc release none [] (s, held) = Inr (s, held)"
| "client_run alloc release none (Take n # ops) (s, held) =
     rbind (alloc s n) (\<lambda>(s, r).
       client_run alloc release none ops (s, if r = none then held else (r, n) # held))"
| "client_run alloc release none (Give i # ops) (s, held) =
     (if i < length held then
        rbind (release s (fst (held ! i)) (snd (held ! i))) (\<lambda>s.
          client_run alloc release none ops (s, take i held @ drop (Suc i) held))
      else client_run alloc release none ops (s, held))"

definition run_of :: "int \<times> int \<Rightarrow> int set" where
  "run_of h = {fst h..<fst h + snd h}"

definition held_blocks :: "(int \<times> int) list \<Rightarrow> int set" where
  "held_blocks held = (\<Union>h \<in> set held. run_of h)"

fun runs_disjoint :: "(int \<times> int) list \<Rightarrow> bool" where
  "runs_disjoint [] \<longleftrightarrow> True"
| "runs_disjoint (h # held) \<longleftrightarrow> run_of h \<inter> held_blocks held = {} \<and> runs_disjoint held"

lemma held_blocks_simps [simp]:
  "held_blocks [] = {}" "held_blocks (h # held) = run_of h \<union> held_blocks held"
  "held_blocks (xs @ ys) = held_blocks xs \<union> held_blocks ys"
  by (auto simp: held_blocks_def)

lemma runs_disjoint_append:
  "runs_disjoint (xs @ ys) \<longleftrightarrow>
     runs_disjoint xs \<and> runs_disjoint ys \<and> held_blocks xs \<inter> held_blocks ys = {}"
  by (induction xs) auto

lemma runs_disjoint_remove:
  assumes "runs_disjoint held" "i < length held"
  shows "runs_disjoint (take i held @ drop (Suc i) held)"
    and "held_blocks held = run_of (held ! i) \<union> held_blocks (take i held @ drop (Suc i) held)"
    and "run_of (held ! i) \<inter> held_blocks (take i held @ drop (Suc i) held) = {}"
proof -
  have eq: "held = take i held @ held ! i # drop (Suc i) held" using assms(2) by (rule id_take_nth_drop)
  have "runs_disjoint (take i held @ held ! i # drop (Suc i) held)" using assms(1) eq by simp
  then show "runs_disjoint (take i held @ drop (Suc i) held)"
    "run_of (held ! i) \<inter> held_blocks (take i held @ drop (Suc i) held) = {}"
    by (auto simp: runs_disjoint_append)
  show "held_blocks held = run_of (held ! i) \<union> held_blocks (take i held @ drop (Suc i) held)"
    by (subst eq) auto
qed

locale block_allocator =
  fixes inv :: "'s \<Rightarrow> int set \<Rightarrow> bool" and univ :: "'s \<Rightarrow> int set"
    and alloc :: "'s \<Rightarrow> int \<Rightarrow> ('s \<times> int) kres" and release :: "'s \<Rightarrow> int \<Rightarrow> int \<Rightarrow> 's kres"
    and none :: int and size_ok :: "int \<Rightarrow> bool"
  assumes alloc_law: "inv s F \<Longrightarrow> size_ok n \<Longrightarrow>
      \<exists>s' r. alloc s n = Inr (s', r) \<and> univ s' = univ s \<and>
        (r = none \<and> inv s' F \<or> r \<noteq> none \<and> {r..<r + n} \<subseteq> F \<and> inv s' (F - {r..<r + n}))"
    and release_law: "inv s F \<Longrightarrow> size_ok n \<Longrightarrow> {p..<p + n} \<subseteq> univ s \<Longrightarrow> {p..<p + n} \<inter> F = {} \<Longrightarrow>
      \<exists>s'. release s p n = Inr s' \<and> univ s' = univ s \<and> inv s' (F \<union> {p..<p + n})"
begin

text \<open>The books balance: free and held blocks are disjoint and make up the blocks handed in.\<close>

definition balanced :: "int set \<Rightarrow> 's \<Rightarrow> int set \<Rightarrow> (int \<times> int) list \<Rightarrow> bool" where
  "balanced U s F held \<longleftrightarrow>
     inv s F \<and> U \<subseteq> univ s \<and> runs_disjoint held \<and> F \<inter> held_blocks held = {} \<and> F \<union> held_blocks held = U \<and>
     (\<forall>h \<in> set held. size_ok (snd h))"

lemma balanced_take:
  assumes "balanced U s F held" "size_ok n"
  shows "\<exists>s' r F'. alloc s n = Inr (s', r) \<and>
    balanced U s' F' (if r = none then held else (r, n) # held)"
proof -
  from assms(1) have "inv s F" by (simp add: balanced_def)
  from alloc_law [OF this assms(2)] obtain s' r where s': "alloc s n = Inr (s', r)" "univ s' = univ s"
    "r = none \<and> inv s' F \<or> r \<noteq> none \<and> {r..<r + n} \<subseteq> F \<and> inv s' (F - {r..<r + n})" by blast
  have "balanced U s' (if r = none then F else F - {r..<r + n}) (if r = none then held else (r, n) # held)"
    using assms s'(2,3) by (auto simp: balanced_def run_of_def)
  with s'(1) show ?thesis by blast
qed

lemma balanced_give:
  assumes "balanced U s F held" "i < length held"
  shows "\<exists>s' F'. release s (fst (held ! i)) (snd (held ! i)) = Inr s' \<and>
    balanced U s' F' (take i held @ drop (Suc i) held)"
proof -
  let ?p = "fst (held ! i)" and ?n = "snd (held ! i)" and ?held = "take i held @ drop (Suc i) held"
  have b: "inv s F" "U \<subseteq> univ s" "runs_disjoint held" "F \<inter> held_blocks held = {}"
    "F \<union> held_blocks held = U" "\<forall>h \<in> set held. size_ok (snd h)"
    using assms(1) by (auto simp: balanced_def)
  note rm = runs_disjoint_remove [OF b(3) assms(2)]
  have run: "run_of (held ! i) = {?p..<?p + ?n}" by (simp add: run_of_def)
  have "size_ok ?n" "{?p..<?p + ?n} \<subseteq> univ s" "{?p..<?p + ?n} \<inter> F = {}"
    using b assms(2) rm(2) run by auto
  from release_law [OF b(1) this] obtain s' where s': "release s ?p ?n = Inr s'" "univ s' = univ s"
    "inv s' (F \<union> {?p..<?p + ?n})" by blast
  have "balanced U s' (F \<union> {?p..<?p + ?n}) ?held"
    using s'(2,3) rm b run set_take_subset [of i held] set_drop_subset [of "Suc i" held]
    by (auto simp: balanced_def)
  with s'(1) show ?thesis by blast
qed

lemma client_safe:
  assumes "balanced U s F held" "\<forall>n. Take n \<in> set ops \<longrightarrow> size_ok n"
  shows "\<exists>s' held' F'. client_run alloc release none ops (s, held) = Inr (s', held') \<and> balanced U s' F' held'"
  using assms
proof (induction ops arbitrary: s F held)
  case Nil
  then show ?case by auto
next
  case (Cons op ops)
  show ?case
  proof (cases op)
    case (Take n)
    with Cons.prems balanced_take [OF Cons.prems(1), of n] obtain s' r F' where
      a: "alloc s n = Inr (s', r)" "balanced U s' F' (if r = none then held else (r, n) # held)" by auto
    from Cons.IH [OF a(2)] Cons.prems(2) a(1) Take show ?thesis by auto
  next
    case (Give i)
    show ?thesis
    proof (cases "i < length held")
      case True
      from balanced_give [OF Cons.prems(1) this] obtain s' F' where
        a: "release s (fst (held ! i)) (snd (held ! i)) = Inr s'"
          "balanced U s' F' (take i held @ drop (Suc i) held)" by blast
      from Cons.IH [OF a(2)] Cons.prems(2) a(1) Give True show ?thesis by auto
    next
      case False
      with Cons.IH [OF Cons.prems(1)] Cons.prems(2) Give show ?thesis by auto
    qed
  qed
qed

end

end
