(* ===== verification/Blist_Props.thy ===== *)
theory Blist_Props
  imports Blist_Resize Block_Client
begin

text \<open>
  The properties of the block list: its interface routines are operations on the set of free blocks,
  its clients never hold a block twice, and two places where the code departs from its comments.
\<close>

section \<open>The block list as a block allocator\<close>

definition blist_rep :: "blist option \<Rightarrow> int set \<Rightarrow> bool" where
  "blist_rep b F \<longleftrightarrow> (case b of None \<Rightarrow> False | Some bl \<Rightarrow> blist_inv bl F)"

definition blist_univ :: "blist option \<Rightarrow> int set" where
  "blist_univ b = (case b of None \<Rightarrow> {} | Some bl \<Rightarrow> {0..<bl_blocks bl})"

definition blist_size_ok :: "int \<Rightarrow> bool" where
  "blist_size_ok n \<longleftrightarrow> 1 \<le> n \<and> n \<le> 32"

lemma blist_alloc_law:
  assumes "blist_rep b F" "blist_size_ok n"
  shows "\<exists>b' r. blist_alloc b n = Inr (b', r) \<and> blist_univ b' = blist_univ b \<and>
    (r = SWAPBLK_NONE \<and> blist_rep b' F \<or>
     r \<noteq> SWAPBLK_NONE \<and> {r..<r + n} \<subseteq> F \<and> blist_rep b' (F - {r..<r + n}))"
proof -
  from assms(1) obtain bl where b: "b = Some bl" "blist_inv bl F" by (cases b) (auto simp: blist_rep_def)
  have n: "1 \<le> n" "n \<le> 32" using assms(2) by (auto simp: blist_size_ok_def)
  have "allocat_post bl F n 0 (blist_alloc b n)"
    unfolding b(1) blist_alloc_allocat by (rule blist_allocat_spec [OF b(2) n]) simp
  then obtain bl' r where r: "blist_alloc b n = Inr (Some bl', r)" "bl_blocks bl' = bl_blocks bl"
    "r = SWAPBLK_NONE \<and> blist_inv bl' F \<or> first_fit 0 0 F n r \<and> blist_inv bl' (F - {r..<r + n})"
    by (auto simp: allocat_post_def)
  have "r \<noteq> SWAPBLK_NONE \<and> {r..<r + n} \<subseteq> F" if "first_fit 0 0 F n r"
  proof -
    have c: "cand 0 0 F n r" using that by (simp add: first_fit_def)
    have "0 \<le> r" using b(2) cand_nonneg(1) [OF c _ n(1)] by (auto simp: blist_inv_def)
    with c SWAPBLK_NONE_neg show ?thesis by (auto simp: cand_def)
  qed
  with r b(1) show ?thesis by (auto simp: blist_rep_def blist_univ_def)
qed

lemma blist_release_law:
  assumes "blist_rep b F" "blist_size_ok n" "{p..<p + n} \<subseteq> blist_univ b" "{p..<p + n} \<inter> F = {}"
  shows "\<exists>b'. blist_free b p n = Inr b' \<and> blist_univ b' = blist_univ b \<and> blist_rep b' (F \<union> {p..<p + n})"
proof -
  from assms(1) obtain bl where b: "b = Some bl" "blist_inv bl F" by (cases b) (auto simp: blist_rep_def)
  have n: "1 \<le> n" using assms(2) by (auto simp: blist_size_ok_def)
  have "p \<in> {p..<p + n}" "p + n - 1 \<in> {p..<p + n}" using n by auto
  then have "p \<in> {0..<bl_blocks bl}" "p + n - 1 \<in> {0..<bl_blocks bl}"
    using assms(3) b(1) unfolding blist_univ_def by auto
  then have "0 \<le> p" "p + n \<le> bl_blocks bl" by auto
  from blist_free_spec [OF b(2) this(1) n this(2) assms(4)] b(1) show ?thesis
    by (auto simp: blist_rep_def blist_univ_def)
qed

interpretation blk: block_allocator blist_rep blist_univ blist_alloc blist_free SWAPBLK_NONE blist_size_ok
  by unfold_locales (rule blist_alloc_law blist_release_law; assumption)+

section \<open>Lists for the examples\<close>

definition zero_node :: "nat \<Rightarrow> blmeta" where
  "zero_node i = \<lparr>bmu_avail = 0, bmu_bitmap = 0, bm_bighint = 0\<rparr>"

lemma all_free_blist:
  assumes "0 < blocks" "blocks \<le> BLIST_MAXBLKS"
  obtains bl where "bl_blocks bl = blocks" "blist_inv bl {0..<blocks}"
proof -
  obtain bl where bl: "bl_blocks bl = blocks" "blist_inv bl {}"
    using blist_create_spec [OF assms, of zero_node] by blast
  have "\<exists>bl'. blist_free (Some bl) 0 blocks = Inr (Some bl') \<and> bl_blocks bl' = bl_blocks bl \<and>
      blist_inv bl' ({} \<union> {0..<0 + blocks})"
    by (rule blist_free_spec [OF bl(2)]) (use assms bl(1) in auto)
  with bl(1) that show thesis by auto
qed

lemma blist_inv_radix: "blist_inv bl F \<Longrightarrow> 32 < bl_blocks bl \<Longrightarrow> bl_radix bl \<noteq> 32"
  by (erule blist_invE) simp

section \<open>Properties\<close>

text \<open>C1. An allocation of 1 to 32 blocks from a well-formed block list returns the lowest run of free
blocks that lies in one leaf whose end is beyond the start hint, takes exactly that run out of the free
set and keeps the list well-formed; it returns \<open>SWAPBLK_NONE\<close> exactly when no such run exists, and
then the free set stays as it is.  No access leaves the node array and no panic is reached.\<close>

theorem blist_allocat_first_fit:
  assumes "blist_inv bl F" "1 \<le> n" "n \<le> 32" "bl_radix bl = 32 \<longrightarrow> at < 32"
  shows "\<exists>bl' r. blist_allocat (Some bl) n at = Inr (Some bl', r) \<and> bl_blocks bl' = bl_blocks bl \<and>
    (if \<exists>j. cand at 0 F n j
     then first_fit at 0 F n r \<and> 0 \<le> r \<and> r + n \<le> bl_blocks bl \<and> blist_inv bl' (F - {r..<r + n})
     else r = SWAPBLK_NONE \<and> blist_inv bl' F)"
proof -
  from blist_allocat_spec [OF assms] obtain bl' r where r: "blist_allocat (Some bl) n at = Inr (Some bl', r)"
    "bl_blocks bl' = bl_blocks bl"
    "r = SWAPBLK_NONE \<and> (\<forall>j. \<not> cand at 0 F n j) \<and> blist_inv bl' F \<or>
     first_fit at 0 F n r \<and> blist_inv bl' (F - {r..<r + n})" by (auto simp: allocat_post_def)
  have F: "F \<subseteq> {0..<bl_blocks bl}" using assms(1) by (simp add: blist_inv_def)
  have "0 \<le> r \<and> r + n \<le> bl_blocks bl" if "first_fit at 0 F n r"
  proof -
    have "{r..<r + n} \<subseteq> F" using that by (simp add: first_fit_def cand_def)
    then have "{r..<r + n} \<subseteq> {0..<bl_blocks bl}" using F by blast
    moreover have "r \<in> {r..<r + n}" "r + n - 1 \<in> {r..<r + n}" using assms(2) by auto
    ultimately have "r \<in> {0..<bl_blocks bl}" "r + n - 1 \<in> {0..<bl_blocks bl}" by blast+
    then show ?thesis by simp
  qed
  with r show ?thesis by (auto simp: first_fit_def)
qed

theorem blist_allocat_first_fit_witness:
  "\<exists>bl bl'. blist_inv bl {0..<1000} \<and> blist_allocat (Some bl) 8 100 = Inr (Some bl', 96) \<and>
     blist_inv bl' ({0..<1000} - {96..<104})"
proof -
  obtain bl where bl: "bl_blocks bl = 1000" "blist_inv bl {0..<1000}" by (rule all_free_blist [of 1000]) (simp_all add: BLIST_MAXBLKS_eq)
  have r: "bl_radix bl \<noteq> 32" using bl(1) by (intro blist_inv_radix [OF bl(2)]) simp
  have c: "cand 100 0 {0..<1000} 8 96" by (simp add: cand_def)
  have least: "96 \<le> j" if "cand 100 0 {0..<1000} 8 j" for j
  proof -
    have "100 < j div 32 * 32 + 32" using that by (simp add: cand_def)
    then show ?thesis by presburger
  qed
  from blist_allocat_first_fit [OF bl(2), of 8 100] r c obtain bl' r where r:
    "blist_allocat (Some bl) 8 100 = Inr (Some bl', r)" "first_fit 100 0 {0..<1000} 8 r"
    "blist_inv bl' ({0..<1000} - {r..<r + 8})" by (auto split: if_splits)
  have "r = 96" using r(2) c least by (fastforce simp: first_fit_def)
  with r bl(2) show ?thesis by auto
qed

text \<open>C5. Freeing a range of allocated blocks inside the list adds exactly that range to the free set and
keeps the list well-formed: the counters, the bitmaps and the hints of all nodes stay right.\<close>

theorem blist_free_adds_range:
  assumes "blist_inv bl F" "0 \<le> p" "1 \<le> c" "p + c \<le> bl_blocks bl" "{p..<p + c} \<inter> F = {}"
  shows "\<exists>bl'. blist_free (Some bl) p c = Inr (Some bl') \<and> bl_blocks bl' = bl_blocks bl \<and>
    blist_inv bl' (F \<union> {p..<p + c}) \<and> bl_free bl' = bl_free bl + c"
proof -
  from blist_free_spec [OF assms] obtain bl' where bl': "blist_free (Some bl) p c = Inr (Some bl')"
    "bl_blocks bl' = bl_blocks bl" "blist_inv bl' (F \<union> {p..<p + c})" by blast
  have "card (F \<union> {p..<p + c}) = card F + nat c"
    using assms(3,5) blist_inv_finite [OF assms(1)] by (subst card_Un_disjoint) (auto simp: Int_commute)
  with bl' assms(3) show ?thesis using blist_inv_free [OF bl'(3)] blist_inv_free [OF assms(1)] by simp
qed

theorem blist_free_adds_range_witness:
  "\<exists>bl bl'. blist_inv bl {} \<and> bl_blocks bl = 1000 \<and> blist_free (Some bl) 10 700 = Inr (Some bl') \<and>
     blist_inv bl' {10..<710} \<and> bl_free bl' = bl_free bl + 700"
proof -
  obtain bl where bl: "bl_blocks bl = 1000" "blist_inv bl {}"
    using blist_create_spec [of 1000 zero_node] by (auto simp: BLIST_MAXBLKS_eq)
  from blist_free_adds_range [OF bl(2), of 10 700] bl show ?thesis by auto
qed

text \<open>C6. \<open>blist_create\<close> of any number of blocks up to \<open>BLIST_MAXBLKS\<close> returns a well-formed list of that many
blocks, all allocated, whatever the uninitialised node array held; the first, pointerless run of the
initialisation computes an array size that the second run never exceeds.\<close>

theorem blist_create_all_allocated:
  assumes "0 < blocks" "blocks \<le> BLIST_MAXBLKS"
  shows "\<exists>bl. blist_create junk blocks = Inr bl \<and> bl_blocks bl = blocks \<and> blist_inv bl {} \<and> bl_free bl = 0"
  using blist_create_spec [OF assms] blist_inv_free by fastforce

theorem blist_create_all_allocated_witness:
  "\<exists>bl. blist_create zero_node 100000 = Inr bl \<and> bl_blocks bl = 100000 \<and> blist_inv bl {} \<and> bl_free bl = 0"
  by (rule blist_create_all_allocated) (simp_all add: BLIST_MAXBLKS_eq)

text \<open>C7. \<open>blist_resize\<close> keeps the state of every block that both lists have; the blocks the new list has
in addition are free if the caller asks for it, and allocated otherwise.\<close>

theorem blist_resize_keeps_blocks:
  assumes "blist_inv save F" "0 < count" "count \<le> BLIST_MAXBLKS"
  shows "\<exists>bl. blist_resize junk save count freenew = Inr (Some bl) \<and> bl_blocks bl = count \<and>
    blist_inv bl (F \<inter> {0..<count} \<union> (if freenew then {bl_blocks save..<count} else {}))"
  by (rule blist_resize_spec [OF assms])

theorem blist_resize_keeps_blocks_witness:
  "\<exists>save bl. blist_inv save {0..<500} \<and> blist_resize zero_node save 9000 True = Inr (Some bl) \<and>
     blist_inv bl {0..<9000}"
proof -
  obtain save where save: "bl_blocks save = 500" "blist_inv save {0..<500}"
    by (rule all_free_blist [of 500]) (simp_all add: BLIST_MAXBLKS_eq)
  have "{0..<500} \<inter> {0..<9000} \<union> {500..<9000} = {0..<9000::int}" by auto
  with blist_resize_keeps_blocks [OF save(2), of 9000 zero_node True] save show ?thesis
    by (auto simp: BLIST_MAXBLKS_eq)
qed

text \<open>C8. Filling a range of at most 32 blocks removes it from the free set whatever its state was, and
returns how many of its blocks were free; the list stays well-formed.\<close>

theorem blist_fill_removes_range:
  assumes "blist_inv bl F" "0 \<le> p" "1 \<le> c" "p + c \<le> bl_blocks bl" "c \<le> 32"
  shows "\<exists>bl'. blist_fill (Some bl) p c = Inr (Some bl', int (card (F \<inter> {p..<p + c}))) \<and>
    bl_blocks bl' = bl_blocks bl \<and> blist_inv bl' (F - {p..<p + c})"
  using blist_fill_spec [OF assms(1-4)] assms(5) by auto

theorem blist_fill_removes_range_witness:
  "\<exists>bl bl'. blist_inv bl {0..<1000} \<and> blist_fill (Some bl) 990 10 = Inr (Some bl', 10) \<and>
     blist_inv bl' ({0..<1000} - {990..<1000})"
proof -
  obtain bl where bl: "bl_blocks bl = 1000" "blist_inv bl {0..<1000}" by (rule all_free_blist [of 1000]) (simp_all add: BLIST_MAXBLKS_eq)
  from blist_fill_removes_range [OF bl(2), of 990 10] bl(1,2) show ?thesis by auto
qed

text \<open>C9. A client that starts from a list with free set \<open>U\<close>, asks for runs of 1 to 32 blocks and gives
back runs it holds, in any order, never meets a panic or a bad access; the runs it holds are pairwise
disjoint, and together with the free blocks they are always exactly \<open>U\<close>.\<close>

theorem blist_client_runs_disjoint:
  assumes "blist_inv bl U" "\<forall>n. Take n \<in> set ops \<longrightarrow> 1 \<le> n \<and> n \<le> 32"
  shows "\<exists>bl' held F. client_run blist_alloc blist_free SWAPBLK_NONE ops (Some bl, []) = Inr (Some bl', held) \<and>
    blist_inv bl' F \<and> runs_disjoint held \<and> F \<inter> held_blocks held = {} \<and> F \<union> held_blocks held = U"
proof -
  have "U \<subseteq> {0..<bl_blocks bl}" using assms(1) by (simp add: blist_inv_def)
  with assms(1) have "blk.balanced U (Some bl) U []"
    by (simp add: blk.balanced_def blist_rep_def blist_univ_def)
  from blk.client_safe [OF this, of ops] assms(2) obtain b' held F where
    run: "client_run blist_alloc blist_free SWAPBLK_NONE ops (Some bl, []) = Inr (b', held)"
    and bal: "blk.balanced U b' F held" by (auto simp: blist_size_ok_def)
  from bal obtain bl' where "b' = Some bl'" "blist_inv bl' F"
    by (cases b') (auto simp: blk.balanced_def blist_rep_def)
  with run bal show ?thesis by (auto simp: blk.balanced_def)
qed

theorem blist_client_runs_disjoint_witness:
  "\<exists>bl bl' held F. blist_inv bl {0..<1000} \<and>
     client_run blist_alloc blist_free SWAPBLK_NONE [Take 3, Take 32, Give 0, Take 1] (Some bl, []) =
       Inr (Some bl', held) \<and> blist_inv bl' F \<and> runs_disjoint held \<and> F \<union> held_blocks held = {0..<1000}"
proof -
  obtain bl where bl: "blist_inv bl {0..<1000}" by (rule all_free_blist [of 1000]) (simp_all add: BLIST_MAXBLKS_eq)
  from blist_client_runs_disjoint [OF bl, of "[Take 3, Take 32, Give 0, Take 1]"] bl show ?thesis by force
qed


end
