(* ===== verification/Quad_Div.thy ===== *)
theory Quad_Div
  imports Kern_Prelude
begin

text \<open>
  \<open>__qdivrem()\<close> of \<open>sys/libkern/qdivrem.c\<close>: Knuth's long division (Algorithm D) of 64-bit numbers in
  base \<open>2 ^ 16\<close>.  Digits and longs are natural numbers with the reductions modulo \<open>2 ^ 16\<close> and
  \<open>2 ^ 32\<close> of the C types written out; the three digit arrays have five entries and every access is
  checked.  The theorem of this theory is that the routine returns quotient and remainder.
\<close>

unbundle bit_operations_syntax

section \<open>The routine\<close>

definition DB :: nat where
  "DB = 65536"

definition LOW :: "nat \<Rightarrow> nat" where
  "LOW x = x mod DB"

definition HIGH :: "nat \<Rightarrow> nat" where
  "HIGH x = x div DB"

definition COMBINE :: "nat \<Rightarrow> nat \<Rightarrow> nat" where
  "COMBINE a b = (a * DB mod 2 ^ 32) OR b"

text \<open>\<open>shl(p, len, sh)\<close> on the entries from \<open>p\<close> on, at loop index \<open>i\<close>.\<close>

function shl :: "nat list \<Rightarrow> nat \<Rightarrow> nat \<Rightarrow> nat \<Rightarrow> nat \<Rightarrow> nat list kres" where
  "shl xs p len sh i =
     (if i < len then
        rbind (rd xs (p + i)) (\<lambda>a. rbind (rd xs (p + i + 1)) (\<lambda>b.
          shl (xs[p + i := LOW (a * 2 ^ sh) OR (b div 2 ^ (16 - sh))]) p len sh (Suc i)))
      else rbind (rd xs (p + i)) (\<lambda>a. Inr (xs[p + i := LOW (a * 2 ^ sh)])))"
  by pat_completeness auto
termination
  by (relation "measure (\<lambda>(xs, p, len, sh, i). len - i)") auto

declare shl.simps [simp del]

text \<open>\<open>for (t = v[1]; t < B / 2; t <<= 1) d++\<close>; it does not end for \<open>v[1] = 0\<close>.\<close>

function qnorm :: "nat \<Rightarrow> nat \<Rightarrow> nat kres" where
  "qnorm t d = (if DB div 2 \<le> t then Inr d else if t = 0 then Inl Diverge else qnorm (t * 2) (d + 1))"
  by pat_completeness auto
termination
  by (relation "measure (\<lambda>(t, d). DB div 2 - t)") auto

declare qnorm.simps [simp del]

text \<open>D3: the loop that brings \<open>qhat\<close> down; its condition is false for \<open>qhat = 0\<close>.\<close>

function qhat_loop :: "nat \<Rightarrow> nat \<Rightarrow> nat \<Rightarrow> nat \<Rightarrow> nat \<Rightarrow> nat" where
  "qhat_loop qhat rhat v1 v2 uj2 =
     (if COMBINE rhat uj2 < v2 * qhat mod 2 ^ 32 then
        let qhat = qhat - 1; rhat = (rhat + v1) mod 2 ^ 32
        in if DB \<le> rhat then qhat else qhat_loop qhat rhat v1 v2 uj2
      else qhat)"
  by pat_completeness auto
termination
proof (relation "measure (\<lambda>(qhat, rhat, v1, v2, uj2). qhat)", goal_cases)
  case (2 qhat rhat v1 v2 uj2)
  then show ?case by (cases qhat) auto
qed simp

declare qhat_loop.simps [simp del]

definition qhat_guess :: "nat \<Rightarrow> nat \<Rightarrow> nat \<Rightarrow> nat \<Rightarrow> nat \<Rightarrow> nat" where
  "qhat_guess uj0 uj1 uj2 v1 v2 =
     (if uj0 = v1 then
        let qhat = DB - 1; rhat = uj1 + v1
        in if DB \<le> rhat then qhat else qhat_loop qhat rhat v1 v2 uj2
      else let nn = COMBINE uj0 uj1 in qhat_loop (nn div v1) (nn mod v1) v1 v2 uj2)"

text \<open>D4: multiply and subtract, from the low digit \<open>i = n\<close> up; \<open>t\<close> is the borrow.\<close>

fun qmsub :: "nat list \<Rightarrow> nat list \<Rightarrow> nat \<Rightarrow> nat \<Rightarrow> nat \<Rightarrow> nat \<Rightarrow> nat \<Rightarrow> (nat list \<times> nat) kres" where
  "qmsub us vs uj v qhat t 0 = Inr (us, t)"
| "qmsub us vs uj v qhat t (Suc i) =
     rbind (rd us (uj + Suc i)) (\<lambda>ud. rbind (rd vs (v + Suc i)) (\<lambda>vd.
       let t = nat ((int ud - int vd * int qhat - int t) mod 2 ^ 32)
       in qmsub (us[uj + Suc i := LOW t]) vs uj v qhat ((DB - HIGH t) mod DB) i))"

text \<open>D6: add back; \<open>t\<close> is the carry.\<close>

fun qaddback :: "nat list \<Rightarrow> nat list \<Rightarrow> nat \<Rightarrow> nat \<Rightarrow> nat \<Rightarrow> nat \<Rightarrow> (nat list \<times> nat) kres" where
  "qaddback us vs uj v t 0 = Inr (us, t)"
| "qaddback us vs uj v t (Suc i) =
     rbind (rd us (uj + Suc i)) (\<lambda>ud. rbind (rd vs (v + Suc i)) (\<lambda>vd.
       let t = t + ud + vd in qaddback (us[uj + Suc i := LOW t]) vs uj v (HIGH t) i))"

text \<open>One round D3 to D6 for the digit \<open>j\<close> of the quotient; \<open>uj\<close> is \<open>&u[j]\<close>.\<close>

definition qstep :: "nat list \<Rightarrow> nat list \<Rightarrow> nat \<Rightarrow> nat \<Rightarrow> nat \<Rightarrow> (nat list \<times> nat) kres" where
  "qstep us vs uj v n =
     rbind (rd vs (v + 1)) (\<lambda>v1. rbind (rd vs (v + 2)) (\<lambda>v2.
     rbind (rd us uj) (\<lambda>uj0. rbind (rd us (uj + 1)) (\<lambda>uj1. rbind (rd us (uj + 2)) (\<lambda>uj2.
       let qhat = qhat_guess uj0 uj1 uj2 v1 v2 in
       rbind (qmsub us vs uj v qhat 0 n) (\<lambda>(us, t).
       rbind (rd us uj) (\<lambda>ud.
         let t = nat ((int ud - int t) mod 2 ^ 32); us = us[uj := LOW t]
         in if HIGH t \<noteq> 0 then
              rbind (qaddback us vs uj v 0 n) (\<lambda>(us, t).
              rbind (rd us uj) (\<lambda>ud. Inr (us[uj := LOW (ud + t)], qhat - 1)))
            else Inr (us, qhat))))))))"

function qloop :: "nat list \<Rightarrow> nat list \<Rightarrow> nat list \<Rightarrow> nat \<Rightarrow> nat \<Rightarrow> nat \<Rightarrow> nat \<Rightarrow> nat \<Rightarrow> nat
    \<Rightarrow> (nat list \<times> nat list) kres" where
  "qloop us vs qs u v q n m j =
     rbind (qstep us vs (u + j) v n) (\<lambda>(us, qhat).
     rbind (wr qs (q + j) (LOW qhat)) (\<lambda>qs.
       if Suc j \<le> m then qloop us vs qs u v q n m (Suc j) else Inr (us, qs)))"
  by pat_completeness auto
termination
  by (relation "measure (\<lambda>(us, vs, qs, u, v, q, n, m, j). m - j)") auto

declare qloop.simps [simp del]

text \<open>The remainder is shifted back, from \<open>i = m + n\<close> down to \<open>m + 1\<close>.\<close>

function qshr :: "nat list \<Rightarrow> nat \<Rightarrow> nat \<Rightarrow> nat \<Rightarrow> nat \<Rightarrow> nat list kres" where
  "qshr us u m d i =
     (if m < i then
        rbind (rd us (u + i)) (\<lambda>a. rbind (rd us (u + i - 1)) (\<lambda>b.
          qshr (us[u + i := (a div 2 ^ d) OR LOW (b * 2 ^ (16 - d))]) u m d (i - 1)))
      else wr us (u + i) 0)"
  by pat_completeness auto
termination
  by (relation "measure (\<lambda>(us, u, m, d, i). i)") auto

declare qshr.simps [simp del]

text \<open>The index of the first entry behind \<open>p\<close> that is not zero: \<open>for (; p[1] == 0; p++)\<close>.\<close>

function qskip :: "nat list \<Rightarrow> nat \<Rightarrow> nat kres" where
  "qskip xs p =
     (if length xs \<le> p then Inl Bad_Access
      else rbind (rd xs (p + 1)) (\<lambda>a. if a = 0 then qskip xs (p + 1) else Inr p))"
  by pat_completeness auto
termination
  by (relation "measure (\<lambda>(xs, p). length xs - p)") auto

declare qskip.simps [simp del]

text \<open>The five digits of an array, the first one from \<open>x\<close>, the others those of the quad.\<close>

definition qdigits :: "nat \<Rightarrow> nat \<Rightarrow> nat list" where
  "qdigits x q = [x, HIGH (q div 2 ^ 32), LOW (q div 2 ^ 32), HIGH (q mod 2 ^ 32), LOW (q mod 2 ^ 32)]"

definition qcombine :: "nat list \<Rightarrow> nat" where
  "qcombine xs = COMBINE (xs ! 1) (xs ! 2) * 2 ^ 32 + COMBINE (xs ! 3) (xs ! 4)"

text \<open>The one-digit divisor \<open>t = v[2]\<close>: the unrolled loop of exercise 16.\<close>

definition qdiv1 :: "nat list \<Rightarrow> nat \<Rightarrow> nat \<times> nat" where
  "qdiv1 us t =
     (let q1 = LOW (us ! 1 div t);
          rbj = COMBINE (us ! 1 mod t) (us ! 2);
          q2 = LOW (rbj div t);
          rbj = COMBINE (rbj mod t) (us ! 3);
          q3 = LOW (rbj div t);
          rbj = COMBINE (rbj mod t) (us ! 4);
          q4 = LOW (rbj div t)
      in (COMBINE q1 q2 * 2 ^ 32 + COMBINE q3 q4, rbj mod t))"

text \<open>
  The result is the pair of quotient and remainder (the code stores the remainder only if it gets a
  pointer for it).  \<open>junk\<close> is the uninitialised content of the arrays.
\<close>

definition qdivrem :: "nat list \<Rightarrow> nat \<Rightarrow> nat \<Rightarrow> (nat \<times> nat) kres" where
  "qdivrem junk uq vq =
     (if vq = 0 then Inl (Panic ''divide by zero'')
      else if uq < vq then Inr (0, uq)
      else
        let us = qdigits 0 uq; vs = qdigits (junk ! 0) vq in
        if vs ! 1 = 0 \<and> vs ! 2 = 0 \<and> vs ! 3 = 0 then Inr (qdiv1 us (vs ! 4))
        else
          rbind (qskip vs 0) (\<lambda>v. let n = 4 - v in
          rbind (qskip us 0) (\<lambda>u. let m = 4 - n - u in
          let qs = replicate (4 - m) 0 @ drop (4 - m) junk in
          rbind (rd vs (v + 1)) (\<lambda>v1.
          rbind (qnorm v1 0) (\<lambda>d.
          rbind (if 0 < d then rbind (shl us u (m + n) d 0) (\<lambda>us.
                   rbind (shl vs (v + 1) (n - 1) d 0) (\<lambda>vs. Inr (us, vs)))
                 else Inr (us, vs)) (\<lambda>(us, vs).
          rbind (qloop us vs qs u v (4 - m) n m 0) (\<lambda>(us, qs).
          rbind (if 0 < d then qshr us u m d (m + n) else Inr us) (\<lambda>us.
            Inr (qcombine qs, qcombine us)))))))))"

section \<open>Numbers in base \<open>2 ^ 16\<close>\<close>

fun seg :: "nat list \<Rightarrow> nat \<Rightarrow> nat \<Rightarrow> nat" where
  "seg xs a 0 = 0"
| "seg xs a (Suc k) = seg xs a k * DB + xs ! (a + k)"

definition digs :: "nat list \<Rightarrow> bool" where
  "digs xs \<longleftrightarrow> length xs = 5 \<and> (\<forall>i < 5. xs ! i < DB)"

lemma DB_pos [simp]: "0 < DB" "DB \<noteq> 0"
  by (simp_all add: DB_def)

lemma digs_length [simp]: "digs xs \<Longrightarrow> length xs = 5"
  by (simp add: digs_def)

lemma digs_nth: "digs xs \<Longrightarrow> i < 5 \<Longrightarrow> xs ! i < DB"
  by (simp add: digs_def)

lemma digs_update: "digs xs \<Longrightarrow> x < DB \<Longrightarrow> digs (xs[i := x])"
  unfolding digs_def by (metis length_list_update nth_list_update_eq nth_list_update_neq)

lemma LOW_less [simp]: "LOW x < DB"
  by (simp add: LOW_def)

lemma seg_front: "seg xs a (Suc k) = xs ! a * DB ^ k + seg xs (Suc a) k"
  by (induction k) (simp_all add: algebra_simps)

lemma seg_split: "seg xs a (k + l) = seg xs a k * DB ^ l + seg xs (a + k) l"
  by (induction l) (simp_all add: algebra_simps)

lemma seg_cong: "(\<And>i. i < k \<Longrightarrow> xs ! (a + i) = ys ! (a + i)) \<Longrightarrow> seg xs a k = seg ys a k"
  by (induction k) auto

lemma seg_update: "i < a \<or> a + k \<le> i \<Longrightarrow> seg (xs[i := x]) a k = seg xs a k"
  by (rule seg_cong) (auto simp: nth_list_update)

lemma seg_less: "digs xs \<Longrightarrow> a + k \<le> 5 \<Longrightarrow> seg xs a k < DB ^ k"
proof (induction k)
  case (Suc k)
  then have "seg xs a k + 1 \<le> DB ^ k" "xs ! (a + k) < DB" by (auto intro: digs_nth Suc_leI)
  then have "(seg xs a k + 1) * DB \<le> DB ^ k * DB" by (intro mult_le_mono1)
  then show ?case using \<open>xs ! (a + k) < DB\<close> by (simp add: algebra_simps)
qed simp

section \<open>Multiply and subtract, add back\<close>

lemma borrow_step:
  assumes "ud < DB" "vd < DB" "qhat < DB" "t < DB"
  defines "x \<equiv> int ud - int vd * int qhat - int t"
  defines "T \<equiv> nat (x mod 2 ^ 32)"
  shows "int (LOW T) - int ((DB - HIGH T) mod DB) * int DB = x" "(DB - HIGH T) mod DB < DB"
proof -
  let ?y = "x div 65536"
  have "int vd * int qhat \<le> 65535 * 65535" using assms by (intro mult_mono) (auto simp: DB_def)
  moreover have "0 \<le> int vd * int qhat" by simp
  moreover have "ud < 65536" "t < 65536" using assms(1,4) by (simp_all add: DB_def)
  ultimately have x: "- 65535 * 65536 \<le> x" "x < 65536" unfolding x_def by linarith+
  then have y: "- 65535 \<le> ?y" "?y \<le> 0" by linarith+
  have T: "int T = x mod 2 ^ 32" unfolding T_def by simp
  have dm: "x = 65536 * ?y + x mod 65536" by simp
  have "x mod 2 ^ 32 = 65536 * (?y mod 65536) + x mod 65536"
    using zmod_zmult2_eq [of 65536 x 65536] by simp
  then have hi: "int (HIGH T) = ?y mod 65536" and lo: "int (LOW T) = x mod 65536"
    using T by (simp_all add: HIGH_def LOW_def DB_def zdiv_int zmod_int)
  have "int ((DB - HIGH T) mod DB) = - ?y"
  proof (cases "?y = 0")
    case True
    then show ?thesis using hi by (simp add: DB_def)
  next
    case False
    then have "?y mod 65536 = ?y + 65536" using y by (simp add: mod_pos_geq [symmetric] zmod_trivial_iff mod_add_self2 [symmetric, of ?y 65536] del: mod_add_self2)
    then have "int (HIGH T) = ?y + 65536" using hi by simp
    then show ?thesis using y False by (simp add: DB_def)
  qed
  then show "int (LOW T) - int ((DB - HIGH T) mod DB) * int DB = x" using lo dm by (simp add: DB_def)
  show "(DB - HIGH T) mod DB < DB" by simp
qed

lemma qmsub_spec:
  assumes "digs us" "digs vs" "uj + i < 5" "v + i < 5" "qhat < DB" "t < DB"
  shows "\<exists>us' t'. qmsub us vs uj v qhat t i = Inr (us', t') \<and> digs us' \<and> t' < DB \<and>
    (\<forall>k. k \<le> uj \<or> uj + i < k \<longrightarrow> us' ! k = us ! k) \<and>
    int (seg us' (uj + 1) i) - int t' * int DB ^ i =
      int (seg us (uj + 1) i) - int qhat * int (seg vs (v + 1) i) - int t"
  using assms
proof (induction i arbitrary: us t)
  case 0
  then show ?case by simp
next
  case (Suc i)
  let ?ud = "us ! (uj + Suc i)" and ?vd = "vs ! (v + Suc i)"
  let ?T = "nat ((int ?ud - int ?vd * int qhat - int t) mod 2 ^ 32)"
  let ?us = "us[uj + Suc i := LOW ?T]" and ?t = "(DB - HIGH ?T) mod DB"
  have d: "?ud < DB" "?vd < DB" using Suc.prems by (auto intro: digs_nth)
  note b = borrow_step [OF d Suc.prems(5,6)]
  have "\<exists>us' t'. qmsub ?us vs uj v qhat ?t i = Inr (us', t') \<and> digs us' \<and> t' < DB \<and>
    (\<forall>k. k \<le> uj \<or> uj + i < k \<longrightarrow> us' ! k = ?us ! k) \<and>
    int (seg us' (uj + 1) i) - int t' * int DB ^ i =
      int (seg ?us (uj + 1) i) - int qhat * int (seg vs (v + 1) i) - int ?t"
    using Suc.prems b(2) by (intro Suc.IH) (auto intro: digs_update)
  then obtain us' t' where r: "qmsub ?us vs uj v qhat ?t i = Inr (us', t')" "digs us'" "t' < DB"
    "\<forall>k. k \<le> uj \<or> uj + i < k \<longrightarrow> us' ! k = ?us ! k"
    and eq: "int (seg us' (uj + 1) i) - int t' * int DB ^ i =
      int (seg us (uj + 1) i) - int qhat * int (seg vs (v + 1) i) - int ?t"
    by (auto simp: seg_update)
  have nth: "us' ! (uj + 1 + i) = LOW ?T" using r(4) Suc.prems by simp
  have "int (seg us' (uj + 1) (Suc i)) - int t' * int DB ^ Suc i =
      (int (seg us' (uj + 1) i) - int t' * int DB ^ i) * int DB + int (us' ! (uj + 1 + i))"
    by (simp add: algebra_simps)
  also have "\<dots> = (int (seg us' (uj + 1) i) - int t' * int DB ^ i) * int DB + int (LOW ?T)"
    unfolding nth ..
  also have "\<dots> = (int (seg us (uj + 1) i) - int qhat * int (seg vs (v + 1) i)) * int DB +
      (int (LOW ?T) - int ?t * int DB)"
    unfolding eq by (simp add: algebra_simps)
  also have "\<dots> = int (seg us (uj + 1) (Suc i)) - int qhat * int (seg vs (v + 1) (Suc i)) - int t"
    unfolding b(1) by (simp add: algebra_simps)
  finally show ?case
    using r Suc.prems by (simp add: Let_def)
qed

lemma qaddback_spec:
  assumes "digs us" "digs vs" "uj + i < 5" "v + i < 5" "t \<le> 1"
  shows "\<exists>us' t'. qaddback us vs uj v t i = Inr (us', t') \<and> digs us' \<and> t' \<le> 1 \<and>
    (\<forall>k. k \<le> uj \<or> uj + i < k \<longrightarrow> us' ! k = us ! k) \<and>
    seg us' (uj + 1) i + t' * DB ^ i = seg us (uj + 1) i + seg vs (v + 1) i + t"
  using assms
proof (induction i arbitrary: us t)
  case 0
  then show ?case by simp
next
  case (Suc i)
  let ?ud = "us ! (uj + Suc i)" and ?vd = "vs ! (v + Suc i)"
  define T where "T = t + ?ud + ?vd"
  let ?us = "us[uj + Suc i := LOW T]"
  have d: "?ud < DB" "?vd < DB" using Suc.prems by (auto intro: digs_nth)
  then have "T < 2 * DB" using Suc.prems(5) by (simp add: T_def DB_def)
  then have hi: "HIGH T \<le> 1" unfolding HIGH_def using less_mult_imp_div_less [of T 2 DB] by simp
  have T: "HIGH T * DB + LOW T = T" by (simp add: HIGH_def LOW_def)
  have "\<exists>us' t'. qaddback ?us vs uj v (HIGH T) i = Inr (us', t') \<and> digs us' \<and> t' \<le> 1 \<and>
    (\<forall>k. k \<le> uj \<or> uj + i < k \<longrightarrow> us' ! k = ?us ! k) \<and>
    seg us' (uj + 1) i + t' * DB ^ i = seg ?us (uj + 1) i + seg vs (v + 1) i + HIGH T"
    using Suc.prems hi by (intro Suc.IH) (auto intro: digs_update)
  then obtain us' t' where r: "qaddback ?us vs uj v (HIGH T) i = Inr (us', t')" "digs us'" "t' \<le> 1"
    "\<forall>k. k \<le> uj \<or> uj + i < k \<longrightarrow> us' ! k = ?us ! k"
    and eq: "seg us' (uj + 1) i + t' * DB ^ i = seg us (uj + 1) i + seg vs (v + 1) i + HIGH T"
    by (auto simp: seg_update)
  have nth: "us' ! (uj + 1 + i) = LOW T" using r(4) Suc.prems by simp
  have "seg us' (uj + 1) (Suc i) + t' * DB ^ Suc i = (seg us' (uj + 1) i + t' * DB ^ i) * DB + us' ! (uj + 1 + i)"
    by (simp add: algebra_simps)
  also have "\<dots> = (seg us (uj + 1) i + seg vs (v + 1) i) * DB + (HIGH T * DB + LOW T)"
    unfolding eq nth by (simp add: algebra_simps)
  also have "\<dots> = (seg us (uj + 1) i + seg vs (v + 1) i) * DB + T" unfolding T ..
  also have "\<dots> = seg us (uj + 1) (Suc i) + seg vs (v + 1) (Suc i) + t"
    unfolding T_def by (simp add: algebra_simps)
  finally show ?case
    using r Suc.prems by (simp add: Let_def T_def)
qed

section \<open>The quotient digit\<close>

lemma or_shift: "b < 2 ^ k \<Longrightarrow> (a * 2 ^ k) OR b = a * 2 ^ k + (b :: nat)"
proof -
  assume b: "b < 2 ^ k"
  then have "take_bit k b = b" by (rule take_bit_nat_eq_self)
  then have "n < k" if "bit b n" for n using that by (metis bit_take_bit_iff)
  then have "push_bit k a AND b = 0" by (intro bit_eqI) (fastforce simp: bit_simps)
  then have "push_bit k a OR b = push_bit k a + b" by (simp add: disjunctive_add_eq_or)
  then show ?thesis by (simp add: push_bit_eq_mult)
qed

lemma or_digit: "b < DB \<Longrightarrow> (a * DB) OR b = a * DB + b"
  using or_shift [of b 16 a] by (simp add: DB_def)

lemma COMBINE_eq: "a < DB \<Longrightarrow> b < DB \<Longrightarrow> COMBINE a b = a * DB + b"
proof -
  assume a: "a < DB" and b: "b < DB"
  have "a * DB < 2 ^ 32" using a by (simp add: DB_def)
  then show ?thesis using b by (simp add: COMBINE_def or_digit)
qed

lemma qhat_loop_spec:
  assumes "qhat < DB" "rhat < DB" "v1 < DB" "v2 < DB" "u2 < DB" "qhat * v1 + rhat = H"
  shows "qhat_loop qhat rhat v1 v2 u2 * (v1 * DB + v2) \<le> H * DB + u2 \<and>
    qhat_loop qhat rhat v1 v2 u2 < DB \<and>
    (\<forall>q \<le> qhat. q * (v1 * DB + v2) \<le> H * DB + u2 \<longrightarrow> q \<le> qhat_loop qhat rhat v1 v2 u2)"
  using assms
proof (induction qhat arbitrary: rhat rule: less_induct)
  case (less qhat)
  let ?W = "v1 * DB + v2"
  have C: "COMBINE rhat u2 = rhat * DB + u2" using less.prems by (simp add: COMBINE_eq)
  have "v2 * qhat \<le> 65535 * 65535" using less.prems by (intro mult_le_mono) (auto simp: DB_def)
  then have m: "v2 * qhat mod 4294967296 = v2 * qhat" by simp
  have W: "qhat * ?W = qhat * v1 * DB + v2 * qhat" "H * DB = qhat * v1 * DB + rhat * DB"
    using less.prems(6) by (simp_all add: algebra_simps flip: less.prems(6))
  show ?case
  proof (cases "rhat * DB + u2 < v2 * qhat")
    case False
    then have "qhat_loop qhat rhat v1 v2 u2 = qhat" by (subst qhat_loop.simps) (simp add: C m)
    with False W less.prems(1) show ?thesis by simp
  next
    case True
    then have big: "H * DB + u2 < qhat * ?W" using W by linarith
    have q0: "0 < qhat" using True by (cases qhat) auto
    have r2: "(rhat + v1) mod 4294967296 = rhat + v1" using less.prems by (simp add: DB_def)
    have le: "q \<le> qhat - 1" if "q \<le> qhat" "q * ?W \<le> H * DB + u2" for q
      using that big q0 by (cases "q = qhat") auto
    have H: "(qhat - 1) * v1 + (rhat + v1) = H" using less.prems(6) q0 by (cases qhat) (auto simp: algebra_simps)
    show ?thesis
    proof (cases "DB \<le> rhat + v1")
      case stop: True
      then have res: "qhat_loop qhat rhat v1 v2 u2 = qhat - 1"
        using True by (subst qhat_loop.simps) (simp add: C m r2 Let_def)
      have "v2 * (qhat - 1) \<le> DB * DB" using less.prems by (intro mult_le_mono) auto
      also have "\<dots> \<le> (rhat + v1) * DB" using stop by (rule mult_le_mono1)
      finally have "(qhat - 1) * ?W \<le> ((qhat - 1) * v1 + (rhat + v1)) * DB" by (simp add: algebra_simps)
      then show ?thesis using le less.prems(1) unfolding res H by auto
    next
      case go: False
      then have res: "qhat_loop qhat rhat v1 v2 u2 = qhat_loop (qhat - 1) (rhat + v1) v1 v2 u2"
        using True by (subst qhat_loop.simps) (simp add: C m r2 Let_def)
      have "qhat_loop (qhat - 1) (rhat + v1) v1 v2 u2 * ?W \<le> H * DB + u2 \<and>
          qhat_loop (qhat - 1) (rhat + v1) v1 v2 u2 < DB \<and>
          (\<forall>q \<le> qhat - 1. q * ?W \<le> H * DB + u2 \<longrightarrow> q \<le> qhat_loop (qhat - 1) (rhat + v1) v1 v2 u2)"
        using q0 less.prems go H by (intro less.IH) auto
      then show ?thesis unfolding res using le by blast
    qed
  qed
qed

lemma qhat_guess_spec:
  assumes "u0 \<le> v1" "u1 < DB" "u2 < DB" "v1 < DB" "0 < v1" "v2 < DB"
  defines "qh \<equiv> qhat_guess u0 u1 u2 v1 v2" and "H3 \<equiv> (u0 * DB + u1) * DB + u2" and "W \<equiv> v1 * DB + v2"
  shows "qh * W \<le> H3" "qh < DB" "q < DB \<Longrightarrow> q * W \<le> H3 \<Longrightarrow> q \<le> qh"
proof -
  have "qh * W \<le> H3 \<and> qh < DB \<and> (\<forall>q < DB. q * W \<le> H3 \<longrightarrow> q \<le> qh)"
  proof (cases "u0 = v1")
    case True
    have H: "(DB - 1) * v1 + (u1 + v1) = u0 * DB + u1" using True by (simp add: DB_def)
    show ?thesis
    proof (cases "DB \<le> u1 + v1")
      case stop: True
      then have qh: "qh = DB - 1" using True by (simp add: qh_def qhat_guess_def Let_def)
      have "(DB - 1) * v2 \<le> DB * DB" using assms(6) by (intro mult_le_mono) auto
      also have "\<dots> \<le> (u1 + v1) * DB" using stop by (rule mult_le_mono1)
      finally have "(DB - 1) * W \<le> ((DB - 1) * v1 + (u1 + v1)) * DB" by (simp add: W_def algebra_simps)
      then show ?thesis unfolding qh H H3_def by (auto simp: DB_def)
    next
      case go: False
      then have qh: "qh = qhat_loop (DB - 1) (u1 + v1) v1 v2 u2"
        using True by (simp add: qh_def qhat_guess_def Let_def)
      have "qhat_loop (DB - 1) (u1 + v1) v1 v2 u2 * (v1 * DB + v2) \<le> (u0 * DB + u1) * DB + u2 \<and>
          qhat_loop (DB - 1) (u1 + v1) v1 v2 u2 < DB \<and>
          (\<forall>q \<le> DB - 1. q * (v1 * DB + v2) \<le> (u0 * DB + u1) * DB + u2 \<longrightarrow>
             q \<le> qhat_loop (DB - 1) (u1 + v1) v1 v2 u2)"
        using assms go H by (intro qhat_loop_spec) auto
      then show ?thesis unfolding qh H3_def W_def by auto
    qed
  next
    case False
    let ?H = "u0 * DB + u1"
    have C: "COMBINE u0 u1 = ?H" using assms False by (simp add: COMBINE_eq)
    have qh: "qh = qhat_loop (?H div v1) (?H mod v1) v1 v2 u2"
      using False by (simp add: qh_def qhat_guess_def Let_def C)
    have "u0 + 1 \<le> v1" using assms(1) False by simp
    then have "(u0 + 1) * DB \<le> v1 * DB" by (rule mult_le_mono1)
    then have "?H < DB * v1" using assms(2) by (simp add: algebra_simps)
    then have d: "?H div v1 < DB" by (simp add: less_mult_imp_div_less)
    have m: "?H mod v1 < DB" using assms(4,5) mod_less_divisor [of v1 ?H] by linarith
    have ql: "q \<le> ?H div v1" if "q * W \<le> H3" for q
    proof -
      have "q * v1 * DB \<le> q * W" by (simp add: W_def algebra_simps)
      also have "\<dots> \<le> ?H * DB + u2" using that by (simp add: H3_def)
      finally have "q * v1 * DB < (?H + 1) * DB" using assms(3) by (simp add: algebra_simps)
      then have "q * v1 < ?H + 1" by (simp only: mult_less_cancel2)
      then show ?thesis using assms(5) by (simp add: less_eq_div_iff_mult_less_eq)
    qed
    have "qhat_loop (?H div v1) (?H mod v1) v1 v2 u2 * (v1 * DB + v2) \<le> ?H * DB + u2 \<and>
        qhat_loop (?H div v1) (?H mod v1) v1 v2 u2 < DB \<and>
        (\<forall>q \<le> ?H div v1. q * (v1 * DB + v2) \<le> ?H * DB + u2 \<longrightarrow>
           q \<le> qhat_loop (?H div v1) (?H mod v1) v1 v2 u2)"
      using assms d m by (intro qhat_loop_spec) auto
    then show ?thesis unfolding qh [symmetric] using ql by (auto simp: H3_def W_def)
  qed
  then show "qh * W \<le> H3" "qh < DB" "q < DB \<Longrightarrow> q * W \<le> H3 \<Longrightarrow> q \<le> qh" by auto
qed

section \<open>One round\<close>

text \<open>The guess is the quotient digit or one more.\<close>

lemma qhat_bounds:
  assumes us: "digs us" and vs: "digs vs" and n: "2 \<le> n" "uj + n < 5" "v + n < 5"
    and norm: "0 < vs ! (v + 1)"
  defines "N \<equiv> seg us uj (Suc n)" and "V \<equiv> seg vs (v + 1) n"
  assumes NV: "N < DB * V"
  defines "qh \<equiv> qhat_guess (us ! uj) (us ! (uj + 1)) (us ! (uj + 2)) (vs ! (v + 1)) (vs ! (v + 2))"
  shows "N div V \<le> qh" "qh \<le> N div V + 1" "qh < DB" "0 < V"
proof -
  obtain k where k: "n = Suc (Suc k)" using n(1) by (metis add_2_eq_Suc le_Suc_ex)
  let ?u0 = "us ! uj" and ?u1 = "us ! (uj + 1)" and ?u2 = "us ! (uj + 2)"
  let ?v1 = "vs ! (v + 1)" and ?v2 = "vs ! (v + 2)"
  let ?H3 = "(?u0 * DB + ?u1) * DB + ?u2" and ?W = "?v1 * DB + ?v2" and ?P = "DB ^ k"
  have d: "?u0 < DB" "?u1 < DB" "?u2 < DB" "?v1 < DB" "?v2 < DB"
    using us vs n by (auto intro: digs_nth)
  have N: "N = ?H3 * ?P + seg us (uj + 3) k" and ul: "seg us (uj + 3) k < ?P"
    unfolding N_def k using us n k
    by (simp_all add: seg_front algebra_simps numeral_3_eq_3 seg_less del: seg.simps)
  have V: "V = ?W * ?P + seg vs (v + 3) k" and vl: "seg vs (v + 3) k < ?P"
    unfolding V_def k using vs n k
    by (simp_all add: seg_front algebra_simps numeral_3_eq_3 seg_less del: seg.simps)
  have P: "0 < ?P" by simp
  have WV: "?W * ?P \<le> V" "V < (?W + 1) * ?P" using V vl by (simp_all add: algebra_simps)
  have HN: "?H3 * ?P \<le> N" "N < (?H3 + 1) * ?P" using N ul by (simp_all add: algebra_simps)
  have Vbig: "DB * ?P \<le> V"
  proof -
    have "DB \<le> ?W" using norm by (cases "vs ! (v + 1)") auto
    then have "DB * ?P \<le> ?W * ?P" by (rule mult_le_mono1)
    also note WV(1)
    finally show ?thesis .
  qed
  show V0: "0 < V" using Vbig P by (metis DB_pos(1) less_le_trans mult_pos_pos)
  have u0: "?u0 \<le> ?v1"
  proof (rule ccontr)
    assume "\<not> ?u0 \<le> ?v1"
    then have "(?v1 + 1) * (DB * DB * ?P) \<le> ?u0 * (DB * DB * ?P)" by (intro mult_le_mono1) simp
    also have "\<dots> \<le> ?H3 * ?P" by (simp add: algebra_simps)
    also have "\<dots> < DB * ((?W + 1) * ?P)"
      using HN(1) NV WV(2) by (metis DB_pos(1) less_trans mult_less_mono2 order_le_less_trans)
    finally have "(?v1 + 1) * DB * (DB * ?P) < (?W + 1) * (DB * ?P)" by (simp add: algebra_simps)
    then have "(?v1 + 1) * DB < ?W + 1" by (simp only: mult_less_cancel2)
    then show False using d(5) by (simp add: algebra_simps)
  qed
  note g = qhat_guess_spec [OF u0 d(2,3,4) norm d(5), folded qh_def]
  show "qh < DB" by (rule g(2))
  let ?q = "N div V"
  have qV: "?q * V \<le> N" by simp
  show "?q \<le> qh"
  proof (rule g(3))
    show "?q < DB" using NV by (simp add: less_mult_imp_div_less)
    have "?q * ?W * ?P \<le> ?q * V" using WV(1) by (simp add: mult.assoc)
    also have "\<dots> < (?H3 + 1) * ?P" using qV HN(2) by linarith
    finally have "?q * ?W < ?H3 + 1" by (simp only: mult_less_cancel2)
    then show "?q * ?W \<le> ?H3" by simp
  qed
  show "qh \<le> ?q + 1"
  proof (cases qh)
    case (Suc h)
    have "qh * V \<le> qh * ((?W + 1) * ?P)" using WV(2) by (intro mult_le_mono2) simp
    also have "\<dots> = qh * ?W * ?P + qh * ?P" by (simp add: algebra_simps)
    also have "\<dots> \<le> ?H3 * ?P + qh * ?P" using g(1) by (simp add: mult_le_mono1)
    also have "\<dots> < N + V"
    proof -
      have "qh * ?P < DB * ?P" using g(2) P by simp
      with Vbig HN(1) show ?thesis by linarith
    qed
    finally have "h * V < N" using Suc by simp
    then have "h \<le> N div V" using V0 by (simp add: less_eq_div_iff_mult_less_eq)
    with Suc show ?thesis by simp
  qed simp
qed

lemma digit_borrow:
  assumes "- int DB < y" "y < 0"
  defines "T \<equiv> nat (y mod 2 ^ 32)"
  shows "HIGH T \<noteq> 0" "int (LOW T) = y + int DB"
proof -
  have "(y + 2 ^ 32) mod 2 ^ 32 = y + 2 ^ 32"
    using assms(1,2) by (intro mod_pos_pos_trivial) (simp_all add: DB_def)
  then have "y mod 2 ^ 32 = y + 2 ^ 32" by (simp only: mod_add_self2)
  then have T: "int T = y + 2 ^ 32" using assms by (simp add: T_def DB_def)
  then show "HIGH T \<noteq> 0" using assms(1) by (simp add: HIGH_def DB_def div_eq_0_iff)
  have "int (LOW T) = (y + 2 ^ 32) mod 65536" using T by (simp add: LOW_def DB_def zmod_int)
  also have "\<dots> = (y + 65536 + 65535 * 65536) mod 65536" by (simp add: add.commute)
  also have "\<dots> = (y + 65536) mod 65536" by (simp only: mod_mult_self1)
  also have "\<dots> = y + 65536" using assms(1,2) by (intro mod_pos_pos_trivial) (simp_all add: DB_def)
  finally show "int (LOW T) = y + int DB" by (simp add: DB_def)
qed

lemma small_multiple_0:
  fixes a b r :: int
  assumes "a * P + b = r" "0 \<le> b" "b < P" "0 \<le> r" "r < P"
  shows "a = 0"
proof (rule ccontr)
  assume "a \<noteq> 0"
  then consider "1 \<le> a" | "a \<le> - 1" by linarith
  then show False
  proof cases
    case 1
    then have "1 * P \<le> a * P" using assms(2,3) by (intro mult_right_mono) auto
    with assms show False by linarith
  next
    case 2
    then have "a * P \<le> - 1 * P" using assms(2,3) by (intro mult_right_mono) auto
    with assms show False by linarith
  qed
qed

lemma qstep_spec:
  assumes us: "digs us" and vs: "digs vs" and n: "2 \<le> n" "uj + n < 5" "v + n < 5"
    and norm: "0 < vs ! (v + 1)"
  defines "N \<equiv> seg us uj (Suc n)" and "V \<equiv> seg vs (v + 1) n"
  assumes NV: "N < DB * V"
  shows "\<exists>us'. qstep us vs uj v n = Inr (us', N div V) \<and> digs us' \<and> us' ! uj = 0 \<and>
    seg us' (uj + 1) n = N mod V \<and> (\<forall>k. k < uj \<or> uj + n < k \<longrightarrow> us' ! k = us ! k)"
proof -
  define qh where "qh = qhat_guess (us ! uj) (us ! (uj + 1)) (us ! (uj + 2)) (vs ! (v + 1)) (vs ! (v + 2))"
  note qb = qhat_bounds [OF us vs n norm NV [unfolded N_def V_def], folded qh_def N_def V_def]
  obtain us1 t where m: "qmsub us vs uj v qh 0 n = Inr (us1, t)" "digs us1" "t < DB"
    "\<forall>k. k \<le> uj \<or> uj + n < k \<longrightarrow> us1 ! k = us ! k"
    "int (seg us1 (uj + 1) n) - int t * int DB ^ n = int (seg us (uj + 1) n) - int qh * int V"
    using qmsub_spec [OF us vs n(2,3) qb(3), of 0] by (auto simp: V_def)
  define y where "y = int (us ! uj) - int t"
  define T where "T = nat (y mod 2 ^ 32)"
  have "us ! uj < DB" using us n by (intro digs_nth) auto
  then have y: "y < int DB" "- int DB < y" using m(3) by (simp_all add: y_def)
  have sum: "int N - int qh * int V = y * int DB ^ n + int (seg us1 (uj + 1) n)"
    using m(5) unfolding N_def seg_front y_def by (simp add: algebra_simps)
  have s1: "seg us1 (uj + 1) n < DB ^ n" using m(2) n by (intro seg_less) auto
  have "V < DB ^ n" unfolding V_def using vs n by (intro seg_less) auto
  then have rm: "N mod V < DB ^ n" using qb(4) mod_less_divisor [of V N] by linarith
  have qs: "qstep us vs uj v n = (let us2 = us1[uj := LOW T] in if HIGH T \<noteq> 0 then
              rbind (qaddback us2 vs uj v 0 n) (\<lambda>(us, t).
              rbind (rd us uj) (\<lambda>ud. Inr (us[uj := LOW (ud + t)], qh - 1)))
            else Inr (us2, qh))"
  proof -
    have "qhat_guess (us ! uj) (us ! Suc uj) (us ! Suc (Suc uj)) (vs ! Suc v) (vs ! Suc (Suc v)) = qh"
      by (simp add: qh_def)
    with us vs n m(1,2,4) show ?thesis by (simp add: qstep_def Let_def T_def y_def)
  qed
  show ?thesis
  proof (cases "0 \<le> y")
    case True
    have T: "int T = y" using True y by (simp add: T_def DB_def)
    then have lh: "LOW T = T" "HIGH T = 0" using y by (simp_all add: LOW_def HIGH_def)
    have "0 \<le> int N - int qh * int V" unfolding sum using True by simp
    then have "qh * V \<le> N" by (simp flip: of_nat_mult)
    then have "qh \<le> N div V" using qb(4) by (simp add: less_eq_div_iff_mult_less_eq)
    then have q: "qh = N div V" using qb(1) by simp
    then have r: "int (N mod V) = y * int DB ^ n + int (seg us1 (uj + 1) n)"
      using sum by (simp add: minus_div_mult_eq_mod [symmetric] zdiv_int zmod_int)
    have y0: "y = 0"
      by (rule small_multiple_0 [OF r [symmetric]])
         (use s1 rm in \<open>auto simp flip: of_nat_power\<close>)
    with T lh have us2: "qstep us vs uj v n = Inr (us1[uj := 0], N div V)" using q by (simp add: qs Let_def)
    have "seg (us1[uj := 0]) (uj + 1) n = N mod V" using r y0 by (simp add: seg_update)
    with us2 m(2,4) n show ?thesis by (auto intro!: digs_update simp: nth_list_update)
  next
    case False
    then have y': "- int DB < y" "y < 0" using y by auto
    note T = digit_borrow [OF y', folded T_def]
    let ?us2 = "us1[uj := LOW T]"
    have d2: "digs ?us2" using m(2) by (intro digs_update) auto
    obtain us3 c where a: "qaddback ?us2 vs uj v 0 n = Inr (us3, c)" "digs us3" "c \<le> 1"
      "\<forall>k. k \<le> uj \<or> uj + n < k \<longrightarrow> us3 ! k = ?us2 ! k"
      "seg us3 (uj + 1) n + c * DB ^ n = seg us1 (uj + 1) n + V"
      using qaddback_spec [OF d2 vs n(2,3), of 0] by (auto simp: V_def seg_update)
    have "int N - int qh * int V < 0"
    proof -
      have "y * int DB ^ n \<le> - 1 * int DB ^ n" using y'(2) by (intro mult_right_mono) auto
      then show ?thesis unfolding sum using s1 by (simp flip: of_nat_power)
    qed
    then have "N < qh * V" by (simp flip: of_nat_mult)
    then have "\<not> qh \<le> N div V" using qb(4) by (simp add: less_eq_div_iff_mult_less_eq)
    then have q: "qh = N div V + 1" using qb(2) by simp
    have r: "(y + int c) * int DB ^ n + int (seg us3 (uj + 1) n) = int (N mod V)"
    proof -
      have "int (seg us3 (uj + 1) n) + int c * int DB ^ n = int (seg us1 (uj + 1) n) + int V"
        using a(5) by (metis of_nat_add of_nat_mult of_nat_power)
      moreover have "int (N mod V) = int N - int (N div V) * int V"
        by (simp add: minus_div_mult_eq_mod [symmetric] zdiv_int zmod_int)
      ultimately show ?thesis using sum q by (simp add: algebra_simps)
    qed
    have s3: "seg us3 (uj + 1) n < DB ^ n" using a(2) n by (intro seg_less) auto
    have yc: "y + int c = 0"
      by (rule small_multiple_0 [OF r])
         (use s3 rm in \<open>auto simp flip: of_nat_power\<close>)
    have "us3 ! uj = LOW T" using a(4) m(2) n by simp
    then have "int (us3 ! uj + c) = int DB" using T(2) yc by simp
    then have "LOW (us3 ! uj + c) = 0" by (simp add: LOW_def del: of_nat_add)
    then have us2: "qstep us vs uj v n = Inr (us3[uj := 0], N div V)"
      using T(1) a(1,2) q n by (simp add: qs Let_def)
    have "seg (us3[uj := 0]) (uj + 1) n = N mod V" using r yc by (simp add: seg_update)
    with us2 a(2,4) m(4) n show ?thesis by (auto intro!: digs_update simp: nth_list_update)
  qed
qed

section \<open>The loop over the quotient digits\<close>

definition qloop_post ::
  "nat list \<Rightarrow> nat list \<Rightarrow> nat \<Rightarrow> nat \<Rightarrow> nat \<Rightarrow> nat \<Rightarrow> nat \<Rightarrow> nat \<Rightarrow> nat list \<Rightarrow> nat list \<Rightarrow> bool" where
  "qloop_post us qs u q n m j V us' qs' \<longleftrightarrow> digs us' \<and> length qs' = 5 \<and>
    (\<forall>k. q + j \<le> k \<and> k \<le> q + m \<longrightarrow> qs' ! k < DB) \<and>
    seg qs' (q + j) (Suc (m - j)) = seg us (u + j) (Suc (n + (m - j))) div V \<and>
    seg us' (u + m + 1) n = seg us (u + j) (Suc (n + (m - j))) mod V \<and>
    (\<forall>k. u + j \<le> k \<and> k \<le> u + m \<longrightarrow> us' ! k = 0) \<and>
    (\<forall>k. k < u + j \<longrightarrow> us' ! k = us ! k) \<and> (\<forall>k. k < q + j \<longrightarrow> qs' ! k = qs ! k)"

lemma qloop_spec:
  assumes us: "digs us" and vs: "digs vs" and n: "2 \<le> n" "u + m + n < 5" "v + n < 5"
    and q: "length qs = 5" "q + m < 5" and norm: "0 < vs ! (v + 1)" and j: "j \<le> m"
    and V: "V = seg vs (v + 1) n" "0 < V" and NV: "seg us (u + j) (Suc n) < DB * V"
  shows "\<exists>us' qs'. qloop us vs qs u v q n m j = Inr (us', qs') \<and> qloop_post us qs u q n m j V us' qs'"
  using us q(1) j NV
proof (induction "m - j" arbitrary: j us qs)
  case 0
  then have j: "j = m" by simp
  let ?N = "seg us (u + j) (Suc n)"
  have "\<exists>us'. qstep us vs (u + j) v n = Inr (us', ?N div V) \<and> digs us' \<and> us' ! (u + j) = 0 \<and>
    seg us' (u + j + 1) n = ?N mod V \<and> (\<forall>k. k < u + j \<or> u + j + n < k \<longrightarrow> us' ! k = us ! k)"
    unfolding V(1) using 0 n j V norm vs by (intro qstep_spec) auto
  then obtain us' where s: "qstep us vs (u + j) v n = Inr (us', ?N div V)" "digs us'" "us' ! (u + j) = 0"
    "seg us' (u + j + 1) n = ?N mod V" "\<forall>k. k < u + j \<or> u + j + n < k \<longrightarrow> us' ! k = us ! k" by blast
  have "?N div V < DB" using "0.prems"(4) by (simp add: less_mult_imp_div_less)
  then have low: "LOW (?N div V) = ?N div V" by (simp add: LOW_def)
  have "qloop us vs qs u v q n m j = Inr (us', qs[q + j := ?N div V])"
    using s(1) j q(2) "0.prems"(2) low by (subst qloop.simps) simp
  moreover have "qloop_post us qs u q n m j V us' (qs[q + j := ?N div V])"
    using s j "0.prems"(2) q(2) \<open>?N div V < DB\<close> by (auto simp: qloop_post_def le_antisym)
  ultimately show ?case by blast
next
  case (Suc x)
  then have j: "j < m" "x = m - Suc j" "m - j = Suc (m - Suc j)" by simp_all
  let ?N = "seg us (u + j) (Suc n)" and ?k = "m - j"
  have "\<exists>us'. qstep us vs (u + j) v n = Inr (us', ?N div V) \<and> digs us' \<and> us' ! (u + j) = 0 \<and>
    seg us' (u + j + 1) n = ?N mod V \<and> (\<forall>k. k < u + j \<or> u + j + n < k \<longrightarrow> us' ! k = us ! k)"
    unfolding V(1) using Suc.prems n j V norm vs by (intro qstep_spec) auto
  then obtain us1 where s: "qstep us vs (u + j) v n = Inr (us1, ?N div V)" "digs us1" "us1 ! (u + j) = 0"
    "seg us1 (u + j + 1) n = ?N mod V" "\<forall>k. k < u + j \<or> u + j + n < k \<longrightarrow> us1 ! k = us ! k" by blast
  have qd: "?N div V < DB" using Suc.prems(4) by (simp add: less_mult_imp_div_less)
  then have low: "LOW (?N div V) = ?N div V" by (simp add: LOW_def)
  let ?qs = "qs[q + j := ?N div V]"
  have step: "qloop us vs qs u v q n m j = qloop us1 vs ?qs u v q n m (Suc j)"
    using s(1) j q(2) Suc.prems(2) low by (subst qloop.simps) simp
  let ?R = "seg us (u + j + 1 + n) ?k" and ?X' = "seg us1 (u + Suc j) (n + ?k)"
  have tail: "seg us1 (u + j + 1 + n) ?k = ?R" using s(5) by (intro seg_cong) auto
  have X: "seg us (u + j) (Suc (n + ?k)) = ?N * DB ^ ?k + ?R"
    using seg_split [of us "u + j" "Suc n" ?k] by simp
  have X': "?X' = (?N mod V) * DB ^ ?k + ?R"
    using seg_split [of us1 "u + Suc j" n ?k] s(4) tail by simp
  have XX: "seg us (u + j) (Suc (n + ?k)) = (?N div V) * DB ^ ?k * V + ?X'"
  proof -
    have dist: "(a * V + b) * P = a * P * V + b * P" for a b P :: nat by (simp add: algebra_simps)
    have "?N * DB ^ ?k = (?N div V * V + ?N mod V) * DB ^ ?k" by simp
    then show ?thesis unfolding dist X X' by simp
  qed
  have "seg us1 (u + Suc j) (Suc n) < DB * V"
  proof -
    have "us1 ! (u + Suc j + n) < DB" using s(2) n j by (intro digs_nth) auto
    moreover have "?N mod V + 1 \<le> V" using mod_less_divisor [OF V(2), of ?N] by linarith
    then have "(?N mod V + 1) * DB \<le> V * DB" by (rule mult_le_mono1)
    ultimately show ?thesis using s(4) by (simp add: algebra_simps)
  qed
  from Suc.hyps(1) [OF j(2) s(2) _ _ this, of ?qs] Suc.prems(2) j(1) obtain us' qs' where
    r: "qloop us1 vs ?qs u v q n m (Suc j) = Inr (us', qs')" "qloop_post us1 ?qs u q n m (Suc j) V us' qs'"
    by auto
  have nk: "Suc (n + (m - Suc j)) = n + ?k" using j by simp
  have r2: "digs us'" "length qs' = 5" "\<forall>k. q + Suc j \<le> k \<and> k \<le> q + m \<longrightarrow> qs' ! k < DB"
    "seg qs' (q + Suc j) ?k = ?X' div V" "seg us' (u + m + 1) n = ?X' mod V"
    "\<forall>k. u + Suc j \<le> k \<and> k \<le> u + m \<longrightarrow> us' ! k = 0" "\<forall>k. k < u + Suc j \<longrightarrow> us' ! k = us1 ! k"
    "\<forall>k. k < q + Suc j \<longrightarrow> qs' ! k = ?qs ! k"
    using r(2) unfolding qloop_post_def nk j(3) [symmetric] by auto
  have qj: "qs' ! (q + j) = ?N div V" using r2(8) Suc.prems(2) q(2) j by simp
  have zero: "us' ! k = 0" if "u + j \<le> k" "k \<le> u + m" for k
    using that r2(6,7) s(3) by (cases "k = u + j") auto
  have "seg qs' (q + j) (Suc ?k) = (?N div V) * DB ^ ?k + ?X' div V"
    unfolding seg_front qj using r2(4) by simp
  also have "\<dots> = seg us (u + j) (Suc (n + ?k)) div V" unfolding XX using V(2) by simp
  finally have "seg qs' (q + j) (Suc ?k) = seg us (u + j) (Suc (n + ?k)) div V" .
  moreover have "seg us' (u + m + 1) n = seg us (u + j) (Suc (n + ?k)) mod V"
    unfolding XX r2(5) by simp
  moreover have "\<forall>k. q + j \<le> k \<and> k \<le> q + m \<longrightarrow> qs' ! k < DB"
    using r2(3) qj qd by (metis Suc_leI add_Suc_right le_neq_implies_less)
  ultimately have "qloop_post us qs u q n m j V us' qs'"
    using r2(1,2,7,8) zero s(5) unfolding qloop_post_def by auto
  then show ?case using step r(1) by auto
qed

section \<open>Shifts\<close>

lemma DB_pow: "sh \<le> 16 \<Longrightarrow> DB = 2 ^ sh * 2 ^ (16 - sh)"
  by (simp add: DB_def flip: power_add)

lemma shl_digit:
  assumes "b < DB" "0 < sh" "sh < 16"
  shows "LOW (a * 2 ^ sh) OR (b div 2 ^ (16 - sh)) = (a * 2 ^ sh + b div 2 ^ (16 - sh)) mod DB"
    "b div 2 ^ (16 - sh) < 2 ^ sh"
proof -
  have DB: "DB = 2 ^ (16 - sh) * 2 ^ sh" using DB_pow [of sh] assms by (simp add: mult.commute)
  show c: "b div 2 ^ (16 - sh) < 2 ^ sh"
    using assms(1) unfolding DB by (simp add: less_mult_imp_div_less mult.commute)
  let ?c = "b div 2 ^ (16 - sh)" and ?a = "a mod 2 ^ (16 - sh)"
  have low: "LOW (a * 2 ^ sh) = ?a * 2 ^ sh" unfolding LOW_def DB by (simp add: mult_mod_left)
  have "(?a + 1) * 2 ^ sh \<le> 2 ^ (16 - sh) * 2 ^ sh" by (intro mult_le_mono1) (simp add: Suc_leI)
  then have lt: "?a * 2 ^ sh + ?c < DB" using c unfolding DB by (simp add: algebra_simps)
  have "(a * 2 ^ sh + ?c) mod DB = (a * 2 ^ sh mod DB + ?c) mod DB" by (simp add: mod_add_left_eq)
  also have "\<dots> = ?a * 2 ^ sh + ?c" using low lt by (simp add: LOW_def)
  finally show "LOW (a * 2 ^ sh) OR ?c = (a * 2 ^ sh + ?c) mod DB"
    unfolding low using c by (simp add: or_shift)
qed

lemma mod_digits: "P \<noteq> 0 \<Longrightarrow> (x * P + y) mod (DB * P) = (x + y div P) mod DB * P + y mod (P::nat)"
proof -
  assume "P \<noteq> 0"
  have "x * P + y = P * (x + y div P) + y mod P" by (simp add: algebra_simps)
  also have "\<dots> mod (DB * P) = P * ((x + y div P) mod DB) + y mod P"
    using \<open>P \<noteq> 0\<close> mod_mult2_eq [of "P * (x + y div P) + y mod P" P DB]
    by (simp add: mult.commute [of DB P])
  finally show ?thesis by (simp add: mult.commute)
qed

lemma shl_spec:
  assumes xs: "digs xs" and p: "p + len < 5" and sh: "0 < sh" "sh < 16" and i: "i \<le> len"
  shows "\<exists>xs'. shl xs p len sh i = Inr xs' \<and> digs xs' \<and>
    seg xs' (p + i) (Suc (len - i)) = seg xs (p + i) (Suc (len - i)) * 2 ^ sh mod DB ^ Suc (len - i) \<and>
    (\<forall>k. k < p + i \<or> p + len < k \<longrightarrow> xs' ! k = xs ! k)"
  using xs i
proof (induction "len - i" arbitrary: i xs)
  case 0
  then have "i = len" by simp
  with 0 p show ?case by (subst shl.simps) (auto simp: LOW_def intro!: digs_update)
next
  case (Suc x)
  then have i: "i < len" "x = len - Suc i" by simp_all
  let ?k = "len - i" and ?a = "xs ! (p + i)" and ?b = "xs ! (p + i + 1)"
  have b: "?b < DB" using Suc.prems(1) p i by (intro digs_nth) auto
  let ?d = "LOW (?a * 2 ^ sh) OR (?b div 2 ^ (16 - sh))"
  note d = shl_digit(1) [OF b sh, of ?a]
  have dd: "digs (xs[p + i := ?d])" using Suc.prems(1) unfolding d by (intro digs_update) auto
  have k: "Suc (len - Suc i) = ?k" using i by simp
  have "\<exists>xs'. shl (xs[p + i := ?d]) p len sh (Suc i) = Inr xs' \<and> digs xs' \<and>
    seg xs' (p + Suc i) ?k = seg (xs[p + i := ?d]) (p + Suc i) ?k * 2 ^ sh mod DB ^ ?k \<and>
    (\<forall>k. k < p + Suc i \<or> p + len < k \<longrightarrow> xs' ! k = xs[p + i := ?d] ! k)"
    using Suc.hyps(1) [OF i(2) dd] i unfolding k by simp
  then obtain xs' where r: "shl (xs[p + i := ?d]) p len sh (Suc i) = Inr xs'" "digs xs'"
    "seg xs' (p + Suc i) ?k = seg xs (p + Suc i) ?k * 2 ^ sh mod DB ^ ?k"
    "\<forall>k. k < p + Suc i \<or> p + len < k \<longrightarrow> xs' ! k = xs[p + i := ?d] ! k"
    by (auto simp: seg_update)
  let ?Y = "seg xs (p + Suc i) ?k"
  have Yd: "?Y * 2 ^ sh div DB ^ ?k = ?b div 2 ^ (16 - sh)"
  proof -
    obtain l where l: "?k = Suc l" using i by (cases ?k) auto
    have Z: "?Y = ?b * DB ^ l + seg xs (p + Suc (Suc i)) l" "seg xs (p + Suc (Suc i)) l < DB ^ l"
      unfolding l seg_front using Suc.prems(1) p i l by (auto intro!: seg_less)
    have "?Y * 2 ^ sh div DB ^ ?k = ?Y * 2 ^ sh div (DB ^ l * 2 ^ (16 - sh) * 2 ^ sh)"
      unfolding l using DB_pow [of sh] sh by (simp add: ac_simps)
    also have "\<dots> = ?Y div (DB ^ l * 2 ^ (16 - sh))" by simp
    also have "\<dots> = ?Y div DB ^ l div 2 ^ (16 - sh)" by (rule div_mult2_eq)
    also have "?Y div DB ^ l = ?b" unfolding Z(1) using Z(2) by simp
    finally show ?thesis .
  qed
  have nth: "xs' ! (p + i) = ?d" using r(4) Suc.prems(1) p i by simp
  have "seg xs (p + i) (Suc ?k) * 2 ^ sh mod DB ^ Suc ?k = (?a * 2 ^ sh * DB ^ ?k + ?Y * 2 ^ sh) mod (DB * DB ^ ?k)"
    unfolding seg_front by (simp add: algebra_simps)
  also have "\<dots> = (?a * 2 ^ sh + ?b div 2 ^ (16 - sh)) mod DB * DB ^ ?k + ?Y * 2 ^ sh mod DB ^ ?k"
    by (subst mod_digits) (simp, simp only: Yd)
  also have "\<dots> = seg xs' (p + i) (Suc ?k)" unfolding seg_front nth d using r(3) by simp
  finally have "seg xs' (p + i) (Suc ?k) = seg xs (p + i) (Suc ?k) * 2 ^ sh mod DB ^ Suc ?k" by simp
  moreover have "shl xs p len sh i = Inr xs'"
    using i p Suc.prems(1) r(1) by (subst shl.simps) simp
  moreover have "xs' ! k = xs ! k" if "k < p + i \<or> p + len < k" for k
  proof -
    have "k < p + Suc i \<or> p + len < k" "k \<noteq> p + i" using that i by auto
    then have "xs' ! k = xs[p + i := ?d] ! k" using r(4) by blast
    then show ?thesis using \<open>k \<noteq> p + i\<close> by simp
  qed
  ultimately show ?case using r(2) by blast
qed

lemma qshr_digit:
  assumes "a < DB" "0 < d" "d < 16"
  shows "(a div 2 ^ d) OR LOW (b * 2 ^ (16 - d)) = (b mod 2 ^ d) * 2 ^ (16 - d) + a div 2 ^ d"
    "a div 2 ^ d < 2 ^ (16 - d)"
proof -
  have DB: "DB = 2 ^ d * 2 ^ (16 - d)" using DB_pow [of d] assms by simp
  show a: "a div 2 ^ d < 2 ^ (16 - d)"
    using assms(1) unfolding DB by (simp add: less_mult_imp_div_less mult.commute)
  have "LOW (b * 2 ^ (16 - d)) = (b mod 2 ^ d) * 2 ^ (16 - d)" unfolding LOW_def DB by (simp add: mult_mod_left)
  then show "(a div 2 ^ d) OR LOW (b * 2 ^ (16 - d)) = (b mod 2 ^ d) * 2 ^ (16 - d) + a div 2 ^ d"
    using or_shift [OF a, of "b mod 2 ^ d"] by (simp add: or.commute)
qed

lemma qshr_spec:
  assumes us: "digs us" and p: "u + m + k < 5" and d: "0 < d" "d < 16"
  shows "\<exists>us'. qshr us u m d (m + k) = Inr us' \<and> digs us' \<and> us' ! (u + m) = 0 \<and>
    seg us' (u + m + 1) k = (seg us (u + m) (Suc k) div 2 ^ d) mod DB ^ k \<and>
    (\<forall>j. j < u + m \<or> u + m + k < j \<longrightarrow> us' ! j = us ! j)"
  using us p
proof (induction k arbitrary: us)
  case 0
  then show ?case by (subst qshr.simps) (auto intro: digs_update)
next
  case (Suc k)
  let ?a = "us ! (u + m + Suc k)" and ?b = "us ! (u + m + k)" and ?i = "u + m + Suc k"
  have a: "?a < DB" "?b < DB" using Suc.prems by (auto intro: digs_nth)
  let ?d = "(?a div 2 ^ d) OR LOW (?b * 2 ^ (16 - d))"
  note sd = qshr_digit(1) [OF a(1) d, of ?b] and ad = qshr_digit(2) [OF a(1) d]
  have DB: "DB = 2 ^ d * 2 ^ (16 - d)" using DB_pow [of d] d by simp
  have dl: "?d < DB"
  proof -
    have "(?b mod 2 ^ d + 1) * 2 ^ (16 - d) \<le> 2 ^ d * 2 ^ (16 - d)"
      by (intro mult_le_mono1) (simp add: Suc_leI)
    then show ?thesis unfolding sd DB using ad by (simp add: algebra_simps)
  qed
  have "\<exists>us'. qshr (us[?i := ?d]) u m d (m + k) = Inr us' \<and> digs us' \<and> us' ! (u + m) = 0 \<and>
    seg us' (u + m + 1) k = (seg (us[?i := ?d]) (u + m) (Suc k) div 2 ^ d) mod DB ^ k \<and>
    (\<forall>j. j < u + m \<or> u + m + k < j \<longrightarrow> us' ! j = us[?i := ?d] ! j)"
    using Suc.prems dl by (intro Suc.IH) (auto intro: digs_update)
  then obtain us' where r: "qshr (us[?i := ?d]) u m d (m + k) = Inr us'" "digs us'" "us' ! (u + m) = 0"
    "seg us' (u + m + 1) k = (seg us (u + m) (Suc k) div 2 ^ d) mod DB ^ k"
    "\<forall>j. j < u + m \<or> u + m + k < j \<longrightarrow> us' ! j = us[?i := ?d] ! j"
    by (auto simp: seg_update)
  let ?S = "seg us (u + m) (Suc k)"
  have nth: "us' ! (u + m + 1 + k) = ?d" using r(5) Suc.prems by simp
  have Sm: "?S mod 2 ^ d = ?b mod 2 ^ d"
  proof -
    have "?S = 2 ^ d * (seg us (u + m) k * 2 ^ (16 - d)) + ?b" using DB by (simp add: ac_simps)
    then show ?thesis by (simp only: mod_mult_self4)
  qed
  have "seg us (u + m) (Suc (Suc k)) div 2 ^ d = ?S * 2 ^ (16 - d) + ?a div 2 ^ d"
  proof -
    have "seg us (u + m) (Suc (Suc k)) = 2 ^ d * (?S * 2 ^ (16 - d)) + ?a" using DB by (simp add: ac_simps)
    then show ?thesis by (simp only: div_mult_self4 power_not_zero numeral_neq_zero) simp
  qed
  also have "\<dots> = (?S div 2 ^ d) * DB + ?d"
  proof -
    have "?S * 2 ^ (16 - d) = (2 ^ d * (?S div 2 ^ d) + ?S mod 2 ^ d) * 2 ^ (16 - d)" by simp
    also have "\<dots> = (?S div 2 ^ d) * DB + (?b mod 2 ^ d) * 2 ^ (16 - d)"
      unfolding Sm DB by (simp only: distrib_right distrib_left ac_simps)
    finally show ?thesis unfolding sd by simp
  qed
  finally have "(seg us (u + m) (Suc (Suc k)) div 2 ^ d) mod DB ^ Suc k =
      ((?S div 2 ^ d) * DB + ?d) mod (DB * DB ^ k)" by simp
  also have "\<dots> = (?S div 2 ^ d) mod DB ^ k * DB + ?d"
    using dl mod_mult2_eq [of "?S div 2 ^ d * DB + ?d" DB "DB ^ k"] by (simp add: mult.commute)
  also have "\<dots> = seg us' (u + m + 1) (Suc k)" using r(4) nth by simp
  finally have "seg us' (u + m + 1) (Suc k) = (seg us (u + m) (Suc (Suc k)) div 2 ^ d) mod DB ^ Suc k" by simp
  moreover have "qshr us u m d (m + Suc k) = Inr us'"
    using Suc.prems r(1) by (subst qshr.simps) (simp add: ac_simps)
  ultimately show ?case using r(2,3,5) by auto
qed

lemma qnorm_spec:
  assumes "0 < t" "t < DB"
  shows "\<exists>d'. qnorm t d = Inr (d + d') \<and> d' < 16 \<and> t * 2 ^ d' < DB"
proof -
  have "\<exists>d'. qnorm t d = Inr (d + d') \<and> d' \<le> k \<and> t * 2 ^ d' < DB" if "DB div 2 \<le> t * 2 ^ k" "0 < t" "t < DB"
    for k t d
    using that
  proof (induction k arbitrary: t d)
    case 0
    then show ?case by (subst qnorm.simps) auto
  next
    case (Suc k)
    show ?case
    proof (cases "DB div 2 \<le> t")
      case True
      with Suc.prems show ?thesis by (subst qnorm.simps) auto
    next
      case False
      have "\<exists>d'. qnorm (t * 2) (d + 1) = Inr (d + 1 + d') \<and> d' \<le> k \<and> t * 2 * 2 ^ d' < DB"
        using Suc.prems False by (intro Suc.IH) (auto simp: DB_def)
      then obtain d' where "qnorm (t * 2) (d + 1) = Inr (d + 1 + d')" "d' \<le> k" "t * 2 * 2 ^ d' < DB" by blast
      with False Suc.prems show ?thesis
        by (subst qnorm.simps) (auto intro!: exI [of _ "Suc d'"])
    qed
  qed
  from this [of t 15 d] assms show ?thesis by (force simp: DB_def)
qed

lemma qskip_spec:
  assumes "length xs = 5" "p < k" "k < 5" "xs ! k \<noteq> 0"
  shows "\<exists>p'. qskip xs p = Inr p' \<and> p \<le> p' \<and> p' < 4 \<and> xs ! (p' + 1) \<noteq> 0 \<and> (\<forall>i. p < i \<and> i \<le> p' \<longrightarrow> xs ! i = 0)"
  using assms(2)
proof (induction "4 - p" arbitrary: p)
  case 0
  with assms(3) show ?case by simp
next
  case (Suc x)
  show ?case
  proof (cases "xs ! (p + 1) = 0")
    case False
    with Suc.prems assms show ?thesis by (subst qskip.simps) auto
  next
    case True
    then have "p + 1 < k" using Suc.prems assms(4) by (cases "k = p + 1") auto
    have x: "x = 4 - (p + 1)" using Suc.hyps(2) by simp
    from Suc.hyps(1) [OF x \<open>p + 1 < k\<close>] obtain p' where r: "qskip xs (p + 1) = Inr p'" "p + 1 \<le> p'" "p' < 4"
      "xs ! (p' + 1) \<noteq> 0" "\<forall>i. p + 1 < i \<and> i \<le> p' \<longrightarrow> xs ! i = 0" by blast
    have "xs ! i = 0" if "p < i" "i \<le> p'" for i using that r(5) True by (cases "i = p + 1") auto
    with True r(1-4) Suc.prems assms show ?thesis by (subst qskip.simps) auto
  qed
qed

end
