(* ===== verification/Quad.thy ===== *)
theory Quad
  imports Kern_Prelude
begin

text \<open>
  The 64-bit arithmetic of \<open>sys/libkern\<close> for machines with 32-bit longs: \<open>quad_t\<close> is a 64-bit word,
  \<open>u_long\<close> a 32-bit word, and the union \<open>uu\<close> the view of a quad as its two longs.  This theory holds
  the routines that work on the two halves, and shows that each is the operation on the whole quad;
  the division is in its own theory.
\<close>

unbundle bit_operations_syntax

type_synonym u_long = "32 word"
type_synonym quad = "64 word"

section \<open>The two halves of a quad\<close>

definition ulH :: "quad \<Rightarrow> u_long" where
  "ulH q = ucast (drop_bit 32 q)"

definition ulL :: "quad \<Rightarrow> u_long" where
  "ulL q = ucast q"

definition uu :: "u_long \<Rightarrow> u_long \<Rightarrow> quad" where
  "uu h l = push_bit 32 (ucast h) OR ucast l"

definition HHALF :: "u_long \<Rightarrow> u_long" where
  "HHALF x = drop_bit 16 x"

definition LHALF :: "u_long \<Rightarrow> u_long" where
  "LHALF x = x AND (push_bit 16 1 - 1)"

definition LHUP :: "u_long \<Rightarrow> u_long" where
  "LHUP x = push_bit 16 x"

text \<open>A C comparison used as a number.\<close>

abbreviation cbool :: "bool \<Rightarrow> 'a::zero_neq_one" where
  "cbool b \<equiv> of_bool b"

lemma uu_halves [simp]: "uu (ulH q) (ulL q) = q"
  unfolding uu_def ulH_def ulL_def by (rule bit_eqI) (auto simp: bit_simps)

lemma ulH_uu [simp]: "ulH (uu h l) = h" and ulL_uu [simp]: "ulL (uu h l) = l"
proof -
  have l: "\<not> bit l n" if "32 \<le> n" for n using bit_imp_le_length [of l n] that by auto
  show "ulH (uu h l) = h"
    unfolding uu_def ulH_def by (rule bit_eqI) (auto simp: bit_simps l)
  show "ulL (uu h l) = l"
    unfolding uu_def ulL_def by (rule bit_eqI) (auto simp: bit_simps)
qed

lemma uu_add_halves: "uu h l = push_bit 32 (ucast h) + ucast l"
proof -
  have l: "\<not> bit l n" if "32 \<le> n" for n using bit_imp_le_length [of l n] that by auto
  have "push_bit 32 (ucast h) AND ucast l = (0::quad)" by (rule bit_eqI) (auto simp: bit_simps l)
  then show ?thesis unfolding uu_def by (simp add: disjunctive_add_eq_or)
qed

lemma unat_u_long: "unat (x :: u_long) < 2 ^ 32"
  using unsigned_less [of x, where ?'a = nat] by simp

lemma unat_quad: "unat (x :: quad) < 2 ^ 64"
  using unsigned_less [of x, where ?'a = nat] by simp

lemma unat_up [simp]: "unat (ucast (x :: u_long) :: quad) = unat x"
  using unat_u_long [of x] by (simp add: unsigned_ucast_eq take_bit_nat_eq_self_iff)

lemma unat_uu: "unat (uu h l) = unat h * 2 ^ 32 + unat l"
proof -
  have "unat h * 2 ^ 32 + unat l < 2 ^ 64" using unat_u_long [of h] unat_u_long [of l] by simp
  moreover have "uu h l = of_nat (unat h * 2 ^ 32 + unat l)"
    by (simp add: uu_add_halves push_bit_eq_mult)
  ultimately show ?thesis by (simp only: unat_of_nat) simp
qed

lemma unat_ulH: "unat (ulH q) = unat q div 2 ^ 32" and unat_ulL: "unat (ulL q) = unat q mod 2 ^ 32"
proof -
  have q: "unat q = unat (ulH q) * 2 ^ 32 + unat (ulL q)" using unat_uu [of "ulH q" "ulL q"] by simp
  have "unat (ulL q) < 2 ^ 32" by (rule unat_u_long)
  with q show "unat (ulH q) = unat q div 2 ^ 32" "unat (ulL q) = unat q mod 2 ^ 32" by simp_all
qed

lemma quad_eqI: "ulH a = ulH b \<Longrightarrow> ulL a = ulL b \<Longrightarrow> a = b"
  by (metis uu_halves)

section \<open>Addition, subtraction, negation\<close>

definition adddi3 :: "quad \<Rightarrow> quad \<Rightarrow> quad" where
  "adddi3 a b =
     (let l = ulL a + ulL b; h = ulH a + ulH b + cbool (l < ulL b) in uu h l)"

definition subdi3 :: "quad \<Rightarrow> quad \<Rightarrow> quad" where
  "subdi3 a b =
     (let l = ulL a - ulL b; h = ulH a - ulH b - cbool (ulL a < l) in uu h l)"

definition negdi2 :: "quad \<Rightarrow> quad" where
  "negdi2 a = (let l = - ulL a; h = - ulH a - cbool (0 < l) in uu h l)"

text \<open>The high half as a quad: a homomorphism of the ring of longs into the quads.\<close>

definition emb :: "u_long \<Rightarrow> quad" where
  "emb x = push_bit 32 (ucast x)"

lemma uu_emb: "uu h l = emb h + ucast l"
  by (simp add: uu_add_halves emb_def)

lemma emb_unat: "emb x = of_nat (2 ^ 32 * unat x)"
  by (simp add: emb_def push_bit_eq_mult mult.commute)

lemma emb_of_nat: "emb (of_nat n) = of_nat (2 ^ 32 * n)"
proof -
  have "2 ^ 32 * (n mod 2 ^ 32) = 2 ^ 32 * n mod (2 ^ 64 :: nat)"
    by (simp add: mult_mod_right)
  then have "of_nat (2 ^ 32 * (n mod 2 ^ 32)) = (of_nat (2 ^ 32 * n) :: quad)"
    unfolding word_of_nat_eq_iff by (simp add: take_bit_eq_mod)
  then show ?thesis by (simp only: emb_unat unat_of_nat) simp
qed

lemma emb_add: "emb (x + y) = emb x + emb y"
proof -
  have "emb (of_nat (unat x) + of_nat (unat y)) = emb (of_nat (unat x)) + emb (of_nat (unat y))"
    by (simp only: of_nat_add [symmetric] emb_of_nat distrib_left)
  then show ?thesis by simp
qed

lemma emb_0 [simp]: "emb 0 = 0"
  by (simp add: emb_def)

lemma emb_minus: "emb (- x) = - emb x"
  using emb_add [of x "- x"] by (simp add: eq_neg_iff_add_eq_0 add.commute)

lemma emb_diff: "emb (x - y) = emb x - emb y"
  using emb_add [of x "- y"] by (simp add: emb_minus)

lemma emb_mult: "emb (x * y) = emb x * ucast y"
proof -
  have "emb (of_nat (unat x) * of_nat (unat y)) = emb (of_nat (unat x)) * of_nat (unat y)"
    by (simp only: of_nat_mult [symmetric] emb_of_nat mult.assoc)
  then show ?thesis by simp
qed

lemma ucast_carry: "ucast l + ucast l' = (ucast (l + l') + emb (cbool (l + l' < l')) :: quad)"
  for l l' :: u_long
proof -
  note lt = unat_u_long [of l] unat_u_long [of l']
  have "unat l + unat l' = unat (l + l') + (if l + l' < l' then 2 ^ 32 else 0)"
    using lt by (auto simp: word_less_nat_alt unat_plus_if')
  then have "of_nat (unat l + unat l') = (of_nat (unat (l + l') + (if l + l' < l' then 2 ^ 32 else 0)) :: quad)"
    by (rule arg_cong)
  then show ?thesis by (simp add: emb_def push_bit_eq_mult)
qed

lemma ucast_borrow: "ucast l - ucast l' = (ucast (l - l') - emb (cbool (l < l - l')) :: quad)"
  for l l' :: u_long
proof -
  note lt = unat_u_long [of l] unat_u_long [of l']
  have "unat l + (if l < l - l' then 2 ^ 32 else 0) = unat (l - l') + unat l'"
    using lt by (auto simp: word_less_nat_alt unat_sub_if')
  then have "(of_nat (unat l + (if l < l - l' then 2 ^ 32 else 0)) :: quad) = of_nat (unat (l - l') + unat l')"
    by (rule arg_cong)
  then show ?thesis by (simp add: emb_def push_bit_eq_mult algebra_simps split: if_splits)
qed

lemma uu_plus: "uu h l + uu h' l' = uu (h + h' + cbool (l + l' < l')) (l + l')"
  using ucast_carry [of l l'] by (simp add: uu_emb emb_add algebra_simps)

lemma uu_minus: "uu h l - uu h' l' = uu (h - h' - cbool (l < l - l')) (l - l')"
  using ucast_borrow [of l l']
  by (cases "l < l - l'") (simp_all add: uu_emb emb_diff emb_add algebra_simps)

lemma adddi3_eq: "adddi3 a b = a + b"
  using uu_plus [of "ulH a" "ulL a" "ulH b" "ulL b"] by (simp add: adddi3_def Let_def)

lemma subdi3_eq: "subdi3 a b = a - b"
  using uu_minus [of "ulH a" "ulL a" "ulH b" "ulL b"] by (simp add: subdi3_def Let_def)

lemma negdi2_eq: "negdi2 a = - a"
  using uu_minus [of 0 0 "ulH a" "ulL a"] by (simp add: negdi2_def Let_def uu_emb [of 0 0])

section \<open>Bitwise operations\<close>

definition one_cmpldi2 :: "quad \<Rightarrow> quad" where
  "one_cmpldi2 a = uu (NOT (ulH a)) (NOT (ulL a))"

definition anddi3 :: "quad \<Rightarrow> quad \<Rightarrow> quad" where
  "anddi3 a b = uu (ulH a AND ulH b) (ulL a AND ulL b)"

definition iordi3 :: "quad \<Rightarrow> quad \<Rightarrow> quad" where
  "iordi3 a b = uu (ulH a OR ulH b) (ulL a OR ulL b)"

definition xordi3 :: "quad \<Rightarrow> quad \<Rightarrow> quad" where
  "xordi3 a b = uu (ulH a XOR ulH b) (ulL a XOR ulL b)"

lemma bit_uu: "bit (uu h l) n \<longleftrightarrow> n < 64 \<and> (if n < 32 then bit l n else bit h (n - 32))"
proof -
  have l: "\<not> bit l n" if "32 \<le> n" for n using bit_imp_le_length [of l n] that by auto
  show ?thesis unfolding uu_def by (auto simp: bit_simps l)
qed

lemma bit_ulH: "bit (ulH q) n \<longleftrightarrow> n < 32 \<and> bit q (n + 32)" and bit_ulL: "bit (ulL q) n \<longleftrightarrow> n < 32 \<and> bit q n"
  by (auto simp: ulH_def ulL_def bit_simps add.commute)

lemmas half_bits = bit_uu bit_ulH bit_ulL bit_simps

lemma one_cmpldi2_eq: "one_cmpldi2 a = NOT a"
  unfolding one_cmpldi2_def by (rule bit_eqI) (auto simp: half_bits)

lemma bitwise_eq: "anddi3 a b = a AND b" "iordi3 a b = a OR b" "xordi3 a b = a XOR b"
  unfolding anddi3_def iordi3_def xordi3_def by (rule bit_eqI, auto simp: half_bits)+

section \<open>Shifts\<close>

text \<open>The shift count is an unsigned int; every shift of a long is by less than 32 bits.\<close>

definition ashldi3 :: "quad \<Rightarrow> nat \<Rightarrow> quad" where
  "ashldi3 a sh =
     (if 32 \<le> sh then uu (if 64 \<le> sh then 0 else push_bit (sh - 32) (ulL a)) 0
      else if 0 < sh then uu (push_bit sh (ulH a) OR drop_bit (32 - sh) (ulL a)) (push_bit sh (ulL a))
      else a)"

definition lshldi3 :: "quad \<Rightarrow> nat \<Rightarrow> quad" where
  "lshldi3 a sh =
     (if 32 \<le> sh then uu (if 64 \<le> sh then 0 else push_bit (sh - 32) (ulL a)) 0
      else if 0 < sh then uu (push_bit sh (ulH a) OR drop_bit (32 - sh) (ulL a)) (push_bit sh (ulL a))
      else a)"

definition ashrdi3 :: "quad \<Rightarrow> nat \<Rightarrow> quad" where
  "ashrdi3 a sh =
     (if 32 \<le> sh then
        (let s = signed_drop_bit 1 (signed_drop_bit 31 (ulH a))
         in uu s (if 64 \<le> sh then s else signed_drop_bit (sh - 32) (ulH a)))
      else if 0 < sh then
        uu (signed_drop_bit sh (ulH a)) (drop_bit sh (ulL a) OR push_bit (32 - sh) (ulH a))
      else a)"

definition lshrdi3 :: "quad \<Rightarrow> nat \<Rightarrow> quad" where
  "lshrdi3 a sh =
     (if 32 \<le> sh then uu 0 (if 64 \<le> sh then 0 else drop_bit (sh - 32) (ulH a))
      else if 0 < sh then uu (drop_bit sh (ulH a)) (drop_bit sh (ulL a) OR push_bit (32 - sh) (ulH a))
      else a)"

lemma bit_quad_bound: "bit (a :: quad) n \<Longrightarrow> n < 64"
  using bit_imp_le_length [of a n] by simp

lemma left_shift_eq: "ashldi3 a sh = push_bit sh a" "lshldi3 a sh = push_bit sh a"
  unfolding ashldi3_def lshldi3_def
  by (rule bit_eqI, auto simp: half_bits dest: bit_quad_bound)+

lemma lshrdi3_eq: "lshrdi3 a sh = drop_bit sh a"
  unfolding lshrdi3_def by (rule bit_eqI) (auto simp: half_bits ac_simps dest: bit_quad_bound)

lemma sdb32: "bit (signed_drop_bit n (w :: 32 word)) m \<longleftrightarrow> m < 32 \<and> bit w (min 31 (n + m))"
proof (cases "n + m < 32")
  case True
  then have "min 31 (n + m) = n + m" "\<not> 32 - n \<le> m" "m < 32" by auto
  then show ?thesis by (simp add: bit_signed_drop_bit_iff)
next
  case False
  then have "min 31 (n + m) = 31" "32 - n \<le> m" "\<not> bit w (n + m)"
    using bit_imp_le_length [of w "n + m"] by auto
  then show ?thesis by (simp add: bit_signed_drop_bit_iff)
qed

lemma sdb64: "bit (signed_drop_bit n (w :: 64 word)) m \<longleftrightarrow> m < 64 \<and> bit w (min 63 (n + m))"
proof (cases "n + m < 64")
  case True
  then have "min 63 (n + m) = n + m" "\<not> 64 - n \<le> m" "m < 64" by auto
  then show ?thesis by (simp add: bit_signed_drop_bit_iff)
next
  case False
  then have "min 63 (n + m) = 63" "64 - n \<le> m" "\<not> bit w (n + m)"
    using bit_imp_le_length [of w "n + m"] by auto
  then show ?thesis by (simp add: bit_signed_drop_bit_iff)
qed

lemma ashrdi3_eq: "ashrdi3 a sh = signed_drop_bit sh a"
proof (rule bit_eqI)
  fix n assume "possible_bit TYPE(64 word) n"
  then have n: "n < 64" by (simp add: possible_bit_word)
  have H: "bit (ulH a) (min 31 k) \<longleftrightarrow> bit a (min 63 (k + 32))" for k
    by (simp add: bit_ulH min_add_distrib_left min_less_iff_disj)
  have s: "bit (signed_drop_bit 32 (ulH a)) k \<longleftrightarrow> k < 32 \<and> bit a 63" for k
    unfolding sdb32 H by simp
  consider "64 \<le> sh" | "32 \<le> sh" "sh < 64" | "0 < sh" "sh < 32" | "sh = 0" by linarith
  then show "bit (ashrdi3 a sh) n \<longleftrightarrow> bit (signed_drop_bit sh a) n"
  proof cases
    case 1
    then have "min 63 (sh + n) = 63" by simp
    with 1 n show ?thesis unfolding sdb64 by (auto simp: ashrdi3_def Let_def bit_uu s)
  next
    case 2
    show ?thesis
    proof (cases "n < 32")
      case True
      have "sh + n - 32 + 32 = sh + n" using 2 by simp
      with 2 True H [of "sh + n - 32"] show ?thesis
        unfolding sdb64 by (simp add: ashrdi3_def Let_def bit_uu sdb32)
    next
      case False
      then have "min 63 (sh + n) = 63" using 2 by simp
      with 2 n False show ?thesis unfolding sdb64 by (auto simp: ashrdi3_def Let_def bit_uu s)
    qed
  next
    case 3
    have low: "bit (drop_bit sh (ulL a) OR push_bit (32 - sh) (ulH a)) n \<longleftrightarrow> bit a (sh + n)" if "n < 32"
      using 3 that by (auto simp: bit_simps bit_ulH bit_ulL ac_simps)
    have "sh + (n - 32) + 32 = sh + n" if "32 \<le> n" using that by simp
    with 3 n low show ?thesis unfolding sdb64 by (auto simp: ashrdi3_def bit_uu sdb32 H)
  next
    case 4
    with n show ?thesis by (simp add: ashrdi3_def)
  qed
qed

section \<open>Comparison\<close>

text \<open>The result is 0, 1 or 2.  \<open>sl[H]\<close> is the signed reading of the high long.\<close>

definition cmpdi2 :: "quad \<Rightarrow> quad \<Rightarrow> int" where
  "cmpdi2 a b =
     (if ulH a <s ulH b then 0 else if ulH b <s ulH a then 2
      else if ulL a < ulL b then 0 else if ulL b < ulL a then 2 else 1)"

definition ucmpdi2 :: "quad \<Rightarrow> quad \<Rightarrow> int" where
  "ucmpdi2 a b =
     (if ulH a < ulH b then 0 else if ulH b < ulH a then 2
      else if ulL a < ulL b then 0 else if ulL b < ulL a then 2 else 1)"

lemma uint_halves: "uint q = uint (ulH q) * 2 ^ 32 + uint (ulL q)"
  using arg_cong [OF unat_uu [of "ulH q" "ulL q"], of int] by simp

lemma uint_u_long: "0 \<le> uint (x :: u_long)" "uint (x :: u_long) < 2 ^ 32"
  using unsigned_less [of x, where ?'a = int] by simp_all

lemma sint_long: "sint (x :: u_long) = uint x - (if bit x 31 then 2 ^ 32 else 0)"
  using uint_u_long [of x]
  by (simp add: take_bit_int_eq_self_iff sint_uint signed_take_bit_eq_take_bit_minus bit_uint_iff)

lemma sint_quad: "sint (x :: quad) = uint x - (if bit x 63 then 2 ^ 64 else 0)"
  using unsigned_less [of x, where ?'a = int]
  by (simp add: take_bit_int_eq_self_iff sint_uint signed_take_bit_eq_take_bit_minus bit_uint_iff)

lemma sint_halves: "sint q = sint (ulH q) * 2 ^ 32 + uint (ulL q)"
proof -
  have "bit (ulH q) 31 \<longleftrightarrow> bit q 63" by (simp add: bit_ulH)
  then show ?thesis using uint_halves [of q] by (simp add: sint_long sint_quad)
qed

lemma lex_less: "0 \<le> l \<Longrightarrow> l < 2 ^ 32 \<Longrightarrow> 0 \<le> l' \<Longrightarrow> l' < 2 ^ 32 \<Longrightarrow>
    h * 2 ^ 32 + l < h' * 2 ^ 32 + l' \<longleftrightarrow> h < h' \<or> h = h' \<and> l < (l' :: int)"
  by auto

lemma ucmpdi2_eq: "ucmpdi2 a b = (if a < b then 0 else if a = b then 1 else 2)"
proof -
  have less: "x < y \<longleftrightarrow> ulH x < ulH y \<or> ulH x = ulH y \<and> ulL x < ulL y" for x y
    unfolding word_less_def uint_halves [of x] uint_halves [of y]
    using uint_u_long by (subst lex_less) (auto intro: word_eq_iff_unsigned [THEN iffD2])
  have "a = b \<longleftrightarrow> ulH a = ulH b \<and> ulL a = ulL b" using quad_eqI by blast
  then show ?thesis unfolding ucmpdi2_def less by auto
qed

lemma cmpdi2_eq: "cmpdi2 a b = (if a <s b then 0 else if a = b then 1 else 2)"
proof -
  have less: "x <s y \<longleftrightarrow> ulH x <s ulH y \<or> ulH x = ulH y \<and> ulL x < ulL y" for x y
    unfolding word_sless_alt word_less_def sint_halves [of x] sint_halves [of y]
    using uint_u_long by (subst lex_less) (auto intro: word_eq_iff_signed [THEN iffD2])
  have "a = b \<longleftrightarrow> ulH a = ulH b \<and> ulL a = ulL b" using quad_eqI by blast
  moreover have "x = y \<longleftrightarrow> \<not> x <s y \<and> \<not> y <s x" for x y :: u_long
    unfolding word_sless_alt by (metis less_irrefl linorder_less_linear of_int_sint scast_id)
  ultimately show ?thesis unfolding cmpdi2_def less by auto
qed

section \<open>Multiplication\<close>

definition lmulq :: "u_long \<Rightarrow> u_long \<Rightarrow> quad" where
  "lmulq u v =
     (let u1 = HHALF u; u0 = LHALF u; v1 = HHALF v; v0 = LHALF v; low = u0 * v0
      in if u1 = 0 \<and> v1 = 0 then ucast low
         else
           let (udiff, neg) = (if u0 \<le> u1 then (u1 - u0, False) else (u0 - u1, True));
               (vdiff, neg) = (if v1 \<le> v0 then (v0 - v1, neg) else (v1 - v0, \<not> neg));
               mid = udiff * vdiff;
               high = u1 * v1;
               prodh = high + HHALF high;
               prodl = LHUP high;
               (prodh, prodl) =
                 (if neg then
                    (let was = prodl; prodl = prodl - LHUP mid
                     in (prodh - (HHALF mid + cbool (was < prodl)), prodl))
                  else
                    (let was = prodl; prodl = prodl + LHUP mid
                     in (prodh + (HHALF mid + cbool (prodl < was)), prodl)));
               was = prodl;
               prodl = prodl + LHUP low;
               prodh = prodh + (HHALF low + cbool (prodl < was));
               prodl = prodl + low;
               prodh = (if prodl < low then prodh + 1 else prodh)
           in uu prodh prodl)"

text \<open>The product of the absolute values, from the \<open>if (u1 == 0 && v1 == 0)\<close> on.\<close>

definition muldi3_prod :: "quad \<Rightarrow> quad \<Rightarrow> quad" where
  "muldi3_prod u v =
     (let u1 = ulH u; u0 = ulL u; v1 = ulH v; v0 = ulL v
      in if u1 = 0 \<and> v1 = 0 then lmulq u0 v0
         else
           let low = lmulq u0 v0;
               (negmid, udiff) = (if u0 \<le> u1 then (False, u1 - u0) else (True, u0 - u1));
               (vdiff, negmid) = (if v1 \<le> v0 then (v0 - v1, negmid) else (v1 - v0, \<not> negmid));
               mid = udiff * vdiff;
               high = u1 * v1
           in uu (high + (if negmid then - mid else mid) + ulL low + ulH low) (ulL low))"

definition muldi3 :: "quad \<Rightarrow> quad \<Rightarrow> quad" where
  "muldi3 a b =
     (let (u, negall) = (if 0 <=s a then (a, False) else (- a, True));
          (v, negall) = (if 0 <=s b then (b, negall) else (- b, \<not> negall));
          prod = muldi3_prod u v
      in if negall then - prod else prod)"

lemma uu_plus': "uu h l + uu h' l' = uu (h + (h' + cbool (l + l' < l))) (l + l')"
  using uu_plus [of h' l' h l] by (simp add: ac_simps)

lemma uu_minus': "uu h l - uu h' l' = uu (h - (h' + cbool (l < l - l'))) (l - l')"
  unfolding uu_minus by (simp add: algebra_simps)

lemma uu_low: "uu h l + ucast x = uu (if l + x < x then h + 1 else h) (l + x)"
  using uu_plus [of h l 0 x] by (auto simp: uu_emb [of 0])

text \<open>Halves of a long in the ring of quads.\<close>

lemma unat_HHALF: "unat (HHALF x) = unat x div 2 ^ 16"
  by (simp add: HHALF_def drop_bit_eq_div unat_div)

lemma unat_LHALF: "unat (LHALF x) = unat x mod 2 ^ 16"
proof -
  have "LHALF x = take_bit 16 x"
    unfolding LHALF_def by (simp only: take_bit_eq_mask mask_eq_exp_minus_1 push_bit_of_1)
  then have "unat (LHALF x) = take_bit 16 (unat x)" by (simp only: unsigned_take_bit_eq)
  then show ?thesis by (simp only: take_bit_eq_mod)
qed

lemma half_bounds: "unat (HHALF x) < 2 ^ 16" "unat (LHALF x) < 2 ^ 16"
  using unat_u_long [of x] by (simp_all add: unat_HHALF unat_LHALF)

lemma ucast_long: "ucast x = (of_nat (unat x) :: quad)" for x :: u_long
  by simp

lemma ucast_halves: "ucast x = (ucast (HHALF x) * 2 ^ 16 + ucast (LHALF x) :: quad)"
proof -
  have "unat x = unat (HHALF x) * 2 ^ 16 + unat (LHALF x)"
    unfolding unat_HHALF unat_LHALF by (simp add: div_mult_mod_eq)
  then have "(of_nat (unat x) :: quad) = of_nat (unat (HHALF x) * 2 ^ 16 + unat (LHALF x))" by (rule arg_cong)
  then show ?thesis by simp
qed

lemma ucast_mult_small:
  "unat x < 2 ^ 16 \<Longrightarrow> unat y < 2 ^ 16 \<Longrightarrow> ucast (x * y) = (ucast x * ucast y :: quad)" for x y :: u_long
proof -
  assume x: "unat x < 2 ^ 16" and y: "unat y < 2 ^ 16"
  have "unat x * unat y < 2 ^ 16 * 2 ^ 16" using x y by (intro mult_strict_mono) auto
  then have "unat (x * y) = unat x * unat y" by (simp add: unat_mult_lem [symmetric])
  then have "(of_nat (unat (x * y)) :: quad) = of_nat (unat x * unat y)" by (rule arg_cong)
  then show ?thesis by simp
qed

lemma ucast_diff: "y \<le> x \<Longrightarrow> ucast (x - y) = (ucast x - ucast y :: quad)" for x y :: u_long
proof -
  assume "y \<le> x"
  then have "unat (x - y) + unat y = unat x" by (simp add: word_le_nat_alt unat_sub_if')
  then have "(of_nat (unat (x - y) + unat y) :: quad) = of_nat (unat x)" by (rule arg_cong)
  then show ?thesis by (simp add: eq_diff_eq)
qed

lemma uu_LHUP: "uu (HHALF x) (LHUP x) = ucast x * 2 ^ 16"
proof -
  have "uu (HHALF x) (LHUP x) = push_bit 16 (ucast x)"
    unfolding HHALF_def LHUP_def by (rule bit_eqI) (auto simp: bit_uu bit_simps dest: bit_imp_le_length)
  then show ?thesis by (simp add: push_bit_eq_mult)
qed

lemma uu_high: "uu (x + HHALF x) (LHUP x) = ucast x * 2 ^ 32 + ucast x * 2 ^ 16"
proof -
  have "uu (x + HHALF x) (LHUP x) = emb x + uu (HHALF x) (LHUP x)"
    by (simp add: uu_emb emb_add)
  then show ?thesis by (simp add: uu_LHUP) (simp add: emb_def push_bit_eq_mult)
qed

lemma sub_small: "unat x < 2 ^ 16 \<Longrightarrow> y \<le> x \<Longrightarrow> unat (x - y) < 2 ^ 16" for x y :: u_long
  by (simp add: word_le_nat_alt unat_sub_if')

text \<open>The signed difference of two longs, in the ring of quads.\<close>

lemma signed_mid:
  fixes u1 u0 v1 v0 :: u_long
  assumes "unat u1 < 2 ^ 16" "unat u0 < 2 ^ 16" "unat v1 < 2 ^ 16" "unat v0 < (2::nat) ^ 16"
  shows "(ucast u1 - ucast u0) * (ucast v0 - ucast v1) =
    (if (u0 \<le> u1) = (v1 \<le> v0) then 1 else - 1) *
      (ucast ((if u0 \<le> u1 then u1 - u0 else u0 - u1) * (if v1 \<le> v0 then v0 - v1 else v1 - v0)) :: quad)"
proof -
  have gen: "(ucast a - ucast b) = (if b \<le> a then 1 else - 1) * (ucast (if b \<le> a then a - b else b - a) :: quad)"
    for a b :: u_long
    using linear [of a b] by (auto simp: ucast_diff)
  have small: "unat (if b \<le> a then a - b else b - a) < 2 ^ 16"
    if "unat a < 2 ^ 16" "unat b < 2 ^ 16" for a b :: u_long
    using linear [of a b] that sub_small [of a b] sub_small [of b a] by auto
  show ?thesis
    unfolding gen [of u1 u0] gen [of v0 v1] ucast_mult_small [OF small [OF assms(1,2)] small [OF assms(4,3)]]
    by simp
qed

lemma lmulq_eq: "lmulq u v = ucast u * ucast v"
proof -
  define u1 u0 v1 v0 where d: "u1 = HHALF u" "u0 = LHALF u" "v1 = HHALF v" "v0 = LHALF v"
  note b = half_bounds [of u, folded d] half_bounds [of v, folded d]
  define low high mid where p: "low = u0 * v0" "high = u1 * v1"
    "mid = (if u0 \<le> u1 then u1 - u0 else u0 - u1) * (if v1 \<le> v0 then v0 - v1 else v1 - v0)"
  have low: "ucast low = (ucast u0 * ucast v0 :: quad)" and high: "ucast high = (ucast u1 * ucast v1 :: quad)"
    unfolding p using b by (simp_all add: ucast_mult_small)
  note mid = signed_mid [OF b(1,2,3,4), folded p(3)]
  have uv: "ucast u = (ucast u1 * 2 ^ 16 + ucast u0 :: quad)" "ucast v = (ucast v1 * 2 ^ 16 + ucast v0 :: quad)"
    using ucast_halves [of u] ucast_halves [of v] by (simp_all add: d)
  show ?thesis
  proof (cases "u1 = 0 \<and> v1 = 0")
    case True
    then have "lmulq u v = ucast low" by (simp add: lmulq_def Let_def d p)
    with True show ?thesis by (simp add: low uv)
  next
    case False
    let ?s = "if (u0 \<le> u1) = (v1 \<le> v0) then ucast mid * 2 ^ 16 else - (ucast mid * 2 ^ 16) :: quad"
    let ?p = "if (u0 \<le> u1) = (v1 \<le> v0)
      then uu (high + HHALF high + (HHALF mid + cbool (LHUP high + LHUP mid < LHUP high))) (LHUP high + LHUP mid)
      else uu (high + HHALF high - (HHALF mid + cbool (LHUP high < LHUP high - LHUP mid))) (LHUP high - LHUP mid)"
    have p1: "?p = ucast high * 2 ^ 32 + ucast high * 2 ^ 16 + ?s"
      using uu_plus' [of "high + HHALF high" "LHUP high" "HHALF mid" "LHUP mid"]
        uu_minus' [of "high + HHALF high" "LHUP high" "HHALF mid" "LHUP mid"]
      by (simp add: uu_high uu_LHUP)
    have "lmulq u v = ?p + uu (HHALF low) (LHUP low) + ucast low"
      using False unfolding lmulq_def Let_def d [symmetric] p(1,2) [symmetric]
      by (cases "u0 \<le> u1"; cases "v1 \<le> v0")
         (simp_all only: p(3) uu_plus' uu_low prod.case if_True if_False simp_thms)
    also have "\<dots> = ucast u1 * ucast v1 * 2 ^ 32 + ucast u1 * ucast v1 * 2 ^ 16 +
        (ucast u1 - ucast u0) * (ucast v0 - ucast v1) * 2 ^ 16 + ucast u0 * ucast v0 * 2 ^ 16 + ucast u0 * ucast v0"
      unfolding p1 uu_LHUP low high mid by simp
    also have "\<dots> = ucast u * ucast v" unfolding uv by (simp add: algebra_simps)
    finally show ?thesis .
  qed
qed

text \<open>
  The same identity one level up, modulo \<open>2 ^ 64\<close>: the terms with a factor \<open>2 ^ 64\<close> vanish, and the
  middle and high products are only needed modulo \<open>2 ^ 32\<close>.
\<close>

lemma emb_power: "emb x = ucast x * 2 ^ 32"
  by (simp add: emb_def push_bit_eq_mult)

lemma emb_signed_mid:
  fixes u1 u0 v1 v0 :: u_long
  shows "emb (let mid = (if u0 \<le> u1 then u1 - u0 else u0 - u1) * (if v1 \<le> v0 then v0 - v1 else v1 - v0)
      in if (u0 \<le> u1) = (v1 \<le> v0) then mid else - mid) =
    (ucast u1 - ucast u0) * (ucast v0 - ucast v1) * 2 ^ 32"
proof -
  have gen: "emb (a * b) = (ucast a * ucast b * 2 ^ 32 :: quad)" for a b
    by (subst emb_mult) (simp add: emb_power)
  have "(let mid = (if u0 \<le> u1 then u1 - u0 else u0 - u1) * (if v1 \<le> v0 then v0 - v1 else v1 - v0)
      in if (u0 \<le> u1) = (v1 \<le> v0) then mid else - mid) = u1 * v0 - u1 * v1 - u0 * v0 + u0 * v1"
    by (auto simp: Let_def algebra_simps)
  then show ?thesis by (simp add: emb_add emb_diff gen algebra_simps)
qed

lemma muldi3_prod_eq: "muldi3_prod u v = u * v"
proof -
  define u1 u0 v1 v0 where d: "u1 = ulH u" "u0 = ulL u" "v1 = ulH v" "v0 = ulL v"
  have u: "u = emb u1 + ucast u0" and v: "v = emb v1 + ucast v0"
    using uu_emb [of u1 u0] uu_emb [of v1 v0] by (simp_all add: d)
  have z: "(2 :: quad) ^ 64 = 0" by (simp add: exp_eq_zero_iff del: power_numeral)
  have hh: "emb x * emb y = 0" for x y
  proof -
    have "emb x * emb y = ucast x * ucast y * 2 ^ 64" unfolding emb_power by simp
    then show ?thesis unfolding z by simp
  qed
  let ?low = "lmulq u0 v0"
  let ?mid = "let mid = (if u0 \<le> u1 then u1 - u0 else u0 - u1) * (if v1 \<le> v0 then v0 - v1 else v1 - v0)
      in if (u0 \<le> u1) = (v1 \<le> v0) then mid else - mid"
  have low: "uu (ulH ?low) (ulL ?low) = ucast u0 * ucast v0" by (simp add: lmulq_eq)
  have lowL: "emb (ulL ?low) = ucast u0 * ucast v0 * 2 ^ 32"
  proof -
    have "ucast u0 * ucast v0 * 2 ^ 32 = (emb (ulH ?low) + ucast (ulL ?low)) * 2 ^ 32"
      using low by (simp add: uu_emb)
    also have "\<dots> = emb (ulH ?low) * emb 1 + emb (ulL ?low)" by (simp add: emb_power distrib_right)
    also have "\<dots> = emb (ulL ?low)" by (simp only: hh add_0)
    finally show ?thesis by simp
  qed
  have "uu (u1 * v1 + ?mid + ulL ?low + ulH ?low) (ulL ?low) =
      emb (u1 * v1) + emb ?mid + emb (ulL ?low) + uu (ulH ?low) (ulL ?low)"
    by (simp add: uu_emb emb_add del: Let_def)
  also have "\<dots> = u * v"
  proof -
    have "u * v = emb u1 * emb v1 + emb u1 * ucast v0 + ucast u0 * emb v1 + ucast u0 * ucast v0"
      unfolding u v by (simp only: distrib_left distrib_right ac_simps)
    then have "u * v = emb u1 * ucast v0 + ucast u0 * emb v1 + ucast u0 * ucast v0" by (simp only: hh add_0)
    moreover have "emb (u1 * v1) = ucast u1 * ucast v1 * 2 ^ 32" by (subst emb_mult) (simp add: emb_power)
    ultimately show ?thesis
      unfolding low lowL emb_signed_mid by (simp add: emb_power algebra_simps)
  qed
  finally have main: "uu (u1 * v1 + ?mid + ulL ?low + ulH ?low) (ulL ?low) = u * v" .
  show ?thesis
  proof (cases "u1 = 0 \<and> v1 = 0")
    case True
    then have "muldi3_prod u v = lmulq u0 v0" by (simp add: muldi3_prod_def Let_def d)
    with True show ?thesis unfolding u v by (simp add: lmulq_eq)
  next
    case False
    with main show ?thesis
      unfolding muldi3_prod_def d [symmetric] Let_def
      by (cases "u0 \<le> u1"; cases "v1 \<le> v0") (simp_all only: prod.case if_True if_False simp_thms)
  qed
qed

lemma muldi3_eq: "muldi3 a b = a * b"
  by (simp add: muldi3_def Let_def muldi3_prod_eq)

end
