(* ===== verification/Quad_Divrem.thy ===== *)
theory Quad_Divrem
  imports Quad_Div Quad "HOL-Library.Signed_Division"
begin

text \<open>
  The whole of \<^verbatim>\<open>__qdivrem\<close> (\<^verbatim>\<open>src/sys/libkern/qdivrem.c\<close>) computes quotient and remainder, and so
  do the four entry points that are built on it.
\<close>

section \<open>The whole division\<close>

lemma five_less: "(\<forall>i < 5. P i) \<longleftrightarrow> P 0 \<and> P 1 \<and> P 2 \<and> P 3 \<and> P (4::nat)"
  by (auto simp: eval_nat_numeral less_Suc_eq)

lemma seg_4: "seg xs 1 4 = ((xs ! 1 * DB + xs ! 2) * DB + xs ! 3) * DB + xs ! 4"
proof -
  have "(4::nat) = Suc (Suc (Suc (Suc 0)))" "xs ! 2 = xs ! Suc 1" "xs ! 3 = xs ! Suc (Suc 1)"
    "xs ! 4 = xs ! Suc (Suc (Suc 1))"
    by (simp_all add: eval_nat_numeral)
  then show ?thesis by (simp only: seg.simps add_Suc_right add_0_right mult_0 add_0_left)
qed

lemma qdigits_nth:
  "qdigits x q ! 0 = x" "qdigits x q ! 1 = HIGH (q div 2 ^ 32)" "qdigits x q ! 2 = LOW (q div 2 ^ 32)"
  "qdigits x q ! 3 = HIGH (q mod 2 ^ 32)" "qdigits x q ! 4 = LOW (q mod 2 ^ 32)" "length (qdigits x q) = 5"
  by (simp_all add: qdigits_def)

lemma qdigits_digs: "x < DB \<Longrightarrow> q < 2 ^ 64 \<Longrightarrow> digs (qdigits x q)"
  unfolding digs_def five_less qdigits_nth by (auto simp: HIGH_def LOW_def DB_def)

lemma seg_qdigits: "q < 2 ^ 64 \<Longrightarrow> seg (qdigits x q) 1 4 = q"
  unfolding seg_4 qdigits_nth HIGH_def LOW_def DB_def by simp

lemma qcombine_seg: "digs xs \<Longrightarrow> qcombine xs = seg xs 1 4"
  unfolding seg_4 qcombine_def by (simp add: COMBINE_eq digs_nth) (simp add: DB_def)

lemma div_digit:
  assumes "0 < (t::nat)" "t < DB" "d < DB"
  shows "(N * DB + d) div t = N div t * DB + (N mod t * DB + d) div t"
    "(N * DB + d) mod t = (N mod t * DB + d) mod t" "(N mod t * DB + d) div t < DB"
proof -
  have "N * DB + d = (N div t * t + N mod t) * DB + d" by simp
  then have e: "N * DB + d = N div t * DB * t + (N mod t * DB + d)"
    by (simp only: distrib_right distrib_left ac_simps)
  show "(N * DB + d) div t = N div t * DB + (N mod t * DB + d) div t" unfolding e using assms by simp
  show "(N * DB + d) mod t = (N mod t * DB + d) mod t" by (subst e) simp
  have "N mod t + 1 \<le> t" using mod_less_divisor [OF assms(1), of N] by linarith
  then have "(N mod t + 1) * DB \<le> t * DB" by (rule mult_le_mono1)
  then show "(N mod t * DB + d) div t < DB" using assms
    by (intro less_mult_imp_div_less) (simp add: algebra_simps)
qed

lemma qdiv1_spec:
  assumes us: "digs us" and t: "0 < t" "t < DB"
  shows "qdiv1 us t = (seg us 1 4 div t, seg us 1 4 mod t)"
proof -
  have d: "us ! 1 < DB" "us ! 2 < DB" "us ! 3 < DB" "us ! 4 < DB" using us by (auto intro: digs_nth)
  have m: "x mod t < DB" for x using t mod_less_divisor [OF t(1), of x] by linarith
  have low: "LOW x = x" if "x < DB" for x using that by (simp add: LOW_def)
  define n2 where "n2 = us ! 1 * DB + us ! 2"
  define n3 where "n3 = n2 * DB + us ! 3"
  have N: "seg us 1 4 = n3 * DB + us ! 4" unfolding seg_4 n3_def n2_def ..
  have q1: "us ! 1 div t < DB" using d(1) div_le_dividend [of "us ! 1" t] by linarith
  note q = div_digit(3) [OF t d(2), of "us ! 1"] div_digit(3) [OF t d(3), of n2] div_digit(3) [OF t d(4), of n3]
  note r = div_digit(2) [OF t d(2), of "us ! 1", folded n2_def] div_digit(2) [OF t d(3), of n2, folded n3_def]
    div_digit(2) [OF t d(4), of n3, folded N]
  note e = div_digit(1) [OF t d(2), of "us ! 1", folded n2_def] div_digit(1) [OF t d(3), of n2, folded n3_def]
    div_digit(1) [OF t d(4), of n3, folded N]
  have c: "COMBINE (us ! 1 mod t) (us ! 2) = us ! 1 mod t * DB + us ! 2"
    "COMBINE (n2 mod t) (us ! 3) = n2 mod t * DB + us ! 3"
    "COMBINE (n3 mod t) (us ! 4) = n3 mod t * DB + us ! 4"
    by (simp_all add: COMBINE_eq m d)
  have "qdiv1 us t = (COMBINE (us ! 1 div t) ((us ! 1 mod t * DB + us ! 2) div t) * 2 ^ 32 +
      COMBINE ((n2 mod t * DB + us ! 3) div t) ((n3 mod t * DB + us ! 4) div t), seg us 1 4 mod t)"
    unfolding qdiv1_def Let_def by (simp only: c r [symmetric] low q q1)
  also have "\<dots> = (seg us 1 4 div t, seg us 1 4 mod t)"
    unfolding e COMBINE_eq [OF q1 q(1)] COMBINE_eq [OF q(2,3)] by (simp add: DB_def)
  finally show ?thesis .
qed

lemma seg_lead: "p + k = 4 \<Longrightarrow> (\<And>i. 0 < i \<Longrightarrow> i \<le> p \<Longrightarrow> xs ! i = 0) \<Longrightarrow> seg xs 1 4 = seg xs (p + 1) k"
proof -
  assume "p + k = 4" and z: "\<And>i. 0 < i \<Longrightarrow> i \<le> p \<Longrightarrow> xs ! i = 0"
  have "seg xs 1 j = 0" if "j \<le> p" for j using that by (induction j) (auto intro: z)
  then show ?thesis using seg_split [of xs 1 p k] \<open>p + k = 4\<close> by simp
qed

lemma seg_ge: "xs ! a \<noteq> 0 \<Longrightarrow> DB ^ k \<le> seg xs a (Suc k)"
  unfolding seg_front by (simp add: trans_le_add1)

text \<open>Where the scan for leading zeros stops.\<close>

lemma qskip_digits:
  assumes "digs xs" "0 < k" "k < 5" "xs ! k \<noteq> 0"
  shows "\<exists>p. qskip xs 0 = Inr p \<and> p < k \<and> seg xs 1 4 = seg xs (p + 1) (4 - p) \<and>
    xs ! (p + 1) \<noteq> 0 \<and> DB ^ (3 - p) \<le> seg xs 1 4 \<and> seg xs 1 4 < DB ^ (4 - p) \<and>
    (\<forall>i. 0 < i \<and> i \<le> p \<longrightarrow> xs ! i = 0)"
proof -
  from qskip_spec [of xs 0 k] assms obtain p where p: "qskip xs 0 = Inr p" "p < 4" "xs ! (p + 1) \<noteq> 0"
    "\<forall>i. 0 < i \<and> i \<le> p \<longrightarrow> xs ! i = 0" by auto
  have k: "p < k" using p(4) assms(2,4) by (meson not_le)
  have s: "seg xs 1 4 = seg xs (p + 1) (4 - p)" using p by (intro seg_lead) auto
  have "Suc (3 - p) = 4 - p" using p(2) by simp
  then have "DB ^ (3 - p) \<le> seg xs (p + 1) (4 - p)" using seg_ge [of xs "p + 1" "3 - p"] p(3) by simp
  moreover have "seg xs (p + 1) (4 - p) < DB ^ (4 - p)" using assms(1) p(2) by (intro seg_less) auto
  ultimately show ?thesis using p k s by auto
qed

text \<open>Normalisation multiplies dividend and divisor with the same power of two.\<close>

definition qshl2 :: "nat list \<Rightarrow> nat list \<Rightarrow> nat \<Rightarrow> nat \<Rightarrow> nat \<Rightarrow> nat \<Rightarrow> nat \<Rightarrow> (nat list \<times> nat list) kres" where
  "qshl2 us vs u v m n d =
     (if 0 < d then rbind (shl us u (m + n) d 0) (\<lambda>us.
        rbind (shl vs (v + 1) (n - 1) d 0) (\<lambda>vs. Inr (us, vs)))
      else Inr (us, vs))"

lemma qshl2_spec:
  assumes us: "digs us" and vs: "digs vs" and len: "u + m + n = 4" "v + n = 4" "0 < n"
    and d: "d < 16" "vs ! (v + 1) * 2 ^ d < DB" and u0: "us ! u = 0"
  shows "\<exists>us' vs'. qshl2 us vs u v m n d = Inr (us', vs') \<and> digs us' \<and> digs vs' \<and>
    seg us' u (Suc (m + n)) = seg us (u + 1) (m + n) * 2 ^ d \<and>
    seg vs' (v + 1) n = seg vs (v + 1) n * 2 ^ d \<and> (\<forall>k. k < u \<longrightarrow> us' ! k = us ! k)"
proof (cases "d = 0")
  case True
  moreover have "seg us u (Suc (m + n)) = seg us (u + 1) (m + n)" unfolding seg_front using u0 by simp
  ultimately show ?thesis using us vs by (auto simp: qshl2_def)
next
  case False
  have DB: "DB = 2 ^ d * 2 ^ (16 - d)" using DB_pow [of d] d by simp
  from shl_spec [OF us, of u "m + n" d 0] False d len obtain us' where
    u: "shl us u (m + n) d 0 = Inr us'" "digs us'"
      "seg us' u (Suc (m + n)) = seg us u (Suc (m + n)) * 2 ^ d mod DB ^ Suc (m + n)"
      "\<forall>k. k < u \<longrightarrow> us' ! k = us ! k" by auto
  have n: "Suc (n - 1) = n" using len by simp
  from shl_spec [OF vs, of "v + 1" "n - 1" d 0] False d len obtain vs' where
    v: "shl vs (v + 1) (n - 1) d 0 = Inr vs'" "digs vs'"
      "seg vs' (v + 1) n = seg vs (v + 1) n * 2 ^ d mod DB ^ n" using n by auto
  have su: "seg us u (Suc (m + n)) = seg us (u + 1) (m + n)" unfolding seg_front using u0 by simp
  have "2 ^ d < (2::nat) ^ 16" using d by (intro power_strict_increasing) auto
  then have "2 ^ d < DB" by (simp add: DB_def)
  moreover have "seg us (u + 1) (m + n) < DB ^ (m + n)" using us len by (intro seg_less) auto
  ultimately have "seg us (u + 1) (m + n) * 2 ^ d < DB ^ (m + n) * DB" by (intro mult_strict_mono) auto
  then have 1: "seg us (u + 1) (m + n) * 2 ^ d mod DB ^ Suc (m + n) = seg us (u + 1) (m + n) * 2 ^ d"
    by (simp add: mult.commute)
  have "vs ! (v + 1) < 2 ^ (16 - d)" using d(2) unfolding DB by (simp add: mult.commute)
  then have "(vs ! (v + 1) + 1) * DB ^ (n - 1) \<le> 2 ^ (16 - d) * DB ^ (n - 1)" by (intro mult_le_mono1) simp
  moreover have "seg vs (v + 1) n = vs ! (v + 1) * DB ^ (n - 1) + seg vs (v + 2) (n - 1)"
    using seg_front [of vs "v + 1" "n - 1"] n by simp
  moreover have "seg vs (v + 2) (n - 1) < DB ^ (n - 1)" using vs len by (intro seg_less) auto
  ultimately have "seg vs (v + 1) n < 2 ^ (16 - d) * DB ^ (n - 1)" by (simp add: algebra_simps)
  then have "seg vs (v + 1) n * 2 ^ d < 2 ^ (16 - d) * DB ^ (n - 1) * 2 ^ d" by simp
  also have "\<dots> = DB ^ n" using DB power_Suc [of DB "n - 1"] n by (simp add: ac_simps)
  finally have "seg vs (v + 1) n * 2 ^ d mod DB ^ n = seg vs (v + 1) n * 2 ^ d" by simp
  then show ?thesis using False u v 1 su by (auto simp: qshl2_def)
qed

lemma qdivrem_run:
  assumes us: "digs us" and vs: "digs vs" and len: "u + m + n = 4" "v + n = 4" "2 \<le> n"
    and d: "d < 16" "vs ! (v + 1) * 2 ^ d < DB" and vs0: "vs ! (v + 1) \<noteq> 0"
    and lead: "\<forall>i \<le> u. us ! i = 0" and qs: "length qs = 5" "\<forall>i < 4 - m. qs ! i = 0"
    and U: "U = seg us (u + 1) (m + n)" and V: "V = seg vs (v + 1) n"
  shows "\<exists>us1 vs1 us2 qs'. qshl2 us vs u v m n d = Inr (us1, vs1) \<and>
    qloop us1 vs1 qs u v (4 - m) n m 0 = Inr (us2, qs') \<and>
    digs qs' \<and> seg qs' 1 4 = U div V \<and> digs us2 \<and>
    seg us2 (u + m + 1) n = U mod V * 2 ^ d \<and> (\<forall>k \<le> u + m. us2 ! k = 0)"
proof -
  have n: "Suc (n - 1) = n" using len by simp
  have VB: "DB ^ (n - 1) \<le> V" unfolding V using seg_ge [OF vs0, of "n - 1"] n by simp
  then have V0: "0 < V" by (rule less_le_trans [rotated]) simp
  from qshl2_spec [OF us vs len(1,2) _ d] len lead obtain us1 vs1 where
    s: "qshl2 us vs u v m n d = Inr (us1, vs1)" "digs us1" "digs vs1"
      "seg us1 u (Suc (m + n)) = U * 2 ^ d" "seg vs1 (v + 1) n = V * 2 ^ d" "\<forall>k. k < u \<longrightarrow> us1 ! k = us ! k"
    unfolding U V by auto
  have top: "0 < vs1 ! (v + 1)"
  proof (rule ccontr)
    assume "\<not> 0 < vs1 ! (v + 1)"
    then have "V * 2 ^ d = seg vs1 (v + 2) (n - 1)" using s(5) seg_front [of vs1 "v + 1" "n - 1"] n by simp
    also have "\<dots> < DB ^ (n - 1)" using s(3) len by (intro seg_less) auto
    also have "\<dots> \<le> V * 1" using VB by simp
    finally show False by simp
  qed
  have NV: "seg us1 (u + 0) (Suc n) < DB * (V * 2 ^ d)"
  proof -
    have "seg us1 u (Suc n) * DB ^ m \<le> U * 2 ^ d" using s(4) seg_split [of us1 u "Suc n" m] by (simp add: ac_simps)
    also have "U < DB ^ (m + n)" unfolding U using us len by (intro seg_less) auto
    then have "U * 2 ^ d < DB ^ n * 2 ^ d * DB ^ m" by (simp add: power_add ac_simps)
    finally have "seg us1 u (Suc n) < DB ^ n * 2 ^ d" by simp
    also have "DB ^ n * 2 ^ d \<le> DB * V * 2 ^ d" using VB n power_Suc [of DB "n - 1"] by simp
    finally show ?thesis by (simp add: ac_simps)
  qed
  from qloop_spec [OF s(2,3) len(3) _ _ qs(1) _ top _ s(5) [symmetric] _ NV, of m "4 - m"] len V0
  obtain us2 qs' where r: "qloop us1 vs1 qs u v (4 - m) n m 0 = Inr (us2, qs')"
    "qloop_post us1 qs u (4 - m) n m 0 (V * 2 ^ d) us2 qs'" by auto
  have "n + m = m + n" by simp
  note post = r(2) [unfolded qloop_post_def add_0_right diff_zero this s(4)]
  have qz: "qs' ! k = 0" if "k < 4 - m" for k using post that qs(2) by simp
  have "qs' ! k < DB" if "k < 5" for k
    using post that qz [of k] by (cases "k < 4 - m") auto
  then have dq: "digs qs'" using post by (simp add: digs_def)
  have "seg qs' 1 4 = seg qs' (3 - m + 1) (Suc m)" using len qz by (intro seg_lead) auto
  also have "3 - m + 1 = 4 - m" using len by simp
  also have "seg qs' (4 - m) (Suc m) = U div V" using post by simp
  finally have q: "seg qs' 1 4 = U div V" .
  have "us2 ! k = 0" if "k \<le> u + m" for k
    using post that s(6) lead by (cases "k < u") auto
  moreover have "seg us2 (u + m + 1) n = U mod V * 2 ^ d" using post by (simp add: mod_mult_mult2)
  ultimately show ?thesis using s(1) r(1) dq q post by blast
qed

lemma qdivrem_rem:
  assumes us: "digs us" and len: "u + m + n = 4" and d: "d < 16" and R: "R < DB ^ n"
    and r: "seg us (u + m + 1) n = R * 2 ^ d" "\<forall>k \<le> u + m. us ! k = 0"
  shows "\<exists>us'. (if 0 < d then qshr us u m d (m + n) else Inr us) = Inr us' \<and> digs us' \<and> seg us' 1 4 = R"
proof (cases "d = 0")
  case True
  have "seg us 1 4 = seg us (u + m + 1) n" using r(2) len by (intro seg_lead) auto
  then show ?thesis using True r us by simp
next
  case False
  from qshr_spec [OF us, of u m n d] False d len obtain us' where
    q: "qshr us u m d (m + n) = Inr us'" "digs us'" "us' ! (u + m) = 0"
      "seg us' (u + m + 1) n = (seg us (u + m) (Suc n) div 2 ^ d) mod DB ^ n"
      "\<forall>j. j < u + m \<longrightarrow> us' ! j = us ! j" by auto
  have "seg us (u + m) (Suc n) = R * 2 ^ d" unfolding seg_front using r by simp
  then have "seg us' (u + m + 1) n = R" using q(4) R by simp
  moreover have "us' ! k = 0" if "k \<le> u + m" for k using that q(3,5) r(2) by (cases "k = u + m") auto
  then have "seg us' 1 4 = seg us' (u + m + 1) n" using len by (intro seg_lead) auto
  ultimately show ?thesis using q False by auto
qed

lemma qdivrem_eq:
  assumes "uq < 2 ^ 64" "vq < 2 ^ 64" "vq \<noteq> 0" and junk: "digs junk"
  shows "qdivrem junk uq vq = Inr (uq div vq, uq mod vq)"
proof (cases "uq < vq")
  case True
  with assms show ?thesis by (simp add: qdivrem_def)
next
  case False
  define us where "us = qdigits 0 uq"
  define vs where "vs = qdigits (junk ! 0) vq"
  have us: "digs us" "seg us 1 4 = uq" "us ! 0 = 0"
    unfolding us_def using assms by (blast intro: qdigits_digs seg_qdigits qdigits_nth(1) DB_pos(1))+
  have vs: "digs vs" "seg vs 1 4 = vq"
    unfolding vs_def using assms digs_nth [OF junk, of 0] by (auto intro: qdigits_digs seg_qdigits simp del: seg.simps One_nat_def)
  show ?thesis
  proof (cases "vs ! 1 = 0 \<and> vs ! 2 = 0 \<and> vs ! 3 = 0")
    case True
    then have v4: "vs ! 4 = vq" using vs(2) unfolding seg_4 by simp
    then have "vq < DB" using digs_nth [OF vs(1), of 4] by simp
    then have "qdiv1 us (vs ! 4) = (uq div vq, uq mod vq)"
      using qdiv1_spec [OF us(1), of vq] assms us(2) v4 by simp
    then show ?thesis using True False assms by (simp add: qdivrem_def us_def vs_def)
  next
    case multi: False
    then consider "vs ! 1 \<noteq> 0" | "vs ! 2 \<noteq> 0" | "vs ! 3 \<noteq> 0" by metis
    then obtain k where k: "0 < k" "k < 4" "vs ! k \<noteq> 0" "k < 5" by cases (use that [of 1] that [of 2] that [of 3] in auto)
    from qskip_digits [OF vs(1) k(1,4,3)] obtain v where "v < k" and v: "qskip vs 0 = Inr v"
      "vq = seg vs (v + 1) (4 - v)" "vs ! (v + 1) \<noteq> 0" "DB ^ (3 - v) \<le> vq" "vq < DB ^ (4 - v)"
      unfolding vs(2) by blast
    have v2: "v \<le> 2" using \<open>v < k\<close> k(2) by simp
    have "\<exists>k. 0 < k \<and> k < 5 \<and> us ! k \<noteq> 0"
    proof (rule ccontr)
      assume "\<not> ?thesis"
      then have "us ! k = 0" if "0 < k" "k < 5" for k using that by blast
      from this [of 1] this [of 2] this [of 3] this [of 4] have "seg us 1 4 = 0" unfolding seg_4 by simp
      then show False using us(2) False assms(3) by simp
    qed
    then obtain l where l: "0 < l" "l < 5" "us ! l \<noteq> 0" by blast
    from qskip_digits [OF us(1) l] obtain u where "u < l" and u: "qskip us 0 = Inr u"
      "uq = seg us (u + 1) (4 - u)" "uq < DB ^ (4 - u)" "\<forall>i. 0 < i \<and> i \<le> u \<longrightarrow> us ! i = 0"
      unfolding us(2) by blast
    have "DB ^ (3 - v) < DB ^ (4 - u)" using v(4) u(3) False by linarith
    then have "3 - v < 4 - u" by (rule power_less_imp_less_exp [rotated]) (simp add: DB_def)
    then have uv: "u \<le> v" using v2 by linarith
    define n where "n = 4 - v"
    define m where "m = 4 - n - u"
    have len: "u + m + n = 4" "v + n = 4" "2 \<le> n" "4 - u = m + n" "4 - v = n"
      using uv v2 unfolding m_def n_def by simp_all
    have v1: "vs ! (v + 1) < DB" using vs(1) v2 by (intro digs_nth) auto
    from qnorm_spec [OF _ v1, of 0] v(3) obtain d where d: "qnorm (vs ! (v + 1)) 0 = Inr d" "d < 16"
      "vs ! (v + 1) * 2 ^ d < DB" by auto
    define qs where "qs = replicate (4 - m) 0 @ drop (4 - m) junk"
    have qs: "length qs = 5" "\<forall>i < 4 - m. qs ! i = 0" using junk by (auto simp: qs_def nth_append)
    have lead: "\<forall>i \<le> u. us ! i = 0" using u(4) us(3) by (metis gr0I)
    from qdivrem_run [OF us(1) vs(1) len(1-3) d(2,3) v(3) lead qs u(2) [unfolded len] v(2) [unfolded len]]
    obtain us1 vs1 us2 qs' where r: "qshl2 us vs u v m n d = Inr (us1, vs1)"
      "qloop us1 vs1 qs u v (4 - m) n m 0 = Inr (us2, qs')" "digs qs'" "seg qs' 1 4 = uq div vq" "digs us2"
      "seg us2 (u + m + 1) n = uq mod vq * 2 ^ d" "\<forall>k \<le> u + m. us2 ! k = 0" by blast
    have "uq mod vq < DB ^ n" using v(5) assms(3) unfolding len
      by (meson less_trans mod_less_divisor neq0_conv)
    from qdivrem_rem [OF r(5) len(1) d(2) this r(6,7)] obtain us3 where
      e: "(if 0 < d then qshr us2 u m d (m + n) else Inr us2) = Inr us3" "digs us3" "seg us3 1 4 = uq mod vq"
      by blast
    have rd: "rd vs (v + 1) = Inr (vs ! (v + 1))" using vs(1) v2 by simp
    have "qdivrem junk uq vq = rbind (qskip vs 0) (\<lambda>v. let n = 4 - v in
          rbind (qskip us 0) (\<lambda>u. let m = 4 - n - u in
          let qs = replicate (4 - m) 0 @ drop (4 - m) junk in
          rbind (rd vs (v + 1)) (\<lambda>v1. rbind (qnorm v1 0) (\<lambda>d.
          rbind (qshl2 us vs u v m n d) (\<lambda>(us, vs).
          rbind (qloop us vs qs u v (4 - m) n m 0) (\<lambda>(us, qs).
          rbind (if 0 < d then qshr us u m d (m + n) else Inr us) (\<lambda>us.
            Inr (qcombine qs, qcombine us))))))))"
      unfolding qdivrem_def qshl2_def us_def [symmetric] vs_def [symmetric] Let_def
      using assms(3) False multi by (simp only: if_False)
    also have "\<dots> = Inr (qcombine qs', qcombine us3)"
      unfolding v(1) u(1) rbind_Inr Let_def n_def [symmetric] m_def [symmetric] qs_def [symmetric] rd d(1) r(1,2)
        prod.case e(1) ..
    finally show ?thesis unfolding qcombine_seg [OF r(3)] qcombine_seg [OF e(2)] r(4) e(3) .
  qed
qed

section \<open>The entry points\<close>

definition udivdi3 :: "nat list \<Rightarrow> quad \<Rightarrow> quad \<Rightarrow> quad kres" where
  "udivdi3 junk a b = rbind (qdivrem junk (unat a) (unat b)) (\<lambda>(q, r). Inr (of_nat q))"

definition umoddi3 :: "nat list \<Rightarrow> quad \<Rightarrow> quad \<Rightarrow> quad kres" where
  "umoddi3 junk a b = rbind (qdivrem junk (unat a) (unat b)) (\<lambda>(q, r). Inr (of_nat r))"

definition divdi3 :: "nat list \<Rightarrow> quad \<Rightarrow> quad \<Rightarrow> quad kres" where
  "divdi3 junk a b =
     (let (ua, neg) = (if a <s 0 then (- a, True) else (a, False));
          (ub, neg) = (if b <s 0 then (- b, \<not> neg) else (b, neg))
      in rbind (qdivrem junk (unat ua) (unat ub)) (\<lambda>(q, r). let uq = of_nat q in Inr (if neg then - uq else uq)))"

definition moddi3 :: "nat list \<Rightarrow> quad \<Rightarrow> quad \<Rightarrow> quad kres" where
  "moddi3 junk a b =
     (let (ua, neg) = (if a <s 0 then (- a, True) else (a, False));
          ub = (if b <s 0 then - b else b)
      in rbind (qdivrem junk (unat ua) (unat ub)) (\<lambda>(q, r). let ur = of_nat r in Inr (if neg then - ur else ur)))"

lemma udivdi3_eq: "digs junk \<Longrightarrow> b \<noteq> 0 \<Longrightarrow> udivdi3 junk a b = Inr (a div b)"
  using qdivrem_eq [OF unat_quad unat_quad, of b junk a] by (simp add: udivdi3_def unat_eq_zero word_arith_nat_div)

lemma umoddi3_eq: "digs junk \<Longrightarrow> b \<noteq> 0 \<Longrightarrow> umoddi3 junk a b = Inr (a mod b)"
  using qdivrem_eq [OF unat_quad unat_quad, of b junk a] by (simp add: umoddi3_def unat_eq_zero word_arith_nat_mod)

text \<open>The magnitude of a signed quad fits the unsigned one, the smallest number included.\<close>

lemma unat_abs: "int (unat (if a <s 0 then - a else (a :: quad))) = \<bar>sint a\<bar>"
proof (cases "a <s 0")
  case True
  then have s: "sint a < 0" by (simp add: word_sless_alt)
  then have b: "bit a 63" using sint_quad [of a] uint_ge_0 [of a] by (auto split: if_splits)
  then have "sint a = uint a - 2 ^ 64" using sint_quad [of a] by simp
  moreover have "uint (- a) = (2 ^ 64 - uint a)"
  proof -
    have "a \<noteq> 0" using b by auto
    then have "0 < uint a" "uint a < 2 ^ 64" using uint_bounded [of a] by (auto simp: word_neq_0_conv word_less_def)
    then show ?thesis unfolding uint_word_ariths(4) by (simp add: zmod_zminus1_eq_if)
  qed
  ultimately show ?thesis using True s by simp
next
  case False
  then have "0 \<le> sint a" by (simp add: word_sless_alt)
  then have "\<not> bit a 63" using sint_quad [of a] uint_bounded [of a] by auto
  then show ?thesis using False sint_quad [of a] by simp
qed

lemma quad_signs: "(a <s 0) = (sint (a :: quad) < 0)" "(a = 0) = (sint (a :: quad) = 0)"
  by (simp add: word_sless_alt, metis signed_0 signed_word_eqI)

lemma qdivrem_abs:
  assumes "digs junk" "b \<noteq> 0"
  shows "\<exists>q r. qdivrem junk (unat (if a <s 0 then - a else a)) (unat (if b <s 0 then - b else b)) = Inr (q, r) \<and>
    int q = \<bar>sint a\<bar> div \<bar>sint b\<bar> \<and> int r = \<bar>sint (a :: quad)\<bar> mod \<bar>sint (b :: quad)\<bar>"
proof -
  let ?ua = "if a <s 0 then - a else a" and ?ub = "if b <s 0 then - b else b"
  have "sint b \<noteq> 0" using assms(2) quad_signs(2) [of b] by blast
  then have "unat ?ub \<noteq> 0" using unat_abs [of b] by linarith
  from qdivrem_eq [OF unat_quad unat_quad this assms(1), of ?ua]
  show ?thesis by (intro exI conjI) (assumption, simp_all only: of_nat_div of_nat_mod unat_abs)
qed

lemma of_nat_int: "int q = k \<Longrightarrow> (of_nat q :: quad) = word_of_int k"
  by auto

lemma divdi3_eq:
  assumes "digs junk" "b \<noteq> 0"
  shows "divdi3 junk a b = Inr (word_of_int (sint a sdiv sint b))"
proof -
  from qdivrem_abs [OF assms, of a] obtain q r where q: "int q = \<bar>sint a\<bar> div \<bar>sint b\<bar>"
    "qdivrem junk (unat (if a <s 0 then - a else a)) (unat (if b <s 0 then - b else b)) = Inr (q, r)" by blast
  have b: "sint b \<noteq> 0" using assms(2) quad_signs(2) [of b] by blast
  have "divdi3 junk a b = Inr (if (a <s 0) \<noteq> (b <s 0) then - of_nat q else of_nat q)"
    using q(2) by (auto simp: divdi3_def Let_def split: if_splits)
  also have "\<dots> = Inr (word_of_int (sint a sdiv sint b))"
    unfolding of_nat_int [OF q(1)] quad_signs(1) signed_divide_int_def using b
    by (cases "sint a" rule: linorder_cases [of _ 0]; cases "sint b" rule: linorder_cases [of _ 0]) (auto simp: sgn_if)
  finally show ?thesis .
qed

lemma moddi3_eq:
  assumes "digs junk" "b \<noteq> 0"
  shows "moddi3 junk a b = Inr (word_of_int (sint a smod sint b))"
proof -
  from qdivrem_abs [OF assms, of a] obtain q r where q: "int r = \<bar>sint a\<bar> mod \<bar>sint b\<bar>"
    "qdivrem junk (unat (if a <s 0 then - a else a)) (unat (if b <s 0 then - b else b)) = Inr (q, r)" by blast
  have "moddi3 junk a b = Inr (if a <s 0 then - of_nat r else of_nat r)"
    using q(2) by (auto simp: moddi3_def Let_def split: if_splits)
  also have "\<dots> = Inr (word_of_int (sint a smod sint b))"
    unfolding of_nat_int [OF q(1)] quad_signs(1) signed_modulo_int_def by (auto simp: sgn_if)
  finally show ?thesis .
qed

end
