(* ===== verification/Quad_Props.thy ===== *)
theory Quad_Props
  imports Quad_Divrem
begin

text \<open>
  The properties of the 64-bit arithmetic: every routine that works on halves or on base \<open>2 ^ 16\<close> digits
  is the operation of the 64-bit machine type.
\<close>

unbundle bit_operations_syntax

text \<open>C3. Knuth's long division is correct: for every 64-bit dividend and every 64-bit divisor but zero,
and whatever the uninitialised digit arrays hold, \<open>__qdivrem\<close> stays inside its arrays, ends and
returns the quotient and the remainder.\<close>

theorem qdivrem_divides:
  assumes "uq < 2 ^ 64" "vq < 2 ^ 64" "vq \<noteq> 0" "digs junk"
  shows "qdivrem junk uq vq = Inr (uq div vq, uq mod vq)"
  by (rule qdivrem_eq [OF assms])

theorem qdivrem_divides_witness:
  "qdivrem [7, 7, 7, 7, 7] 18446744073709551615 4294967297 = Inr (4294967295, 0)"
  by (subst qdivrem_divides) (simp_all add: digs_def five_less DB_def)

text \<open>C13. Division by zero traps in all four entry points.  Otherwise the signed division rounds towards zero, the
signed remainder has the sign of the dividend, and the unsigned entry points give quotient and remainder, for all
operands; the most negative quad divided by -1 wraps around.\<close>

theorem quad_division_entry_points:
  assumes "digs junk"
  shows "if b = 0 then
      divdi3 junk a b = Inl (Panic ''divide by zero'') \<and> moddi3 junk a b = Inl (Panic ''divide by zero'') \<and>
      udivdi3 junk a b = Inl (Panic ''divide by zero'') \<and> umoddi3 junk a b = Inl (Panic ''divide by zero'')
    else
      divdi3 junk a b = Inr (word_of_int (sint a sdiv sint b)) \<and> moddi3 junk a b = Inr (word_of_int (sint a smod sint b)) \<and>
      udivdi3 junk a b = Inr (a div b) \<and> umoddi3 junk a b = Inr (a mod b)"
proof (cases "b = 0")
  case True
  then show ?thesis by (simp add: udivdi3_def umoddi3_def divdi3_def moddi3_def qdivrem_def)
next
  case False
  then show ?thesis
    using divdi3_eq [OF assms False] moddi3_eq [OF assms False] udivdi3_eq [OF assms False] umoddi3_eq [OF assms False] by simp
qed

theorem quad_division_entry_points_witness:
  "divdi3 [0, 0, 0, 0, 0] (- 7) 2 = Inr (- 3) \<and> moddi3 [0, 0, 0, 0, 0] (- 7) 2 = Inr (- 1) \<and>
   divdi3 [0, 0, 0, 0, 0] (- 7) 0 = Inl (Panic ''divide by zero'')"
proof -
  have d: "digs [0, 0, 0, 0, 0]" by (simp add: digs_def five_less DB_def)
  show ?thesis
    using quad_division_entry_points [OF d, of 2 "- 7"] quad_division_entry_points [OF d, of 0 "- 7"]
    by (simp add: signed_divide_int_def signed_modulo_int_def)
qed

text \<open>C14. The multiplication by halves with the Karatsuba trick is the product modulo \<open>2 ^ 64\<close>, and the
product of two longs is exact.\<close>

theorem muldi3_multiplies: "muldi3 a b = a * b \<and> unat (lmulq x y) = unat x * unat y"
proof -
  have "unat x * unat y < 2 ^ 32 * 2 ^ 32" by (intro mult_strict_mono unat_u_long) simp_all
  then have "unat (ucast x * ucast y :: quad) = unat x * unat y" by (simp add: unat_mult_lem [THEN iffD1])
  then show ?thesis by (simp add: muldi3_eq lmulq_eq)
qed

text \<open>C15. The half-wise additions, subtractions, negations, bitwise operations, shifts and three-way comparisons agree
with the 64-bit operations for all operands, carries and borrows included; shift counts of 64 and more give zero, or the
sign in every bit for the arithmetic right shift.\<close>

theorem quad_halves_agree:
  "adddi3 a b = a + b \<and> subdi3 a b = a - b \<and> negdi2 a = - a \<and> one_cmpldi2 a = NOT a \<and>
   anddi3 a b = a AND b \<and> iordi3 a b = a OR b \<and> xordi3 a b = a XOR b \<and>
   ashldi3 a sh = push_bit sh a \<and> lshldi3 a sh = push_bit sh a \<and> lshrdi3 a sh = drop_bit sh a \<and>
   ashrdi3 a sh = signed_drop_bit sh a \<and> ucmpdi2 a b = (if a < b then 0 else if a = b then 1 else 2) \<and>
   cmpdi2 a b = (if a <s b then 0 else if a = b then 1 else 2)"
  by (simp add: adddi3_eq subdi3_eq negdi2_eq one_cmpldi2_eq bitwise_eq left_shift_eq lshrdi3_eq ashrdi3_eq ucmpdi2_eq cmpdi2_eq)

end
