(* ===== verification/Kern_Ctype.thy ===== *)
theory Kern_Ctype
  imports Kern_Prelude
begin

text \<open>
  Bytes and C strings: the character classes of \<open>sys/sys/ctype.h\<close> on unsigned chars, and strings in
  memory as byte arrays with a terminating zero.  An \<open>unsigned char\<close> is a natural number below 256,
  character constants are written with their codes.
\<close>

unbundle bit_operations_syntax

type_synonym byte = nat

section \<open>Character classes\<close>

definition isspace :: "byte \<Rightarrow> bool" where
  "isspace c \<longleftrightarrow> c = 32 \<or> 9 \<le> c \<and> c \<le> 13"

definition isascii :: "byte \<Rightarrow> bool" where
  "isascii c \<longleftrightarrow> drop_bit 7 c = 0"

definition isupper :: "byte \<Rightarrow> bool" where
  "isupper c \<longleftrightarrow> 65 \<le> c \<and> c \<le> 90"

definition islower :: "byte \<Rightarrow> bool" where
  "islower c \<longleftrightarrow> 97 \<le> c \<and> c \<le> 122"

definition isalpha :: "byte \<Rightarrow> bool" where
  "isalpha c \<longleftrightarrow> isupper c \<or> islower c"

definition isdigit :: "byte \<Rightarrow> bool" where
  "isdigit c \<longleftrightarrow> 48 \<le> c \<and> c \<le> 57"

definition isxdigit :: "byte \<Rightarrow> bool" where
  "isxdigit c \<longleftrightarrow> isdigit c \<or> 65 \<le> c \<and> c \<le> 70 \<or> 97 \<le> c \<and> c \<le> 102"

definition isprint :: "byte \<Rightarrow> bool" where
  "isprint c \<longleftrightarrow> 32 \<le> c \<and> c \<le> 126"

definition toupper :: "byte \<Rightarrow> byte" where
  "toupper c = c - 32 * of_bool (97 \<le> c \<and> c \<le> 122)"

definition tolower :: "byte \<Rightarrow> byte" where
  "tolower c = c + 32 * of_bool (65 \<le> c \<and> c \<le> 90)"

lemmas ctype_defs = isspace_def isupper_def islower_def isalpha_def isdigit_def isxdigit_def isprint_def

lemma isascii_iff: "isascii c \<longleftrightarrow> c < 128"
  by (simp add: isascii_def drop_bit_eq_div div_eq_0_iff)

lemma ctype_nul [simp]: "\<not> isspace 0" "\<not> isalpha 0" "\<not> isdigit 0" "isascii 0"
  by (simp_all add: ctype_defs isascii_iff)

section \<open>Strings in memory\<close>

text \<open>
  \<open>cstr buf i t\<close>: the string at offset \<open>i\<close> of the array is \<open>t\<close>, that is, the bytes of \<open>t\<close> are not
  zero and a zero follows them inside the array.
\<close>

definition cstr :: "byte list \<Rightarrow> nat \<Rightarrow> byte list \<Rightarrow> bool" where
  "cstr buf i t \<longleftrightarrow> i + length t < length buf \<and> take (length t) (drop i buf) = t \<and> 0 \<notin> set t \<and>
     buf ! (i + length t) = 0"

lemma cstr_nth: "cstr buf i t \<Longrightarrow> k < length t \<Longrightarrow> buf ! (i + k) = t ! k"
  unfolding cstr_def by (metis add.commute less_imp_le_nat nth_drop nth_take add_lessD1 le_add1 less_le_trans)

lemma cstr_drop: "cstr buf i t \<longleftrightarrow> (\<exists>r. drop i buf = t @ 0 # r) \<and> 0 \<notin> set t"
proof
  assume c: "cstr buf i t"
  then have "drop i buf = t @ drop (length t) (drop i buf)"
    unfolding cstr_def by (metis append_take_drop_id)
  also have "drop (length t) (drop i buf) = 0 # drop (Suc (i + length t)) buf"
    using c unfolding cstr_def by (simp add: add.commute) (metis Cons_nth_drop_Suc)
  finally show "(\<exists>r. drop i buf = t @ 0 # r) \<and> 0 \<notin> set t" using c by (auto simp: cstr_def)
next
  assume "(\<exists>r. drop i buf = t @ 0 # r) \<and> 0 \<notin> set t"
  then obtain r where r: "drop i buf = t @ 0 # r" "0 \<notin> set t" by blast
  have l: "length buf - i = length t + Suc (length r)" using arg_cong [OF r(1), of length] by simp
  have "buf ! (i + length t) = drop i buf ! length t" using l by simp
  also have "\<dots> = 0" by (simp add: r(1))
  finally show "cstr buf i t" using r l by (simp add: cstr_def)
qed

lemma cstr_takeWhile: "cstr buf i t \<Longrightarrow> t = takeWhile (\<lambda>c. c \<noteq> 0) (drop i buf)"
  by (auto simp: cstr_drop takeWhile_append)

lemma cstr_fun: "cstr buf i t \<Longrightarrow> cstr buf i t' \<Longrightarrow> t = t'"
  using cstr_takeWhile by metis

lemma cstr_ex: "0 \<in> set (drop i buf) \<Longrightarrow> \<exists>t. cstr buf i t"
  by (metis cstr_drop split_list_first)

lemma cstr_rd: "cstr buf i t \<Longrightarrow> k \<le> length t \<Longrightarrow> rd buf (i + k) = Inr ((t @ [0]) ! k)"
  by (cases "k < length t") (auto simp: cstr_nth nth_append, auto simp: cstr_def cstr_nth)

lemma cstr_0: "cstr buf i t \<Longrightarrow> rd buf i = Inr (case t of [] \<Rightarrow> 0 | c # _ \<Rightarrow> c)"
  using cstr_rd [of buf i t 0] by (simp split: list.split)

lemma cstr_Cons: "cstr buf i (c # t) \<Longrightarrow> cstr buf (Suc i) t"
proof -
  assume c: "cstr buf i (c # t)"
  then obtain r where "drop i buf = c # t @ 0 # r" "0 \<notin> set t" by (auto simp: cstr_drop)
  moreover from this(1) have "drop (Suc i) buf = t @ 0 # r" by (metis drop_Suc tl_drop list.sel(3))
  ultimately show ?thesis by (auto simp: cstr_drop)
qed

lemma cstr_append: "cstr buf i (s @ t) \<Longrightarrow> cstr buf (i + length s) t"
proof (induction s arbitrary: i)
  case (Cons a s)
  then show ?case using Cons.IH [of "Suc i"] cstr_Cons [of buf i a "s @ t"] by simp
qed simp

lemma cstr_less: "cstr buf i t \<Longrightarrow> i + length t < length buf"
  by (simp add: cstr_def)

end
