(* ===== verification/Libkern_Str.thy ===== *)
theory Libkern_Str
  imports Kern_Ctype
begin

text \<open>
  The string routines of \<open>sys/libkern\<close> on byte arrays.  A pointer is an offset into its array, source and
  destination are different arrays (the prototypes say \<open>__restrict\<close>), every access is checked.  For
  strings \<open>t\<close> that are terminated inside their array (\<open>cstr\<close>) each routine is described by the list
  operation it implements.
\<close>

section \<open>Length and comparison\<close>

function strlen_loop :: "byte list \<Rightarrow> nat \<Rightarrow> nat kres" where
  "strlen_loop buf s =
     (if length buf \<le> s then Inl Bad_Access else if buf ! s \<noteq> 0 then strlen_loop buf (s + 1) else Inr s)"
  by pat_completeness auto
termination
  by (relation "measure (\<lambda>(buf, s). length buf - s)") auto

definition strlen :: "byte list \<Rightarrow> nat \<Rightarrow> nat kres" where
  "strlen buf str = rbind (strlen_loop buf str) (\<lambda>s. Inr (s - str))"

function strcmp :: "byte list \<Rightarrow> nat \<Rightarrow> byte list \<Rightarrow> nat \<Rightarrow> int kres" where
  "strcmp b1 s1 b2 s2 =
     (if length b1 \<le> s1 \<or> length b2 \<le> s2 then Inl Bad_Access
      else if b1 ! s1 = b2 ! s2 then
        (if b1 ! s1 = 0 then Inr 0 else strcmp b1 (s1 + 1) b2 (s2 + 1))
      else Inr (int (b1 ! s1) - int (b2 ! s2)))"
  by pat_completeness auto
termination
  by (relation "measure (\<lambda>(b1, s1, b2, s2). length b1 - s1)") auto

text \<open>The loop of \<open>strncmp\<close>; the count is positive.\<close>

fun strncmp_loop :: "byte list \<Rightarrow> nat \<Rightarrow> byte list \<Rightarrow> nat \<Rightarrow> nat \<Rightarrow> int kres" where
  "strncmp_loop b1 s1 b2 s2 0 = Inr 0"
| "strncmp_loop b1 s1 b2 s2 (Suc n) =
     (if length b1 \<le> s1 \<or> length b2 \<le> s2 then Inl Bad_Access
      else if b1 ! s1 \<noteq> b2 ! s2 then Inr (int (b1 ! s1) - int (b2 ! s2))
      else if b1 ! s1 = 0 then Inr 0
      else strncmp_loop b1 (s1 + 1) b2 (s2 + 1) n)"

definition strncmp :: "byte list \<Rightarrow> nat \<Rightarrow> byte list \<Rightarrow> nat \<Rightarrow> nat \<Rightarrow> int kres" where
  "strncmp b1 s1 b2 s2 n = (if n = 0 then Inr 0 else strncmp_loop b1 s1 b2 s2 n)"

function strcasecmp :: "byte list \<Rightarrow> nat \<Rightarrow> byte list \<Rightarrow> nat \<Rightarrow> int kres" where
  "strcasecmp b1 s1 b2 s2 =
     (if length b1 \<le> s1 \<or> length b2 \<le> s2 then Inl Bad_Access
      else if tolower (b1 ! s1) = tolower (b2 ! s2) then
        (if b1 ! s1 = 0 then Inr 0 else strcasecmp b1 (s1 + 1) b2 (s2 + 1))
      else Inr (int (tolower (b1 ! s1)) - int (tolower (b2 ! s2))))"
  by pat_completeness auto
termination
  by (relation "measure (\<lambda>(b1, s1, b2, s2). length b1 - s1)") auto

fun strncasecmp_loop :: "byte list \<Rightarrow> nat \<Rightarrow> byte list \<Rightarrow> nat \<Rightarrow> nat \<Rightarrow> int kres" where
  "strncasecmp_loop b1 s1 b2 s2 0 = Inr 0"
| "strncasecmp_loop b1 s1 b2 s2 (Suc n) =
     (if length b1 \<le> s1 \<or> length b2 \<le> s2 then Inl Bad_Access
      else if tolower (b1 ! s1) \<noteq> tolower (b2 ! s2) then Inr (int (tolower (b1 ! s1)) - int (tolower (b2 ! s2)))
      else if b1 ! s1 = 0 then Inr 0
      else strncasecmp_loop b1 (s1 + 1) b2 (s2 + 1) n)"

definition strncasecmp :: "byte list \<Rightarrow> nat \<Rightarrow> byte list \<Rightarrow> nat \<Rightarrow> nat \<Rightarrow> int kres" where
  "strncasecmp b1 s1 b2 s2 n = (if n \<noteq> 0 then strncasecmp_loop b1 s1 b2 s2 n else Inr 0)"

declare strlen_loop.simps [simp del] strcmp.simps [simp del] strcasecmp.simps [simp del]

text \<open>The reference: the difference at the first place where two byte strings differ.\<close>

fun dcmp :: "byte list \<Rightarrow> byte list \<Rightarrow> int" where
  "dcmp (x # xs) (y # ys) = (if x = y then dcmp xs ys else int x - int y)"
| "dcmp (x # xs) [] = int x"
| "dcmp [] (y # ys) = - int y"
| "dcmp [] [] = 0"

lemma dcmp_0: "0 \<notin> set xs \<Longrightarrow> 0 \<notin> set ys \<Longrightarrow> dcmp xs ys = 0 \<longleftrightarrow> xs = ys"
  by (induction xs ys rule: dcmp.induct) auto

lemma dcmp_neg: "0 \<notin> set xs \<Longrightarrow> 0 \<notin> set ys \<Longrightarrow> dcmp xs ys < 0 \<longleftrightarrow> (xs, ys) \<in> lexord {(a, b). a < b}"
  by (induction xs ys rule: dcmp.induct) auto

lemma dcmp_antisym: "dcmp ys xs = - dcmp xs ys"
  by (induction xs ys rule: dcmp.induct) auto

lemma cstr_hd: "cstr buf i t \<Longrightarrow> i < length buf \<and> buf ! i = hd (t @ [0])"
  using cstr_rd [of buf i t 0] by (auto simp: rd_def hd_conv_nth nth_append split: if_splits)

lemma strlen_loop_spec: "cstr buf i t \<Longrightarrow> strlen_loop buf i = Inr (i + length t)"
proof (induction t arbitrary: i)
  case Nil
  then show ?case using cstr_hd [OF Nil] by (subst strlen_loop.simps) simp
next
  case (Cons c t)
  have "c \<noteq> 0" using Cons.prems by (auto simp: cstr_def)
  then show ?case using cstr_hd [OF Cons.prems] Cons.IH [OF cstr_Cons [OF Cons.prems]]
    by (subst strlen_loop.simps) simp
qed

lemma strlen_spec: "cstr buf i t \<Longrightarrow> strlen buf i = Inr (length t)"
  by (simp add: strlen_def strlen_loop_spec)

lemma cstr_neq_0: "cstr buf i (c # t) \<Longrightarrow> 0 < c"
  by (auto simp: cstr_def)

lemma strcmp_spec: "cstr b1 i t1 \<Longrightarrow> cstr b2 j t2 \<Longrightarrow> strcmp b1 i b2 j = Inr (dcmp t1 t2)"
proof (induction t1 t2 arbitrary: i j rule: dcmp.induct)
  case (1 x xs y ys)
  show ?case using cstr_hd [OF 1(2)] cstr_hd [OF 1(3)] cstr_neq_0 [OF 1(2)] 1(1) [OF _ cstr_Cons [OF 1(2)] cstr_Cons [OF 1(3)]]
    by (subst strcmp.simps) simp
next
  case (2 x xs)
  then show ?case using cstr_hd [OF 2(1)] cstr_hd [OF 2(2)] cstr_neq_0 [OF 2(1)] by (subst strcmp.simps) simp
next
  case (3 y ys)
  then show ?case using cstr_hd [OF 3(1)] cstr_hd [OF 3(2)] cstr_neq_0 [OF 3(2)] by (subst strcmp.simps) simp
next
  case 4
  then show ?case using cstr_hd [OF 4(1)] cstr_hd [OF 4(2)] by (subst strcmp.simps) simp
qed

lemma strncmp_spec: "cstr b1 i t1 \<Longrightarrow> cstr b2 j t2 \<Longrightarrow> strncmp b1 i b2 j n = Inr (dcmp (take n t1) (take n t2))"
proof -
  have "strncmp_loop b1 i b2 j n = Inr (dcmp (take n t1) (take n t2))" if "cstr b1 i t1" "cstr b2 j t2" for i j n t1 t2
    using that
  proof (induction n arbitrary: i j t1 t2)
    case (Suc n)
    note h = cstr_hd [OF Suc.prems(1)] cstr_hd [OF Suc.prems(2)]
    show ?case
    proof (cases t1)
      case Nil
      then show ?thesis using h Suc.prems(2) by (cases t2) (auto dest: cstr_neq_0)
    next
      case (Cons x xs)
      then show ?thesis using h Suc.prems Suc.IH [of "Suc i" xs "Suc j" "tl t2"]
        by (cases t2) (auto dest: cstr_neq_0 cstr_Cons)
    qed
  qed simp
  then show "cstr b1 i t1 \<Longrightarrow> cstr b2 j t2 \<Longrightarrow> strncmp b1 i b2 j n = Inr (dcmp (take n t1) (take n t2))"
    by (auto simp: strncmp_def)
qed

lemma tolower_pos [simp]: "0 < tolower c \<longleftrightarrow> 0 < c" "tolower c = 0 \<longleftrightarrow> c = 0" "0 = tolower c \<longleftrightarrow> c = 0" "tolower 0 = 0"
  by (auto simp: tolower_def)

lemma strcasecmp_spec:
  "cstr b1 i t1 \<Longrightarrow> cstr b2 j t2 \<Longrightarrow> strcasecmp b1 i b2 j = Inr (dcmp (map tolower t1) (map tolower t2))"
proof (induction t1 arbitrary: i j t2)
  case Nil
  then show ?case using cstr_hd [OF Nil(1)] cstr_hd [OF Nil(2)]
    by (subst strcasecmp.simps, cases t2) (auto dest: cstr_neq_0)
next
  case (Cons x xs)
  note h = cstr_hd [OF Cons.prems(1)] cstr_hd [OF Cons.prems(2)] cstr_neq_0 [OF Cons.prems(1)]
  show ?case
  proof (cases t2)
    case Nil
    then show ?thesis using h by (subst strcasecmp.simps) auto
  next
    case y: (Cons y ys)
    then have "cstr b2 (Suc j) ys" using Cons.prems(2) cstr_Cons by simp
    from Cons.IH [OF cstr_Cons [OF Cons.prems(1)] this] h y show ?thesis by (subst strcasecmp.simps) auto
  qed
qed

lemma strncasecmp_spec: "cstr b1 i t1 \<Longrightarrow> cstr b2 j t2 \<Longrightarrow>
    strncasecmp b1 i b2 j n = Inr (dcmp (map tolower (take n t1)) (map tolower (take n t2)))"
proof -
  have "strncasecmp_loop b1 i b2 j n = Inr (dcmp (map tolower (take n t1)) (map tolower (take n t2)))"
    if "cstr b1 i t1" "cstr b2 j t2" for i j n t1 t2
    using that
  proof (induction n arbitrary: i j t1 t2)
    case (Suc n)
    note h = cstr_hd [OF Suc.prems(1)] cstr_hd [OF Suc.prems(2)]
    show ?case
    proof (cases t1)
      case Nil
      then show ?thesis using h Suc.prems(2) by (cases t2) (auto dest: cstr_neq_0)
    next
      case (Cons x xs)
      then show ?thesis using h Suc.prems Suc.IH [of "Suc i" xs "Suc j" "tl t2"]
        by (cases t2) (auto dest: cstr_neq_0 cstr_Cons)
    qed
  qed simp
  then show "cstr b1 i t1 \<Longrightarrow> cstr b2 j t2 \<Longrightarrow>
    strncasecmp b1 i b2 j n = Inr (dcmp (map tolower (take n t1)) (map tolower (take n t2)))"
    by (auto simp: strncasecmp_def)
qed

section \<open>Copying\<close>

function strcpy_loop :: "byte list \<Rightarrow> nat \<Rightarrow> byte list \<Rightarrow> nat \<Rightarrow> byte list kres" where
  "strcpy_loop dst d src s =
     (if length src \<le> s \<or> length dst \<le> d then Inl Bad_Access
      else let dst' = dst[d := src ! s]
           in if src ! s \<noteq> 0 then strcpy_loop dst' (d + 1) src (s + 1) else Inr dst')"
  by pat_completeness auto
termination
  by (relation "measure (\<lambda>(dst, d, src, s). length src - s)") auto

definition strcpy :: "byte list \<Rightarrow> nat \<Rightarrow> byte list \<Rightarrow> nat \<Rightarrow> byte list kres" where
  "strcpy dst d src s = strcpy_loop dst d src s"

definition strcat :: "byte list \<Rightarrow> nat \<Rightarrow> byte list \<Rightarrow> nat \<Rightarrow> byte list kres" where
  "strcat dst d src s = rbind (strlen_loop dst d) (\<lambda>e. strcpy_loop dst e src s)"

text \<open>\<open>while (--n != 0) *d++ = 0\<close> with \<open>n\<close> counted after the decrement.\<close>

fun nul_pad :: "byte list \<Rightarrow> nat \<Rightarrow> nat \<Rightarrow> byte list kres" where
  "nul_pad dst d 0 = Inr dst"
| "nul_pad dst d (Suc n) = rbind (wr dst d 0) (\<lambda>dst. nul_pad dst (d + 1) n)"

fun strncpy_loop :: "byte list \<Rightarrow> nat \<Rightarrow> byte list \<Rightarrow> nat \<Rightarrow> nat \<Rightarrow> byte list kres" where
  "strncpy_loop dst d src s 0 = Inr dst"
| "strncpy_loop dst d src s (Suc n) =
     rbind (rd src s) (\<lambda>c. rbind (wr dst d c) (\<lambda>dst.
       if c = 0 then nul_pad dst (d + 1) n else strncpy_loop dst (d + 1) src (s + 1) n))"

definition strncpy :: "byte list \<Rightarrow> nat \<Rightarrow> byte list \<Rightarrow> nat \<Rightarrow> nat \<Rightarrow> byte list kres" where
  "strncpy dst d src s n = (if n \<noteq> 0 then strncpy_loop dst d src s n else Inr dst)"

text \<open>
  The copy loop of \<open>strlcpy\<close> for \<open>n\<close> more bytes: it ends with the pointers and what is left of \<open>n\<close>,
  which is zero only if no terminator was copied.
\<close>

fun strlcpy_loop :: "byte list \<Rightarrow> nat \<Rightarrow> byte list \<Rightarrow> nat \<Rightarrow> nat \<Rightarrow> (byte list \<times> nat \<times> nat \<times> nat) kres" where
  "strlcpy_loop dst d src s 0 = Inr (dst, d, s, 0)"
| "strlcpy_loop dst d src s (Suc n) =
     rbind (rd src s) (\<lambda>c. rbind (wr dst d c) (\<lambda>dst.
       if c = 0 then Inr (dst, d + 1, s + 1, Suc n) else strlcpy_loop dst (d + 1) src (s + 1) n))"

definition strlcpy :: "byte list \<Rightarrow> nat \<Rightarrow> byte list \<Rightarrow> nat \<Rightarrow> nat \<Rightarrow> (byte list \<times> nat) kres" where
  "strlcpy dst dst0 src src0 siz =
     rbind (strlcpy_loop dst dst0 src src0 (siz - 1)) (\<lambda>(dst, d, s, n).
       if n = 0 then
         rbind (if siz \<noteq> 0 then wr dst d 0 else Inr dst) (\<lambda>dst.
         rbind (strlen_loop src s) (\<lambda>e. Inr (dst, e + 1 - src0 - 1)))
       else Inr (dst, s - src0 - 1))"

text \<open>\<open>while (n-- != 0 && *d != 0) d++\<close>\<close>

fun strlcat_end :: "byte list \<Rightarrow> nat \<Rightarrow> nat \<Rightarrow> nat kres" where
  "strlcat_end dst d 0 = Inr d"
| "strlcat_end dst d (Suc n) = rbind (rd dst d) (\<lambda>c. if c \<noteq> 0 then strlcat_end dst (d + 1) n else Inr d)"

function strlcat_loop :: "byte list \<Rightarrow> nat \<Rightarrow> byte list \<Rightarrow> nat \<Rightarrow> nat \<Rightarrow> (byte list \<times> nat \<times> nat) kres" where
  "strlcat_loop dst d src s n =
     (if length src \<le> s then Inl Bad_Access
      else if src ! s \<noteq> 0 then
        (if n \<noteq> 1 then
           (if length dst \<le> d then Inl Bad_Access
            else strlcat_loop (dst[d := src ! s]) (d + 1) src (s + 1) (n - 1))
         else strlcat_loop dst d src (s + 1) n)
      else Inr (dst, d, s))"
  by pat_completeness auto
termination
  by (relation "measure (\<lambda>(dst, d, src, s, n). length src - s)") auto

definition strlcat :: "byte list \<Rightarrow> nat \<Rightarrow> byte list \<Rightarrow> nat \<Rightarrow> nat \<Rightarrow> (byte list \<times> nat) kres" where
  "strlcat dst dst0 src src0 siz =
     rbind (strlcat_end dst dst0 siz) (\<lambda>d.
       let dlen = d - dst0; n = siz - dlen
       in if n = 0 then rbind (strlen src src0) (\<lambda>l. Inr (dst, dlen + l))
          else rbind (strlcat_loop dst d src src0 n) (\<lambda>(dst, d, s).
               rbind (wr dst d 0) (\<lambda>dst. Inr (dst, dlen + (s - src0)))))"

declare strcpy_loop.simps [simp del] strlcat_loop.simps [simp del]

text \<open>Writing a list of bytes at an offset.\<close>

definition put_at :: "byte list \<Rightarrow> nat \<Rightarrow> byte list \<Rightarrow> byte list" where
  "put_at dst d xs = take d dst @ xs @ drop (d + length xs) dst"

lemma length_put_at [simp]: "d + length xs \<le> length dst \<Longrightarrow> length (put_at dst d xs) = length dst"
  by (simp add: put_at_def)

lemma put_at_Nil [simp]: "put_at dst d [] = dst"
  by (simp add: put_at_def)

lemma put_at_Cons: "d < length dst \<Longrightarrow> put_at dst d (x # xs) = put_at (dst[d := x]) (d + 1) xs"
  by (simp add: put_at_def take_Suc_conv_app_nth)

lemma put_at_single: "d < length dst \<Longrightarrow> dst[d := x] = put_at dst d [x]"
  by (simp add: put_at_Cons)

lemma cstr_put_at: "d + length t < length dst \<Longrightarrow> 0 \<notin> set t \<Longrightarrow> cstr (put_at dst d (t @ [0])) d t"
  by (auto simp: cstr_drop put_at_def)

lemma strcpy_loop_spec:
  "cstr src s t \<Longrightarrow> d + length t < length dst \<Longrightarrow> strcpy_loop dst d src s = Inr (put_at dst d (t @ [0]))"
proof (induction t arbitrary: s d dst)
  case Nil
  then show ?case using cstr_hd [OF Nil(1)] by (subst strcpy_loop.simps) (simp add: put_at_single)
next
  case (Cons c t)
  show ?case using cstr_hd [OF Cons.prems(1)] cstr_neq_0 [OF Cons.prems(1)] Cons.prems(2)
      Cons.IH [OF cstr_Cons [OF Cons.prems(1)], of "d + 1" "dst[d := c]"]
    by (subst strcpy_loop.simps) (simp add: put_at_Cons)
qed

lemma strcpy_spec:
  "cstr src s t \<Longrightarrow> d + length t < length dst \<Longrightarrow> strcpy dst d src s = Inr (put_at dst d (t @ [0]))"
  by (simp add: strcpy_def strcpy_loop_spec)

lemma strcat_spec:
  "cstr dst d u \<Longrightarrow> cstr src s t \<Longrightarrow> d + length u + length t < length dst \<Longrightarrow>
   strcat dst d src s = Inr (put_at dst (d + length u) (t @ [0]))"
  by (simp add: strcat_def strlen_loop_spec strcpy_loop_spec)

lemma nul_pad_spec: "d + n \<le> length dst \<Longrightarrow> nul_pad dst d n = Inr (put_at dst d (replicate n 0))"
  by (induction n arbitrary: d dst) (simp_all add: put_at_Cons)

lemma strncpy_spec:
  assumes "cstr src s t" "d + n \<le> length dst"
  shows "strncpy dst d src s n = Inr (put_at dst d (take n (t @ replicate n 0)))"
proof -
  have "strncpy_loop dst d src s n = Inr (put_at dst d (take n (t @ replicate n 0)))"
    using assms
  proof (induction n arbitrary: d dst s t)
    case (Suc n)
    note h = cstr_hd [OF Suc.prems(1)]
    show ?case
    proof (cases t)
      case Nil
      then show ?thesis using h Suc.prems(2) by (simp add: nul_pad_spec put_at_Cons)
    next
      case (Cons c r)
      have "take n (r @ replicate (Suc n) 0) = take n (r @ replicate n (0::nat))" by (simp del: replicate_Suc)
      then show ?thesis using h Suc.prems(2) Cons cstr_neq_0 [OF Suc.prems(1) [unfolded Cons]]
          Suc.IH [OF cstr_Cons [OF Suc.prems(1) [unfolded Cons]], of "d + 1" "dst[d := c]"]
        by (simp add: put_at_Cons)
    qed
  qed simp
  then show ?thesis by (auto simp: strncpy_def)
qed

lemma put_at_append: "d + length xs + length ys \<le> length dst \<Longrightarrow>
    put_at dst d (xs @ ys) = put_at (put_at dst d xs) (d + length xs) ys"
  by (simp add: put_at_def ac_simps)

lemma strlcpy_loop_spec:
  "cstr src s t \<Longrightarrow> d + n \<le> length dst \<Longrightarrow> strlcpy_loop dst d src s n =
     (if length t < n then Inr (put_at dst d (t @ [0]), d + length t + 1, s + length t + 1, n - length t)
      else Inr (put_at dst d (take n t), d + n, s + n, 0))"
proof (induction n arbitrary: d dst s t)
  case (Suc n)
  note h = cstr_hd [OF Suc.prems(1)]
  show ?case
  proof (cases t)
    case Nil
    then show ?thesis using h Suc.prems(2) by (simp add: put_at_Cons)
  next
    case (Cons c r)
    then show ?thesis using h Suc.prems(2) cstr_neq_0 [OF Suc.prems(1) [unfolded Cons]]
        Suc.IH [OF cstr_Cons [OF Suc.prems(1) [unfolded Cons]], of "d + 1" "dst[d := c]"]
      by (simp add: put_at_Cons)
  qed
qed simp

lemma cstr_later: "cstr src s t \<Longrightarrow> n \<le> length t \<Longrightarrow> cstr src (s + n) (drop n t)"
  using cstr_append [of src s "take n t" "drop n t"] by simp

lemma strlcpy_spec:
  assumes t: "cstr src s t" and d: "d + siz \<le> length dst"
  shows "strlcpy dst d src s siz =
    Inr (if siz = 0 then dst else put_at dst d (take (siz - 1) t @ [0]), length t)"
proof (cases "length t < siz - 1")
  case True
  then have l: "strlcpy_loop dst d src s (siz - 1) =
      Inr (put_at dst d (t @ [0]), d + length t + 1, s + length t + 1, siz - 1 - length t)"
    using strlcpy_loop_spec [OF t, of d "siz - 1" dst] d by simp
  have "siz - 1 - length t \<noteq> 0" "take (siz - 1) t = t" "siz \<noteq> 0" using True by simp_all
  then show ?thesis unfolding strlcpy_def l rbind_Inr prod.case by (simp only: if_False) simp
next
  case False
  then have l: "strlcpy_loop dst d src s (siz - 1) = Inr (put_at dst d (take (siz - 1) t), d + (siz - 1), s + (siz - 1), 0)"
    using strlcpy_loop_spec [OF t, of d "siz - 1" dst] d by simp
  have e: "strlen_loop src (s + (siz - 1)) = Inr (s + length t)"
    using strlen_loop_spec [OF cstr_later [OF t, of "siz - 1"]] False by simp
  show ?thesis
  proof (cases "siz = 0")
    case siz: True
    then show ?thesis using l e by (simp add: strlcpy_def)
  next
    case siz: False
    have "put_at dst d (take (siz - 1) t @ [0]) = put_at (put_at dst d (take (siz - 1) t)) (d + (siz - 1)) [0]"
      using d False siz put_at_append [of d "take (siz - 1) t" "[0]" dst] by simp
    then show ?thesis using l e siz d False by (simp add: strlcpy_def put_at_Cons)
  qed
qed

lemma strlcat_end_spec:
  "cstr dst d u \<Longrightarrow> strlcat_end dst d n = Inr (d + min n (length u))"
proof (induction n arbitrary: d u)
  case (Suc n)
  note h = cstr_hd [OF Suc.prems]
  show ?case
  proof (cases u)
    case (Cons c r)
    then show ?thesis using h cstr_neq_0 [OF Suc.prems [unfolded Cons]] Suc.IH [OF cstr_Cons [OF Suc.prems [unfolded Cons]]]
      by simp
  qed (use h in simp)
qed simp

lemma strlcat_loop_spec:
  "cstr src s t \<Longrightarrow> 0 < n \<Longrightarrow> d + n \<le> length dst \<Longrightarrow> strlcat_loop dst d src s n =
     Inr (put_at dst d (take (n - 1) t), d + min (n - 1) (length t), s + length t)"
proof (induction t arbitrary: d dst s n)
  case Nil
  then show ?case using cstr_hd [OF Nil(1)] by (subst strlcat_loop.simps) simp
next
  case (Cons c t)
  note h = cstr_hd [OF Cons.prems(1)] cstr_neq_0 [OF Cons.prems(1)] and n = cstr_Cons [OF Cons.prems(1)]
  show ?case
  proof (cases "n = 1")
    case True
    then show ?thesis using h Cons.IH [OF n, of 1 d dst] Cons.prems(3) by (subst strlcat_loop.simps) simp
  next
    case False
    then obtain k where k: "n = Suc (Suc k)" using Cons.prems(2) by (cases n; cases "n - 1") auto
    then show ?thesis using h Cons.IH [OF n, of "Suc k" "d + 1" "dst[d := c]"] Cons.prems(3)
      by (subst strlcat_loop.simps) (simp add: put_at_Cons)
  qed
qed

lemma strlcat_spec:
  assumes u: "cstr dst d u" and t: "cstr src s t" and siz: "length u < siz" "d + siz \<le> length dst"
  shows "strlcat dst d src s siz =
    Inr (put_at dst (d + length u) (take (siz - length u - 1) t @ [0]), length u + length t)"
proof -
  let ?n = "siz - length u"
  have l: "strlcat_loop dst (d + length u) src s ?n =
    Inr (put_at dst (d + length u) (take (?n - 1) t), d + length u + min (?n - 1) (length t), s + length t)"
    using siz by (intro strlcat_loop_spec [OF t]) auto
  have "put_at dst (d + length u) (take (?n - 1) t @ [0]) =
      put_at (put_at dst (d + length u) (take (?n - 1) t)) (d + length u + min (?n - 1) (length t)) [0]"
    using siz put_at_append [of "d + length u" "take (?n - 1) t" "[0]" dst] by (simp add: min.commute)
  then show ?thesis
    using siz l strlcat_end_spec [OF u, of siz] by (simp add: strlcat_def put_at_Cons Let_def)
qed

text \<open>A destination without a terminator in its first \<open>siz\<close> bytes is left alone.\<close>

lemma strlcat_full:
  assumes u: "cstr dst d u" and t: "cstr src s t" and siz: "siz \<le> length u"
  shows "strlcat dst d src s siz = Inr (dst, siz + length t)"
  using siz strlcat_end_spec [OF u, of siz] strlen_spec [OF t] by (simp add: strlcat_def)

lemma put_at_same_outside: "d + length xs \<le> length dst \<Longrightarrow> same_outside {d..<d + length xs} dst (put_at dst d xs)"
proof (induction xs arbitrary: d dst)
  case (Cons x xs)
  then have b: "same_outside {d + 1..<d + 1 + length xs} (dst[d := x]) (put_at (dst[d := x]) (d + 1) xs)"
    by (intro Cons.IH) simp
  have a: "same_outside {d} dst (dst[d := x])" by (intro same_outside_update) simp
  have "same_outside {d..<d + length (x # xs)} dst (put_at (dst[d := x]) (d + 1) xs)"
    by (rule same_outside_trans [OF a b]) auto
  then show ?case using Cons.prems by (simp add: put_at_Cons)
qed simp

lemma put_at_take: "length xs \<le> length dst \<Longrightarrow> take (length xs) (put_at dst 0 xs) = xs"
  by (simp add: put_at_def)

lemma cstr_extend:
  assumes "cstr dst d u" "d + length u + length v < length dst" "0 \<notin> set v"
  shows "cstr (put_at dst (d + length u) (v @ [0])) d (u @ v)"
proof -
  from assms(1) obtain r where "drop d dst = u @ 0 # r" "0 \<notin> set u" by (auto simp: cstr_drop)
  then have "take (length u) (drop d dst) = u" by simp
  then have "drop d (take (d + length u) dst) = u" by (simp add: drop_take)
  then show ?thesis using assms \<open>0 \<notin> set u\<close> by (simp add: cstr_drop put_at_def min_def)
qed

section \<open>Searching\<close>

text \<open>A \<open>char\<close> is signed: it is compared with the \<open>int\<close> argument after sign extension.\<close>

definition schar :: "byte \<Rightarrow> int" where
  "schar c = (if c < 128 then int c else int c - 256)"

function index :: "byte list \<Rightarrow> nat \<Rightarrow> int \<Rightarrow> nat option kres" where
  "index buf p ch =
     (if length buf \<le> p then Inl Bad_Access
      else if schar (buf ! p) = ch then Inr (Some p)
      else if buf ! p = 0 then Inr None
      else index buf (p + 1) ch)"
  by pat_completeness auto
termination
  by (relation "measure (\<lambda>(buf, p, ch). length buf - p)") auto

function rindex_loop :: "byte list \<Rightarrow> nat \<Rightarrow> int \<Rightarrow> nat option \<Rightarrow> nat option kres" where
  "rindex_loop buf p ch save =
     (if length buf \<le> p then Inl Bad_Access
      else let save = (if schar (buf ! p) = ch then Some p else save)
           in if buf ! p = 0 then Inr save else rindex_loop buf (p + 1) ch save)"
  by pat_completeness auto
termination
  by (relation "measure (\<lambda>(buf, p, ch, save). length buf - p)") auto

definition rindex :: "byte list \<Rightarrow> nat \<Rightarrow> int \<Rightarrow> nat option kres" where
  "rindex buf p ch = rindex_loop buf p ch None"

declare index.simps [simp del] rindex_loop.simps [simp del]

text \<open>The inner loop of \<open>strsep\<close>: is the character one of the delimiters, the terminator included?\<close>

function strsep_delim :: "byte list \<Rightarrow> nat \<Rightarrow> byte \<Rightarrow> bool kres" where
  "strsep_delim delim spanp c =
     (if length delim \<le> spanp then Inl Bad_Access
      else if delim ! spanp = c then Inr True
      else if delim ! spanp \<noteq> 0 then strsep_delim delim (spanp + 1) c
      else Inr False)"
  by pat_completeness auto
termination
  by (relation "measure (\<lambda>(delim, spanp, c). length delim - spanp)") auto

function strsep_loop :: "byte list \<Rightarrow> nat \<Rightarrow> byte list \<Rightarrow> nat \<Rightarrow> (byte list \<times> nat option) kres" where
  "strsep_loop buf s delim span =
     (if length buf \<le> s then Inl Bad_Access
      else rbind (strsep_delim delim span (buf ! s)) (\<lambda>hit.
        if hit then (if buf ! s = 0 then Inr (buf, None) else Inr (buf[s := 0], Some (s + 1)))
        else strsep_loop buf (s + 1) delim span))"
  by pat_completeness auto
termination
  by (relation "measure (\<lambda>(buf, s, delim, span). length buf - s)") auto

text \<open>The token, the new value of \<open>*stringp\<close> and the string with the delimiter overwritten.\<close>

definition strsep :: "byte list \<Rightarrow> nat option \<Rightarrow> byte list \<Rightarrow> nat \<Rightarrow> (nat option \<times> nat option \<times> byte list) kres" where
  "strsep buf stringp delim span =
     (case stringp of
        None \<Rightarrow> Inr (None, None, buf)
      | Some s \<Rightarrow> rbind (strsep_loop buf s delim span) (\<lambda>(buf, stringp). Inr (Some s, stringp, buf)))"

declare strsep_delim.simps [simp del] strsep_loop.simps [simp del]

text \<open>\<open>skpc\<close>, \<open>locc\<close> and \<open>scanc\<close> return how many bytes are left from the first one they look for.\<close>

fun skpc :: "byte \<Rightarrow> nat \<Rightarrow> byte list \<Rightarrow> nat \<Rightarrow> nat kres" where
  "skpc mask0 0 buf cp = Inr 0"
| "skpc mask0 (Suc sz) buf cp =
     rbind (rd buf cp) (\<lambda>c. if c = mask0 mod 256 then skpc mask0 sz buf (cp + 1) else Inr (Suc sz))"

fun locc :: "byte \<Rightarrow> byte list \<Rightarrow> nat \<Rightarrow> nat \<Rightarrow> nat kres" where
  "locc mask0 buf cp 0 = Inr 0"
| "locc mask0 buf cp (Suc sz) =
     rbind (rd buf cp) (\<lambda>c. if c \<noteq> mask0 mod 256 then locc mask0 buf (cp + 1) sz else Inr (Suc sz))"

fun scanc :: "nat \<Rightarrow> byte list \<Rightarrow> nat \<Rightarrow> byte list \<Rightarrow> nat \<Rightarrow> nat kres" where
  "scanc 0 buf cp table mask0 = Inr 0"
| "scanc (Suc sz) buf cp table mask0 =
     rbind (rd buf cp) (\<lambda>c. rbind (rd table c) (\<lambda>t.
       if and t (mask0 mod 256) \<noteq> 0 then Inr (Suc sz) else scanc sz buf (cp + 1) table mask0))"

lemma index_spec:
  "cstr buf p t \<Longrightarrow> index buf p ch = Inr (let k = length (takeWhile (\<lambda>c. schar c \<noteq> ch) (t @ [0])) in
     if k \<le> length t then Some (p + k) else None)"
proof (induction t arbitrary: p)
  case Nil
  then show ?case using cstr_hd [OF Nil] by (subst index.simps) simp
next
  case (Cons c t)
  then show ?case using cstr_hd [OF Cons.prems] cstr_neq_0 [OF Cons.prems] Cons.IH [OF cstr_Cons [OF Cons.prems]]
    by (subst index.simps) (simp add: Let_def)
qed

lemma rindex_loop_spec:
  "cstr buf p t \<Longrightarrow> rindex_loop buf p ch save =
     Inr (if \<exists>c \<in> set (t @ [0]). schar c = ch
          then Some (p + length t - length (takeWhile (\<lambda>c. schar c \<noteq> ch) (rev (t @ [0])))) else save)"
proof (induction t arbitrary: p save)
  case Nil
  then show ?case using cstr_hd [OF Nil] by (subst rindex_loop.simps) simp
next
  case (Cons c t)
  have tw: "takeWhile P (rev (c # t @ [0])) = (if \<exists>x \<in> set (t @ [0]). \<not> P x then takeWhile P (rev (t @ [0])) else rev (t @ [0]) @ (if P c then [c] else []))"
    for P :: "byte \<Rightarrow> bool" by (auto simp: takeWhile_append)
  show ?case using cstr_hd [OF Cons.prems] cstr_neq_0 [OF Cons.prems] Cons.IH [OF cstr_Cons [OF Cons.prems]]
    by (subst rindex_loop.simps) (auto simp: Let_def tw simp del: rev.simps)
qed

lemma strsep_delim_spec: "cstr delim k ds \<Longrightarrow> strsep_delim delim k c = Inr (c = 0 \<or> c \<in> set ds)"
proof (induction ds arbitrary: k)
  case Nil
  then show ?case using cstr_hd [OF Nil] by (subst strsep_delim.simps) auto
next
  case (Cons d ds)
  then show ?case using cstr_hd [OF Cons.prems] cstr_neq_0 [OF Cons.prems] Cons.IH [OF cstr_Cons [OF Cons.prems]]
    by (subst strsep_delim.simps) auto
qed

lemma strsep_loop_spec:
  assumes "cstr delim k ds"
  shows "cstr buf s t \<Longrightarrow> strsep_loop buf s delim k =
    (let tok = takeWhile (\<lambda>c. c \<notin> set ds) t in
     Inr (if tok = t then (buf, None) else (buf[s + length tok := 0], Some (s + length tok + 1))))"
proof (induction t arbitrary: s)
  case Nil
  then show ?case using cstr_hd [OF Nil] strsep_delim_spec [OF assms, of 0] by (subst strsep_loop.simps) auto
next
  case (Cons c t)
  then show ?case using cstr_hd [OF Cons.prems] cstr_neq_0 [OF Cons.prems] Cons.IH [OF cstr_Cons [OF Cons.prems]]
      strsep_delim_spec [OF assms, of c]
    by (subst strsep_loop.simps) (auto simp: Let_def)
qed

lemma skpc_spec: "cp + sz \<le> length buf \<Longrightarrow>
    skpc mask0 sz buf cp = Inr (sz - length (takeWhile (\<lambda>c. c = mask0 mod 256) (take sz (drop cp buf))))"
proof (induction sz arbitrary: cp)
  case (Suc sz)
  then have "take (Suc sz) (drop cp buf) = buf ! cp # take sz (drop (cp + 1) buf)"
    by (metis Cons_nth_drop_Suc Suc_eq_plus1 add_lessD1 less_eq_Suc_le take_Suc_Cons add_Suc_right)
  with Suc show ?case by simp
qed simp

end
