(* ===== verification/Kvprintf.thy ===== *)
theory Kvprintf
  imports Libkern_Str
begin

text \<open>
  The formatted output of the kernel, \<open>sys/kern/subr_prf.c\<close>: \<open>ksprintn\<close>, the interpreter of format strings
  \<open>kvcprintf\<close> for a caller that is not \<open>kputchar\<close> (the console lock is not part of the model), and the
  entry points that print into a buffer.  Format and argument strings are byte arrays with checked
  accesses.  The variable arguments are a list; every integer argument is its mathematical value and
  is reduced to the type with which it is fetched (an LP64 platform).  The output is the list of the
  characters in the order of \<open>PCHAR\<close>, so that \<open>retval\<close> is its length; what \<open>%n\<close> stores is a list of
  widths, addresses and values.
\<close>

section \<open>Numbers\<close>

definition MAXNBUF :: nat where
  "MAXNBUF = 8 * 8 + 1"

definition hex2ascii_data :: "byte list" where
  "hex2ascii_data = map of_char ''0123456789abcdefghijklmnopqrstuvwxyz'' @ [0]"

function ksprintn_loop :: "byte list \<Rightarrow> nat \<Rightarrow> nat \<Rightarrow> nat \<Rightarrow> bool \<Rightarrow> (byte list \<times> nat) kres" where
  "ksprintn_loop nbuf p num base upper =
     rbind (rd hex2ascii_data (num mod base)) (\<lambda>c.
     rbind (wr nbuf (p + 1) (if upper then toupper c else c)) (\<lambda>nbuf.
       let num = num div base
       in if num \<noteq> 0 then ksprintn_loop nbuf (p + 1) num base upper else Inr (nbuf, p + 1)))"
  by pat_completeness auto
termination
  by (relation "measure (\<lambda>(nbuf, p, num, base, upper). length nbuf - p)") (auto simp: wr_def split: if_splits)

declare ksprintn_loop.simps [simp del]

text \<open>The buffer and the pointer to the first digit, which is also the length.\<close>

definition ksprintn :: "byte list \<Rightarrow> nat \<Rightarrow> nat \<Rightarrow> bool \<Rightarrow> (byte list \<times> nat) kres" where
  "ksprintn nbuf num base upper =
     rbind (wr nbuf 0 0) (\<lambda>nbuf.
       if base = 0 then Inl (Panic ''divide by zero'') else ksprintn_loop nbuf 0 num base upper)"

text \<open>\<open>while (*p) PCHAR(*p--)\<close>\<close>

fun kv_back :: "byte list \<Rightarrow> nat \<Rightarrow> byte list kres" where
  "kv_back nbuf 0 = rbind (rd nbuf 0) (\<lambda>c. if c = 0 then Inr [] else Inl Bad_Access)"
| "kv_back nbuf (Suc p) = rbind (rd nbuf (Suc p)) (\<lambda>c.
     if c = 0 then Inr [] else rbind (kv_back nbuf p) (\<lambda>r. Inr (c # r)))"

section \<open>Arguments\<close>

datatype varg = VInt int | VStr "byte list option" | VPtr nat

definition va_int :: "varg list \<Rightarrow> (int \<times> varg list) kres" where
  "va_int ap = (case ap of VInt v # r \<Rightarrow> Inr (v, r) | _ \<Rightarrow> Inl Bad_Arg)"

definition va_str :: "varg list \<Rightarrow> (byte list option \<times> varg list) kres" where
  "va_str ap = (case ap of VStr s # r \<Rightarrow> Inr (s, r) | _ \<Rightarrow> Inl Bad_Arg)"

definition va_ptr :: "varg list \<Rightarrow> (nat \<times> varg list) kres" where
  "va_ptr ap = (case ap of VPtr p # r \<Rightarrow> Inr (p, r) | _ \<Rightarrow> Inl Bad_Arg)"

text \<open>The value of a signed type of \<open>w\<close> bits, and the check of an \<open>int\<close> computation.\<close>

definition swrap :: "nat \<Rightarrow> int \<Rightarrow> int" where
  "swrap w v = (v + 2 ^ (w - 1)) mod 2 ^ w - 2 ^ (w - 1)"

definition ck :: "int \<Rightarrow> int kres" where
  "ck x = (if - (2 ^ 31) \<le> x \<and> x < 2 ^ 31 then Inr x else Inl Int_Overflow)"

section \<open>The directives\<close>

record kvst =
  kv_dot :: bool
  kv_dwidth :: int
  kv_width :: int
  kv_ladjust :: bool
  kv_sharp :: bool
  kv_sign :: bool
  kv_upper :: bool
  kv_c :: bool
  kv_h :: bool
  kv_j :: bool
  kv_l :: bool
  kv_q :: bool
  kv_t :: bool
  kv_z :: bool
  kv_padc :: byte

definition kv_init :: kvst where
  "kv_init = \<lparr>kv_dot = False, kv_dwidth = 0, kv_width = 0, kv_ladjust = False, kv_sharp = False,
     kv_sign = False, kv_upper = False, kv_c = False, kv_h = False, kv_j = False, kv_l = False,
     kv_q = False, kv_t = False, kv_z = False, kv_padc = 32\<rparr>"

text \<open>The fetch at \<open>handle_nosign\<close> and at \<open>handle_sign\<close>: the argument as an \<open>uintmax_t\<close>.\<close>

definition kv_nosign :: "kvst \<Rightarrow> int \<Rightarrow> nat" where
  "kv_nosign st v = nat (
     if kv_c st then swrap 32 v mod 2 ^ 8
     else if kv_h st then swrap 32 v mod 2 ^ 16
     else if kv_j st then v mod 2 ^ 64
     else if kv_l st then v mod 2 ^ 64
     else if kv_q st then v mod 2 ^ 64
     else if kv_t st then swrap 64 v mod 2 ^ 64
     else if kv_z st then v mod 2 ^ 64
     else v mod 2 ^ 32)"

definition kv_signed :: "kvst \<Rightarrow> int \<Rightarrow> nat" where
  "kv_signed st v = nat ((
     if kv_c st then swrap 8 (swrap 32 v)
     else if kv_h st then swrap 16 (swrap 32 v)
     else if kv_j st then swrap 64 v
     else if kv_l st then swrap 64 v
     else if kv_q st then swrap 64 v
     else if kv_t st then swrap 64 v
     else if kv_z st then swrap 64 v
     else swrap 32 v) mod 2 ^ 64)"

text \<open>The code at \<open>number\<close>: sign, prefix, padding and digits.\<close>

definition kv_number :: "kvst \<Rightarrow> nat \<Rightarrow> nat \<Rightarrow> byte list kres" where
  "kv_number st base num =
     (let (neg, num) = (if kv_sign st \<and> 2 ^ 63 \<le> num then (True, (2 ^ 64 - num) mod 2 ^ 64) else (False, num))
      in rbind (ksprintn (replicate MAXNBUF 0) num base (kv_upper st)) (\<lambda>(nbuf, p).
         let n = int p;
             tmp = (if kv_sharp st \<and> num \<noteq> 0 then (if base = 8 then 1 else if base = 16 then 2 else 0) else 0);
             tmp = (if neg then tmp + 1 else tmp);
             dwidth = (if \<not> kv_ladjust st \<and> kv_padc st = 48 then kv_width st - tmp else kv_dwidth st)
         in rbind (ck (kv_width st - (tmp + max dwidth n))) (\<lambda>width.
            rbind (ck (dwidth - n)) (\<lambda>dwidth.
            rbind (kv_back nbuf p) (\<lambda>digits.
              Inr ((if \<not> kv_ladjust st then replicate (nat width) 32 else []) @
                   (if neg then [45] else []) @
                   (if kv_sharp st \<and> num \<noteq> 0 then (if base = 8 then [48] else if base = 16 then [48, 120] else []) else []) @
                   replicate (nat dwidth) 48 @ digits @
                   (if kv_ladjust st then replicate (nat width) 32 else [])))))))"

text \<open>The width or precision: the digits from \<open>ch\<close> on; \<open>i\<close> is \<open>fmt\<close>.\<close>

function kv_digits :: "byte list \<Rightarrow> nat \<Rightarrow> byte \<Rightarrow> int \<Rightarrow> (int \<times> nat) kres" where
  "kv_digits fmt i ch n =
     rbind (ck (n * 10 + int ch - 48)) (\<lambda>n. rbind (rd fmt i) (\<lambda>ch.
       if ch < 48 \<or> 57 < ch then Inr (n, i) else kv_digits fmt (i + 1) ch n))"
  by pat_completeness auto
termination
  by (relation "measure (\<lambda>(fmt, i, ch, n). length fmt - i)") (auto simp: rd_def split: if_splits)

declare kv_digits.simps [simp del]

text \<open>\<open>%s\<close>\<close>

fun kv_strnlen :: "byte list \<Rightarrow> nat \<Rightarrow> nat \<Rightarrow> nat kres" where
  "kv_strnlen p n 0 = Inr n"
| "kv_strnlen p n (Suc k) = rbind (rd p n) (\<lambda>c. if c \<noteq> 0 then kv_strnlen p (n + 1) k else Inr n)"

definition kv_string :: "kvst \<Rightarrow> byte list option \<Rightarrow> byte list kres" where
  "kv_string st s =
     (let p = (case s of None \<Rightarrow> map of_char ''(null)'' @ [0] | Some p \<Rightarrow> p)
      in rbind (if \<not> kv_dot st then strlen p 0 else kv_strnlen p 0 (nat (kv_dwidth st))) (\<lambda>n.
         rbind (ck (kv_width st - int n)) (\<lambda>width.
           Inr ((if \<not> kv_ladjust st then replicate (nat width) (kv_padc st) else []) @ take n p @
                (if kv_ladjust st then replicate (nat width) (kv_padc st) else [])))))"

text \<open>\<open>%b\<close>: a name runs to the next character that is at most a blank.\<close>

function kv_name :: "byte list \<Rightarrow> nat \<Rightarrow> (byte list \<times> nat) kres" where
  "kv_name p k =
     rbind (rd p k) (\<lambda>n. if 32 < schar n then rbind (kv_name p (k + 1)) (\<lambda>(r, k). Inr (n # r, k)) else Inr ([], k))"
  by pat_completeness auto
termination
  by (relation "measure (\<lambda>(p, k). length p - k)") (auto simp: rd_def split: if_splits)

declare kv_name.simps [simp del]

lemma kv_name_le: "kv_name p k = Inr (r, k') \<Longrightarrow> k \<le> k' \<and> k' < length p"
proof (induction p k arbitrary: r k' rule: kv_name.induct)
  case (1 p k)
  from 1(2) have k: "k < length p" by (subst (asm) kv_name.simps) (auto simp: rbind_eq_Inr rd_def split: if_splits)
  show ?case
  proof (cases "32 < schar (p ! k)")
    case True
    with 1(2) k obtain r' where "kv_name p (k + 1) = Inr (r', k')"
      by (subst (asm) kv_name.simps) (auto simp: rbind_eq_Inr)
    with 1(1) [OF _ True] k show ?thesis by force
  next
    case False
    with 1(2) k show ?thesis by (subst (asm) kv_name.simps) simp
  qed
qed

function kv_bits :: "byte list \<Rightarrow> nat \<Rightarrow> nat \<Rightarrow> bool \<Rightarrow> byte list kres" where
  "kv_bits p k num tmp =
     rbind (rd p k) (\<lambda>n.
       if n = 0 then Inr (if tmp then [62] else [])
       else let sh = schar n - 1
            in if sh < 0 \<or> 31 < sh then Inl Undefined_Shift
               else rbind (kv_name p (k + 1)) (\<lambda>(name, k).
                 if bit num (nat sh) then
                   rbind (kv_bits p k num True) (\<lambda>r. Inr ((if tmp then 44 else 60) # name @ r))
                 else kv_bits p k num tmp))"
  by pat_completeness auto
termination
  by (relation "measure (\<lambda>(p, k, num, tmp). length p - k)") (auto simp: rd_def split: if_splits dest!: kv_name_le)

declare kv_bits.simps [simp del]

definition kv_bfield :: "int \<Rightarrow> byte list \<Rightarrow> byte list kres" where
  "kv_bfield v p =
     (let num = nat (v mod 2 ^ 32)
      in rbind (rd p 0) (\<lambda>b.
         rbind (ksprintn (replicate MAXNBUF 0) num (nat (schar b mod 2 ^ 64)) False) (\<lambda>(nbuf, q).
         rbind (kv_back nbuf q) (\<lambda>digits.
           if num = 0 then Inr digits else rbind (kv_bits p 1 num False) (\<lambda>r. Inr (digits @ r))))))"

text \<open>
  One turn of the \<open>switch\<close> for the character \<open>ch\<close>: \<open>i\<close> is \<open>fmt\<close> behind it, \<open>percent\<close> the place of the
  percent sign.  \<open>Again\<close> is \<open>goto reswitch\<close>; \<open>Done\<close> is \<open>break\<close> with the characters printed, whether \<open>stop\<close>
  is set, and the stores of \<open>%n\<close>.
\<close>

datatype kvstep =
  Again nat kvst "varg list"
| Done nat "varg list" "byte list" bool "(nat \<times> nat \<times> int) list"

definition kv_out :: "nat \<Rightarrow> varg list \<Rightarrow> byte list kres \<Rightarrow> kvstep kres" where
  "kv_out i ap chunk = rbind chunk (\<lambda>s. Inr (Done i ap s False []))"

definition kv_unsigned_conv :: "nat \<Rightarrow> kvst \<Rightarrow> varg list \<Rightarrow> nat \<Rightarrow> kvstep kres" where
  "kv_unsigned_conv i st ap base =
     rbind (va_int ap) (\<lambda>(v, ap). kv_out i ap (kv_number (st\<lparr>kv_sign := False\<rparr>) base (kv_nosign st v)))"

definition kv_signed_conv :: "nat \<Rightarrow> kvst \<Rightarrow> varg list \<Rightarrow> nat \<Rightarrow> kvstep kres" where
  "kv_signed_conv i st ap base =
     rbind (va_int ap) (\<lambda>(v, ap). kv_out i ap (kv_number st base (kv_signed st v)))"

definition kv_dir :: "byte list \<Rightarrow> nat \<Rightarrow> byte \<Rightarrow> nat \<Rightarrow> nat \<Rightarrow> kvst \<Rightarrow> varg list \<Rightarrow> nat \<Rightarrow> kvstep kres" where
  "kv_dir fmt radix ch i percent st ap retval =
     (if ch = 46 then Inr (Again i (st\<lparr>kv_dot := True\<rparr>) ap)
      else if ch = 35 then Inr (Again i (st\<lparr>kv_sharp := True\<rparr>) ap)
      else if ch = 43 then Inr (Again i (st\<lparr>kv_sign := True\<rparr>) ap)
      else if ch = 45 then Inr (Again i (st\<lparr>kv_ladjust := True\<rparr>) ap)
      else if ch = 37 then Inr (Done i ap [ch] False [])
      else if ch = 42 then
        rbind (va_int ap) (\<lambda>(v, ap). let v = swrap 32 v in
          if \<not> kv_dot st then
            (if v < 0 then rbind (ck (- v)) (\<lambda>w. Inr (Again i (st\<lparr>kv_ladjust := \<not> kv_ladjust st, kv_width := w\<rparr>) ap))
             else Inr (Again i (st\<lparr>kv_width := v\<rparr>) ap))
          else Inr (Again i (st\<lparr>kv_dwidth := v\<rparr>) ap))
      else if ch = 48 \<and> \<not> kv_dot st then Inr (Again i (st\<lparr>kv_padc := 48\<rparr>) ap)
      else if 48 \<le> ch \<and> ch \<le> 57 then
        rbind (kv_digits fmt i ch 0) (\<lambda>(n, i).
          if kv_dot st then Inr (Again i (st\<lparr>kv_dwidth := n\<rparr>) ap) else Inr (Again i (st\<lparr>kv_width := n\<rparr>) ap))
      else if ch = 98 then
        rbind (va_int ap) (\<lambda>(v, ap). rbind (va_str ap) (\<lambda>(s, ap).
          case s of None \<Rightarrow> Inl Bad_Access | Some p \<Rightarrow> kv_out i ap (kv_bfield v p)))
      else if ch = 99 then rbind (va_int ap) (\<lambda>(v, ap). Inr (Done i ap [nat (v mod 2 ^ 8)] False []))
      else if ch = 100 \<or> ch = 105 then kv_signed_conv i (st\<lparr>kv_sign := True\<rparr>) ap 10
      else if ch = 104 then Inr (Again i (if kv_h st then st\<lparr>kv_h := False, kv_c := True\<rparr> else st\<lparr>kv_h := True\<rparr>) ap)
      else if ch = 106 then Inr (Again i (st\<lparr>kv_j := True\<rparr>) ap)
      else if ch = 108 then Inr (Again i (if kv_l st then st\<lparr>kv_l := False, kv_q := True\<rparr> else st\<lparr>kv_l := True\<rparr>) ap)
      else if ch = 110 then
        rbind (va_ptr ap) (\<lambda>(a, ap).
          let w = (if kv_c st then 8 else if kv_h st then 16 else if kv_j st then 64 else if kv_l st then 64
                   else if kv_q st then 64 else 32)
          in Inr (Done i ap [] False [(w, a, swrap w (int retval))]))
      else if ch = 111 then kv_unsigned_conv i st ap 8
      else if ch = 112 then
        rbind (va_ptr ap) (\<lambda>(a, ap). kv_out i ap
          (kv_number (st\<lparr>kv_sharp := (kv_width st = 0), kv_sign := False\<rparr>) 16 (a mod 2 ^ 64)))
      else if ch = 113 then Inr (Again i (st\<lparr>kv_q := True\<rparr>) ap)
      else if ch = 114 then (if kv_sign st then kv_signed_conv i st ap radix else kv_unsigned_conv i st ap radix)
      else if ch = 115 then rbind (va_str ap) (\<lambda>(s, ap). kv_out i ap (kv_string st s))
      else if ch = 116 then Inr (Again i (st\<lparr>kv_t := True\<rparr>) ap)
      else if ch = 117 then kv_unsigned_conv i st ap 10
      else if ch = 88 then kv_unsigned_conv i (st\<lparr>kv_upper := True\<rparr>) ap 16
      else if ch = 120 then kv_unsigned_conv i st ap 16
      else if ch = 122 then Inr (Again i (st\<lparr>kv_z := True\<rparr>) ap)
      else Inr (Done i ap (take (i - percent) (drop percent fmt)) True []))"

fun kvstep_pos :: "kvstep \<Rightarrow> nat" where
  "kvstep_pos (Again i st ap) = i"
| "kvstep_pos (Done i ap s stop w) = i"

lemma kv_digits_le: "kv_digits fmt i ch n = Inr (m, i') \<Longrightarrow> i \<le> i'"
proof (induction fmt i ch n rule: kv_digits.induct)
  case (1 fmt i ch n)
  from 1(2) show ?case
    by (subst (asm) kv_digits.simps) (force simp: rbind_eq_Inr split: if_splits dest: 1(1))
qed

lemma kv_dir_le: "kv_dir fmt radix ch i percent st ap retval = Inr r \<Longrightarrow> i \<le> kvstep_pos r"
  by (auto simp: kv_dir_def kv_out_def kv_unsigned_conv_def kv_signed_conv_def rbind_eq_Inr Let_def
      split: if_splits option.splits dest: kv_digits_le)

text \<open>
  The interpreter at \<open>fmt[i]\<close>: outside a directive (\<open>None\<close>), or inside the directive that began at
  \<open>percent\<close>.
\<close>

function kv_run :: "byte list \<Rightarrow> nat \<Rightarrow> nat \<Rightarrow> (nat \<times> kvst) option \<Rightarrow> varg list \<Rightarrow> bool \<Rightarrow> byte list
    \<Rightarrow> (nat \<times> nat \<times> int) list \<Rightarrow> (byte list \<times> (nat \<times> nat \<times> int) list) kres" where
  "kv_run fmt radix i mode ap stop out stores =
     rbind (rd fmt i) (\<lambda>ch.
       case mode of
         None \<Rightarrow>
           if ch \<noteq> 37 \<or> stop then
             (if ch = 0 then Inr (out, stores) else kv_run fmt radix (i + 1) None ap stop (out @ [ch]) stores)
           else kv_run fmt radix (i + 1) (Some (i, kv_init)) ap stop out stores
       | Some (percent, st) \<Rightarrow>
           rbind (kv_dir fmt radix ch (i + 1) percent st ap (length out)) (\<lambda>r.
             case r of
               Again i st ap \<Rightarrow> kv_run fmt radix i (Some (percent, st)) ap stop out stores
             | Done i ap s st w \<Rightarrow> kv_run fmt radix i None ap (stop \<or> st) (out @ s) (stores @ w)))"
  by pat_completeness auto
termination
  by (relation "measure (\<lambda>(fmt, radix, i, mode, ap, stop, out, stores). length fmt - i)")
    (auto simp: rd_def split: if_splits dest!: kv_dir_le)

declare kv_run.simps [simp del]

definition kvcprintf :: "byte list option \<Rightarrow> int \<Rightarrow> varg list \<Rightarrow> (byte list \<times> (nat \<times> nat \<times> int) list) kres" where
  "kvcprintf fmt radix ap =
     (let fmt = (case fmt of None \<Rightarrow> map of_char ''(fmt null)'' @ [10, 0] | Some f \<Rightarrow> f);
          radix = (if radix < 2 \<or> 36 < radix then 10 else radix)
      in kv_run fmt (nat radix) 0 None ap False [] [])"

section \<open>Printing into a buffer\<close>

text \<open>\<open>*d++ = cc\<close>, then the terminator at \<open>buf[retval]\<close>.\<close>

fun kv_store :: "byte list \<Rightarrow> nat \<Rightarrow> byte list \<Rightarrow> byte list kres" where
  "kv_store buf d [] = Inr buf"
| "kv_store buf d (c # cs) = rbind (wr buf d c) (\<lambda>buf. kv_store buf (d + 1) cs)"

definition kvsprintf :: "byte list \<Rightarrow> byte list option \<Rightarrow> varg list \<Rightarrow> (byte list \<times> nat) kres" where
  "kvsprintf buf fmt ap =
     rbind (kvcprintf fmt 10 ap) (\<lambda>(out, _).
     rbind (kv_store buf 0 out) (\<lambda>buf.
     rbind (wr buf (length out) 0) (\<lambda>buf. Inr (buf, length out))))"

definition ksprintf :: "byte list \<Rightarrow> byte list option \<Rightarrow> varg list \<Rightarrow> (byte list \<times> nat) kres" where
  "ksprintf buf fmt ap =
     rbind (kvcprintf fmt 10 ap) (\<lambda>(out, _).
     rbind (kv_store buf 0 out) (\<lambda>buf.
     rbind (wr buf (length out) 0) (\<lambda>buf. Inr (buf, length out))))"

text \<open>The state of \<open>struct snprintf_arg\<close>: the buffer, the pointer into it and the room that remains.\<close>

record snprintf_arg =
  sn_mem :: "byte list"
  sn_str :: nat
  sn_remain :: nat

definition snprintf_func :: "byte \<Rightarrow> snprintf_arg \<Rightarrow> snprintf_arg kres" where
  "snprintf_func ch info =
     (if 2 \<le> sn_remain info then
        rbind (wr (sn_mem info) (sn_str info) ch) (\<lambda>mem.
          Inr (info\<lparr>sn_mem := mem, sn_str := sn_str info + 1, sn_remain := sn_remain info - 1\<rparr>))
      else Inr info)"

fun kv_func :: "snprintf_arg \<Rightarrow> byte list \<Rightarrow> snprintf_arg kres" where
  "kv_func info [] = Inr info"
| "kv_func info (c # cs) = rbind (snprintf_func c info) (\<lambda>info. kv_func info cs)"

definition kvsnrprintf :: "byte list \<Rightarrow> nat \<Rightarrow> int \<Rightarrow> byte list option \<Rightarrow> varg list \<Rightarrow> (byte list \<times> nat) kres" where
  "kvsnrprintf str sz radix fmt ap =
     rbind (kvcprintf fmt radix ap) (\<lambda>(out, _).
     rbind (kv_func \<lparr>sn_mem = str, sn_str = 0, sn_remain = sz\<rparr> out) (\<lambda>info.
     rbind (if 1 \<le> sn_remain info then wr (sn_mem info) (sn_str info) 0 else Inr (sn_mem info)) (\<lambda>mem.
       Inr (mem, length out))))"

definition kvsnprintf :: "byte list \<Rightarrow> nat \<Rightarrow> byte list option \<Rightarrow> varg list \<Rightarrow> (byte list \<times> nat) kres" where
  "kvsnprintf str sz fmt ap =
     rbind (kvcprintf fmt 10 ap) (\<lambda>(out, _).
     rbind (kv_func \<lparr>sn_mem = str, sn_str = 0, sn_remain = sz\<rparr> out) (\<lambda>info.
     rbind (if 1 \<le> sn_remain info then wr (sn_mem info) (sn_str info) 0 else Inr (sn_mem info)) (\<lambda>mem.
       Inr (mem, length out))))"

definition ksnprintf :: "byte list \<Rightarrow> nat \<Rightarrow> byte list option \<Rightarrow> varg list \<Rightarrow> (byte list \<times> nat) kres" where
  "ksnprintf str sz fmt ap = kvsnprintf str sz fmt ap"

definition ksnrprintf :: "byte list \<Rightarrow> nat \<Rightarrow> int \<Rightarrow> byte list option \<Rightarrow> varg list \<Rightarrow> (byte list \<times> nat) kres" where
  "ksnrprintf str sz radix fmt ap = kvsnrprintf str sz radix fmt ap"

text \<open>\<open>inet_ntoa\<close> of \<open>sys/libkern\<close>: the four bytes of the address in its static buffer of 16 bytes.\<close>

definition inet_ntoa :: "byte list \<Rightarrow> byte \<Rightarrow> byte \<Rightarrow> byte \<Rightarrow> byte \<Rightarrow> (byte list \<times> nat) kres" where
  "inet_ntoa buf a b c d =
     ksprintf buf (Some (map of_char ''%d.%d.%d.%d'' @ [0]))
       [VInt (int (a mod 256)), VInt (int (b mod 256)), VInt (int (c mod 256)), VInt (int (d mod 256))]"

end
