(* ===== verification/Strto.thy ===== *)
theory Strto
  imports Kern_Ctype
begin

text \<open>
  String to number: \<open>strtol\<close>, \<open>strtoul\<close>, \<open>strtoq\<close> and \<open>strtouq\<close> of \<open>sys/libkern\<close>.  The width \<open>w\<close> of a
  long is a parameter (32 and 64 on the supported platforms), a quad has 64 bits.  Accumulators are
  natural numbers with the reduction modulo \<open>2 ^ w\<close> written out.  The result is the pair of the number
  and of the offset that is stored through \<open>endptr\<close>.
\<close>

section \<open>The code\<close>

text \<open>\<open>do { c = *s++; } while (isspace(c));\<close>\<close>

function strto_space :: "byte list \<Rightarrow> nat \<Rightarrow> (byte \<times> nat) kres" where
  "strto_space buf s =
     (if length buf \<le> s then Inl Bad_Access
      else let c = buf ! s in if isspace c then strto_space buf (s + 1) else Inr (c, s + 1))"
  by pat_completeness auto
termination
  by (relation "measure (\<lambda>(buf, s). length buf - s)") auto

declare strto_space.simps [simp del]

text \<open>The sign and the base: the state \<open>(neg, base, c, s)\<close> before the digit loop.\<close>

definition strto_head :: "byte list \<Rightarrow> int \<Rightarrow> (bool \<times> int \<times> byte \<times> nat) kres" where
  "strto_head buf base =
     rbind (strto_space buf 0) (\<lambda>(c, s).
     rbind (if c = 45 then rbind (rd buf s) (\<lambda>c. Inr (True, c, s + 1))
            else if c = 43 then rbind (rd buf s) (\<lambda>c. Inr (False, c, s + 1))
            else Inr (False, c, s)) (\<lambda>(neg, c, s).
     rbind (if (base = 0 \<or> base = 16) \<and> c = 48
            then rbind (rd buf s) (\<lambda>x. Inr (x = 120 \<or> x = 88)) else Inr False) (\<lambda>hex.
     rbind (if hex then rbind (rd buf (s + 1)) (\<lambda>c. Inr (16, c, s + 2)) else Inr (base, c, s)) (\<lambda>(base, c, s).
       Inr (neg, if base = 0 then (if c = 48 then 8 else 10) else base, c, s)))))"

text \<open>The value of a character as a digit; \<open>None\<close> is the \<open>break\<close>.\<close>

definition strto_digit :: "byte \<Rightarrow> nat option" where
  "strto_digit c =
     (if \<not> isascii c then None
      else if isdigit c then Some (c - 48)
      else if isalpha c then Some (c - (if isupper c then 65 - 10 else 97 - 10))
      else None)"

text \<open>One digit: \<open>any < 0\<close> says that the number does not fit.\<close>

definition strto_step :: "nat \<Rightarrow> nat \<Rightarrow> nat \<Rightarrow> int \<Rightarrow> nat \<times> int \<Rightarrow> nat \<Rightarrow> nat \<times> int" where
  "strto_step w ubase cutoff cutlim st d =
     (let (acc, any) = st in
      if any < 0 \<or> cutoff < acc \<or> acc = cutoff \<and> cutlim < int d then (acc, - 1)
      else ((acc * ubase mod 2 ^ w + d) mod 2 ^ w, 1))"

function strto_loop :: "byte list \<Rightarrow> nat \<Rightarrow> int \<Rightarrow> nat \<Rightarrow> nat \<Rightarrow> int \<Rightarrow> byte \<Rightarrow> nat \<Rightarrow> nat \<times> int
    \<Rightarrow> ((nat \<times> int) \<times> nat) kres" where
  "strto_loop buf w base ubase cutoff cutlim c s st =
     (case strto_digit c of
        None \<Rightarrow> Inr (st, s)
      | Some d \<Rightarrow>
          if base \<le> int d then Inr (st, s)
          else let st = strto_step w ubase cutoff cutlim st d
               in if length buf \<le> s then Inl Bad_Access
                  else strto_loop buf w base ubase cutoff cutlim (buf ! s) (s + 1) st)"
  by pat_completeness auto
termination
  by (relation "measure (\<lambda>(buf, w, base, ubase, cutoff, cutlim, c, s, st). length buf - s)") auto

declare strto_loop.simps [simp del]

text \<open>The signed conversions; the largest magnitude depends on the sign.\<close>

definition signed_of :: "nat \<Rightarrow> nat \<Rightarrow> int" where
  "signed_of w x = (if x < 2 ^ (w - 1) then int x else int x - 2 ^ w)"

definition strtol :: "nat \<Rightarrow> byte list \<Rightarrow> int \<Rightarrow> (int \<times> nat) kres" where
  "strtol w buf base =
     rbind (strto_head buf base) (\<lambda>(neg, base, c, s).
       let ubase = nat (base mod 2 ^ w);
           cutoff = (if neg then 2 ^ (w - 1) else 2 ^ (w - 1) - 1);
           cutlim = int (cutoff mod ubase);
           cutoff = cutoff div ubase
       in rbind (strto_loop buf w base ubase cutoff cutlim c s (0, 0)) (\<lambda>((acc, any), s).
          let acc = (if any < 0 then (if neg then 2 ^ (w - 1) else 2 ^ (w - 1) - 1)
                     else if neg then (2 ^ w - acc) mod 2 ^ w else acc)
          in Inr (signed_of w acc, if any \<noteq> 0 then s - 1 else 0)))"

definition strtoul :: "nat \<Rightarrow> byte list \<Rightarrow> int \<Rightarrow> (nat \<times> nat) kres" where
  "strtoul w buf base =
     rbind (strto_head buf base) (\<lambda>(neg, base, c, s).
       let ubase = nat (base mod 2 ^ w);
           cutoff = (2 ^ w - 1) div ubase;
           cutlim = int ((2 ^ w - 1) mod ubase)
       in rbind (strto_loop buf w base ubase cutoff cutlim c s (0, 0)) (\<lambda>((acc, any), s).
          let acc = (if any < 0 then 2 ^ w - 1 else if neg then (2 ^ w - acc) mod 2 ^ w else acc)
          in Inr (acc, if any \<noteq> 0 then s - 1 else 0)))"

definition strtoq :: "byte list \<Rightarrow> int \<Rightarrow> (int \<times> nat) kres" where
  "strtoq buf base =
     rbind (strto_head buf base) (\<lambda>(neg, base, c, s).
       let qbase = nat (base mod 2 ^ 32);
           cutoff = (if neg then 1 + (2 ^ 63 - 1) else 2 ^ 63 - 1);
           cutlim = int (cutoff mod qbase);
           cutoff = cutoff div qbase
       in rbind (strto_loop buf 64 base qbase cutoff cutlim c s (0, 0)) (\<lambda>((acc, any), s).
          let acc = (if any < 0 then (if neg then 2 ^ 63 else 2 ^ 63 - 1)
                     else if neg then (2 ^ 64 - acc) mod 2 ^ 64 else acc)
          in Inr (signed_of 64 acc, if any \<noteq> 0 then s - 1 else 0)))"

definition strtouq :: "byte list \<Rightarrow> int \<Rightarrow> (nat \<times> nat) kres" where
  "strtouq buf base =
     rbind (strto_head buf base) (\<lambda>(neg, base, c, s).
       let qbase = nat (base mod 2 ^ 32);
           cutoff = (2 ^ 64 - 1) div qbase;
           cutlim = int ((2 ^ 64 - 1) mod qbase)
       in rbind (strto_loop buf 64 base qbase cutoff cutlim c s (0, 0)) (\<lambda>((acc, any), s).
          let acc = (if any < 0 then 2 ^ 64 - 1 else if neg then (2 ^ 64 - acc) mod 2 ^ 64 else acc)
          in Inr (acc, if any \<noteq> 0 then s - 1 else 0)))"

section \<open>What the code computes\<close>

text \<open>
  The reference: white space, an optional sign, an optional prefix and the longest run of digits of
  the base, whose value is a natural number without bound.
\<close>

definition vdigit :: "int \<Rightarrow> byte \<Rightarrow> bool" where
  "vdigit base c \<longleftrightarrow> (case strto_digit c of None \<Rightarrow> False | Some d \<Rightarrow> int d < base)"

definition numval :: "nat \<Rightarrow> nat list \<Rightarrow> nat" where
  "numval b ds = foldl (\<lambda>a d. a * b + d) 0 ds"

definition ref_sign :: "byte list \<Rightarrow> bool \<times> byte list" where
  "ref_sign t = (case t of c # r \<Rightarrow> if c = 45 then (True, r) else if c = 43 then (False, r) else (False, t)
                 | [] \<Rightarrow> (False, t))"

definition ref_base :: "int \<Rightarrow> byte list \<Rightarrow> int \<times> byte list" where
  "ref_base base t =
     (if (base = 0 \<or> base = 16) \<and> 2 \<le> length t \<and> t ! 0 = 48 \<and> (t ! 1 = 120 \<or> t ! 1 = 88) then (16, drop 2 t)
      else if base = 0 then (if t \<noteq> [] \<and> t ! 0 = 48 then 8 else 10, t) else (base, t))"

text \<open>Sign, magnitude and number of digits, and the length of what stands before the digits.\<close>

definition strto_ref :: "byte list \<Rightarrow> int \<Rightarrow> bool \<times> nat \<times> nat \<times> nat" where
  "strto_ref t base =
     (let (neg, t1) = ref_sign (dropWhile isspace t);
          (base, t2) = ref_base base t1;
          ds = takeWhile (vdigit base) t2
      in (neg, numval (nat base) (map (the \<circ> strto_digit) ds), length ds, length t - length t2))"

section \<open>The code meets the reference\<close>

lemma strto_digit_0 [simp]: "strto_digit 0 = None" "\<not> vdigit base 0"
  by (simp_all add: strto_digit_def vdigit_def ctype_defs isascii_iff)

lemma strto_digit_letter: "strto_digit c = Some d \<Longrightarrow> d < 36"
  by (auto simp: strto_digit_def ctype_defs split: if_splits)

text \<open>
  The position of a scan: the character \<open>c\<close> is at \<open>s - 1\<close>, \<open>xs\<close> is what the string holds from there on,
  and \<open>n\<close> is the length of the whole string.
\<close>

definition scan_at :: "byte list \<Rightarrow> nat \<Rightarrow> byte \<Rightarrow> nat \<Rightarrow> byte list \<Rightarrow> bool" where
  "scan_at buf n c s xs \<longleftrightarrow> 0 < s \<and> cstr buf (s - 1) xs \<and> c = hd (xs @ [0]) \<and> s + length xs = n + 1"

lemma scan_at_next:
  assumes "scan_at buf n c s (c # xs)"
  shows "rd buf s = Inr (hd (xs @ [0]))" "s < length buf" "buf ! s = hd (xs @ [0])" "scan_at buf n (hd (xs @ [0])) (s + 1) xs"
proof -
  have c: "cstr buf s xs" "0 < s" "s + length xs = n" using assms by (auto simp: scan_at_def dest!: cstr_Cons)
  then show r: "rd buf s = Inr (hd (xs @ [0]))" by (auto simp: cstr_0 split: list.split)
  show "scan_at buf n (hd (xs @ [0])) (s + 1) xs" using c by (simp add: scan_at_def)
  show "s < length buf" using cstr_less [OF c(1)] by simp
  with r show "buf ! s = hd (xs @ [0])" by simp
qed

lemma scan_at_neq_0: "scan_at buf n c s xs \<Longrightarrow> c \<noteq> 0 \<Longrightarrow> \<exists>r. xs = c # r"
  by (cases xs) (auto simp: scan_at_def)

lemma scan_at_0: "scan_at buf n 0 s xs \<Longrightarrow> xs = []"
  by (cases xs) (auto simp: scan_at_def cstr_def)

lemma strto_space_spec:
  "cstr buf s t \<Longrightarrow> s + length t = n \<Longrightarrow>
   \<exists>c s'. strto_space buf s = Inr (c, s') \<and> scan_at buf n c s' (dropWhile isspace t)"
proof (induction t arbitrary: s)
  case Nil
  then show ?case by (subst strto_space.simps) (simp add: cstr_def scan_at_def)
next
  case (Cons a t)
  have a: "s < length buf" "buf ! s = a" using cstr_rd [OF Cons.prems(1), of 0] cstr_less [OF Cons.prems(1)] by (auto simp: rd_def)
  show ?case
  proof (cases "isspace a")
    case True
    with a Cons.IH [OF cstr_Cons [OF Cons.prems(1)]] Cons.prems(2) show ?thesis by (subst strto_space.simps) auto
  next
    case False
    with a Cons.prems show ?thesis by (subst strto_space.simps) (auto simp: scan_at_def)
  qed
qed

lemma strto_head_spec:
  assumes "cstr buf 0 t"
  shows "\<exists>c s. strto_head buf base = Inr (fst (ref_sign (dropWhile isspace t)),
      fst (ref_base base (snd (ref_sign (dropWhile isspace t)))), c, s) \<and>
    scan_at buf (length t) c s (snd (ref_base base (snd (ref_sign (dropWhile isspace t)))))"
proof -
  let ?t1 = "dropWhile isspace t"
  from strto_space_spec [OF assms] obtain c s where
    1: "strto_space buf 0 = Inr (c, s)" "scan_at buf (length t) c s ?t1" by auto
  define neg t2 where t2: "neg = fst (ref_sign ?t1)" "t2 = snd (ref_sign ?t1)"
  have "\<exists>c' s'. (if c = 45 then rbind (rd buf s) (\<lambda>c. Inr (True, c, s + 1))
            else if c = 43 then rbind (rd buf s) (\<lambda>c. Inr (False, c, s + 1))
            else Inr (False, c, s)) = Inr (neg, c', s') \<and> scan_at buf (length t) c' s' t2"
  proof (cases "c = 45 \<or> c = 43")
    case True
    then obtain r where r: "?t1 = c # r" using scan_at_neq_0 [OF 1(2)] by auto
    from scan_at_next [OF 1(2) [unfolded r]] True show ?thesis by (auto simp: t2 ref_sign_def r)
  next
    case False
    then have "ref_sign ?t1 = (False, ?t1)" using 1(2) by (auto simp: ref_sign_def scan_at_def split: list.split)
    with False 1(2) show ?thesis by (simp add: t2)
  qed
  then obtain c' s' where 2: "(if c = 45 then rbind (rd buf s) (\<lambda>c. Inr (True, c, s + 1))
            else if c = 43 then rbind (rd buf s) (\<lambda>c. Inr (False, c, s + 1))
            else Inr (False, c, s)) = Inr (neg, c', s')" "scan_at buf (length t) c' s' t2" by blast
  define B T where B: "B = fst (ref_base base t2)" "T = snd (ref_base base t2)"
  have "\<exists>c s. rbind (if (base = 0 \<or> base = 16) \<and> c' = 48
            then rbind (rd buf s') (\<lambda>x. Inr (x = 120 \<or> x = 88)) else Inr False) (\<lambda>hex.
     rbind (if hex then rbind (rd buf (s' + 1)) (\<lambda>c. Inr (16, c, s' + 2)) else Inr (base, c', s')) (\<lambda>(base, c, s).
       Inr (neg, if base = 0 then (if c = 48 then 8 else 10) else base, c, s))) = Inr (neg, B, c, s) \<and>
     scan_at buf (length t) c s T"
  proof (cases "(base = 0 \<or> base = 16) \<and> c' = 48")
    case False
    then have "ref_base base t2 = (if base = 0 then 10 else base, t2)" using 2(2)
      by (cases t2) (auto simp: ref_base_def scan_at_def)
    with False 2(2) show ?thesis by (auto simp: B)
  next
    case True
    then obtain r where r: "t2 = 48 # r" using scan_at_neq_0 [OF 2(2)] by auto
    note n = scan_at_next [OF 2(2) [unfolded r conjunct2 [OF True]]]
    show ?thesis
    proof (cases "hd (r @ [0]) = 120 \<or> hd (r @ [0]) = 88")
      case hex: True
      then obtain x q where q: "r = x # q" "x = 120 \<or> x = 88" by (cases r) auto
      have x: "hd (r @ [0]) = x" by (simp add: q)
      have "ref_base base t2 = (16, q)" using True q r by (auto simp: ref_base_def)
      moreover have "scan_at buf (length t) x (s' + 1) (x # q)" using n(4) unfolding q(1) by simp
      ultimately show ?thesis using n(1) q scan_at_next [of buf "length t" x "s' + 1" q] True by (auto simp: B)
    next
      case False
      then have "ref_base base t2 = (if base = 0 then 8 else base, t2)" using True r
        by (cases r) (auto simp: ref_base_def)
      with False n(1) True 2(2) show ?thesis by (auto simp: B)
    qed
  qed
  then show ?thesis unfolding strto_head_def 1(1) rbind_Inr prod.case 2(1) B t2 by simp
qed

text \<open>The digit loop folds the step over the longest run of digits.\<close>

lemma strto_loop_spec:
  "scan_at buf n c s xs \<Longrightarrow>
   strto_loop buf w base ubase cutoff cutlim c s st =
     Inr (foldl (strto_step w ubase cutoff cutlim) st (map (the \<circ> strto_digit) (takeWhile (vdigit base) xs)),
       s + length (takeWhile (vdigit base) xs))"
proof (induction xs arbitrary: c s st)
  case Nil
  then show ?case by (subst strto_loop.simps) (simp add: scan_at_def)
next
  case (Cons x xs)
  then have c: "c = x" by (simp add: scan_at_def)
  note n = scan_at_next [OF Cons.prems [folded c]]
  show ?case
  proof (cases "vdigit base x")
    case True
    then obtain d where "strto_digit x = Some d" "\<not> base \<le> int d" by (auto simp: vdigit_def split: option.splits)
    then show ?thesis using n True c Cons.IH [OF n(4)] by (subst strto_loop.simps) (simp add: Let_def comp_def)
  next
    case False
    then show ?thesis by (subst strto_loop.simps) (auto simp: c vdigit_def split: option.splits)
  qed
qed

text \<open>Folding the step computes the value, or notices that it exceeds the limit.\<close>

lemma numval_snoc: "numval b (ds @ [d]) = numval b ds * b + d"
  by (simp add: numval_def)

lemma strto_step_pair: "strto_step w b co cl (acc, any) d =
    (if any < 0 \<or> co < acc \<or> acc = co \<and> cl < int d then (acc, - 1) else ((acc * b mod 2 ^ w + d) mod 2 ^ w, 1))"
  by (simp add: strto_step_def)

lemma cutoff_lex:
  assumes "d < b" "r < b"
  shows "a * b + d \<le> q * b + r \<longleftrightarrow> \<not> (q < a \<or> a = q \<and> r < (d::nat))"
proof (cases a q rule: linorder_cases)
  case less
  then have "(a + 1) * b \<le> q * b" by (intro mult_le_mono1) simp
  with less assms show ?thesis by simp
next
  case greater
  then have "(q + 1) * b \<le> a * b" by (intro mult_le_mono1) simp
  with greater assms show ?thesis by simp
qed auto

lemma strto_fold:
  assumes b: "0 < b" "b < 2 ^ w" "lim < 2 ^ w" and ds: "\<forall>d \<in> set ds. d < b"
  shows "(let (acc, any) = foldl (strto_step w b (lim div b) (int (lim mod b))) (0, 0) ds in
    if numval b ds \<le> lim then acc = numval b ds \<and> any = of_bool (ds \<noteq> []) else any = - 1)"
  using ds
proof (induction ds rule: rev_induct)
  case Nil
  show ?case by (simp add: numval_def)
next
  case (snoc d ds)
  obtain acc any where f: "foldl (strto_step w b (lim div b) (int (lim mod b))) (0, 0) ds = (acc, any)" by force
  have IH: "if numval b ds \<le> lim then acc = numval b ds \<and> any = of_bool (ds \<noteq> []) else any = - 1"
    using snoc f by simp
  have d: "d < b" using snoc.prems by simp
  have le: "numval b ds \<le> numval b ds * b + d" using b(1) by (cases b) auto
  show ?case
  proof (cases "numval b ds \<le> lim")
    case False
    then show ?thesis using IH f le by (auto simp: numval_snoc strto_step_pair)
  next
    case True
    then have a: "acc = numval b ds" "any = of_bool (ds \<noteq> [])" using IH by auto
    have "acc * b + d \<le> lim \<longleftrightarrow> \<not> (lim div b < acc \<or> acc = lim div b \<and> lim mod b < d)"
      using cutoff_lex [OF d, of "lim mod b" acc "lim div b"] b(1) by simp
    moreover have "(acc * b mod 2 ^ w + d) mod 2 ^ w = acc * b + d" if "acc * b + d \<le> lim"
      using that b(3) by simp
    ultimately show ?thesis using f a by (auto simp: numval_snoc strto_step_pair Let_def)
  qed
qed

lemma ref_base_pos: "0 \<le> base \<Longrightarrow> base \<le> 36 \<Longrightarrow> 0 < fst (ref_base base t) \<and> fst (ref_base base t) \<le> 36"
  by (auto simp: ref_base_def)

lemma vdigit_less: "d \<in> set (map (the \<circ> strto_digit) (takeWhile (vdigit base) xs)) \<Longrightarrow> d < nat base"
  by (auto dest!: set_takeWhileD simp: vdigit_def split: option.splits)

text \<open>What head and loop deliver together, for a limit \<open>lim\<close> of the magnitude.\<close>

lemma strto_run:
  assumes t: "cstr buf 0 t" and base: "0 \<le> base" "base \<le> 36" and w: "6 < w"
    and ref: "strto_ref t base = (neg, v, n, k)"
  shows "\<exists>base' c s b. strto_head buf base = Inr (neg, base', c, s) \<and> base' = int b \<and> 0 < b \<and> b \<le> 36 \<and>
    (\<forall>lim < 2 ^ w. \<exists>acc any. strto_loop buf w base' b (lim div b) (int (lim mod b)) c s (0, 0) = Inr ((acc, any), s + n) \<and>
      (if v \<le> lim then acc = v \<and> any = of_bool (n \<noteq> 0) else any = - 1)) \<and> s + n - 1 = k + n"
proof -
  define t1 where "t1 = snd (ref_sign (dropWhile isspace t))"
  define b where "b = nat (fst (ref_base base t1))"
  define t2 where "t2 = snd (ref_base base t1)"
  define ds where "ds = map (the \<circ> strto_digit) (takeWhile (vdigit (int b)) t2)"
  have b: "0 < b" "b \<le> 36" "fst (ref_base base t1) = int b" unfolding b_def using ref_base_pos [OF base, of t1] by auto
  have neg: "neg = fst (ref_sign (dropWhile isspace t))" and v: "v = numval b ds" and n: "n = length ds"
    "n = length (takeWhile (vdigit (int b)) t2)" and k: "k = length t - length t2"
    using ref b(3) unfolding strto_ref_def t1_def [symmetric] t2_def ds_def by (auto simp: t1_def split_beta Let_def)
  from strto_head_spec [OF t, of base] obtain c s where h: "strto_head buf base = Inr (neg, int b, c, s)"
    "scan_at buf (length t) c s t2" unfolding neg t1_def [symmetric] t2_def b(3) by blast
  have "\<exists>acc any. strto_loop buf w (int b) b (lim div b) (int (lim mod b)) c s (0, 0) = Inr ((acc, any), s + n) \<and>
      (if v \<le> lim then acc = v \<and> any = of_bool (n \<noteq> 0) else any = - 1)" if "lim < 2 ^ w" for lim
  proof -
    have "(2::nat) ^ 6 < 2 ^ w" using w by (intro power_strict_increasing) auto
    then have bw: "b < 2 ^ w" using b(2) by simp
    have "\<forall>d \<in> set ds. d < b" unfolding ds_def using vdigit_less [of _ "int b" t2] by auto
    from strto_fold [OF b(1) bw that this] strto_loop_spec [OF h(2), of w "int b" b "lim div b" "int (lim mod b)" "(0, 0)"]
    show ?thesis unfolding ds_def [symmetric] n(2) [symmetric]
      by (cases "foldl (strto_step w b (lim div b) (int (lim mod b))) (0, 0) ds") (auto simp: v n(1))
  qed
  moreover have "s + n - 1 = k + n" using h(2) unfolding scan_at_def k by linarith
  ultimately show ?thesis using h(1) b by blast
qed

lemma signed_of_neg: "0 < w \<Longrightarrow> v \<le> 2 ^ (w - 1) \<Longrightarrow> signed_of w ((2 ^ w - v) mod 2 ^ w) = - int v"
proof -
  assume "0 < w" and v: "v \<le> 2 ^ (w - 1)"
  then have p: "(2::nat) ^ w = 2 * 2 ^ (w - 1)" "(2::int) ^ w = 2 * 2 ^ (w - 1)" by (simp_all flip: power_Suc)
  show ?thesis
  proof (cases "v = 0")
    case False
    then show ?thesis using v p by (simp add: signed_of_def of_nat_diff)
  qed (simp add: signed_of_def)
qed

lemma signed_of_max: "0 < w \<Longrightarrow> signed_of w (2 ^ (w - 1)) = - (2 ^ (w - 1))"
  using power_Suc [of "2::int" "w - 1"] by (simp add: signed_of_def)

lemma signed_of_small: "v < 2 ^ (w - 1) \<Longrightarrow> signed_of w v = int v"
  by (simp add: signed_of_def)

text \<open>The part after the loop, for a signed result.\<close>

definition strto_signed :: "nat \<Rightarrow> bool \<Rightarrow> nat \<Rightarrow> int \<Rightarrow> int" where
  "strto_signed w neg acc any =
     signed_of w (if any < 0 then (if neg then 2 ^ (w - 1) else 2 ^ (w - 1) - 1)
                  else if neg then (2 ^ w - acc) mod 2 ^ w else acc)"

lemma strto_signed_eq:
  assumes "0 < w" "if v \<le> (if neg then 2 ^ (w - 1) else 2 ^ (w - 1) - 1) then acc = v \<and> any = of_bool b else any = - 1"
  shows "strto_signed w neg acc any = (if neg then max (- (2 ^ (w - 1))) (- int v) else min (2 ^ (w - 1) - 1) (int v))"
proof (cases "v \<le> (if neg then 2 ^ (w - 1) else 2 ^ (w - 1) - 1)")
  case True
  show ?thesis
  proof (cases neg)
    case n: True
    have "v \<le> 2 ^ (w - 1)" using True n by simp
    then have "int v \<le> int (2 ^ (w - 1))" by (simp only: of_nat_le_iff)
    then show ?thesis using True n assms by (simp add: strto_signed_def signed_of_neg max_absorb2)
  next
    case n: False
    have v: "v < 2 ^ (w - 1)" using True n by (simp add: less_eq_Suc_le) (metis One_nat_def Suc_leI Suc_pred not_less_eq_eq zero_less_numeral zero_less_power le_imp_less_Suc)
    then have "int v < int (2 ^ (w - 1))" by (simp only: of_nat_less_iff)
    then show ?thesis using True n assms v by (simp add: strto_signed_def signed_of_small)
  qed
next
  case False
  show ?thesis
  proof (cases neg)
    case n: True
    have "2 ^ (w - 1) < v" using False n by simp
    then have "int (2 ^ (w - 1)) < int v" by (simp only: of_nat_less_iff)
    then show ?thesis using False n assms signed_of_max [OF assms(1)] by (simp add: strto_signed_def)
  next
    case n: False
    have "2 ^ (w - 1) \<le> v" using False n by simp
    then have "int (2 ^ (w - 1)) \<le> int v" by (simp only: of_nat_le_iff)
    then have "min (2 ^ (w - 1) - 1) (int v) = 2 ^ (w - 1) - 1" unfolding of_nat_power by (simp only: of_nat_numeral)
    moreover have "signed_of w (2 ^ (w - 1) - 1) = 2 ^ (w - 1) - 1"
      using assms(1) by (subst signed_of_small) (simp_all add: of_nat_diff)
    ultimately show ?thesis using False n assms by (simp add: strto_signed_def)
  qed
qed

lemma strto_any: "if v \<le> lim then acc = v \<and> any = of_bool (n \<noteq> 0) else any = (- 1::int) \<Longrightarrow>
    strto_ref t base = (neg, v, n, k) \<Longrightarrow> (any \<noteq> 0) = (n \<noteq> 0)"
  by (cases "n = 0") (auto simp: strto_ref_def Let_def numval_def split: prod.splits if_splits)

lemma small_base: "b \<le> 36 \<Longrightarrow> 6 < w \<Longrightarrow> nat (int b mod 2 ^ w) = b"
proof -
  assume "b \<le> 36" "6 < w"
  have "(2::int) ^ 6 < 2 ^ w" using \<open>6 < w\<close> by (intro power_strict_increasing) auto
  then have "64 < (2::int) ^ w" by simp
  with \<open>b \<le> 36\<close> have "int b < 2 ^ w" by linarith
  then show ?thesis by simp
qed

lemma strtol_spec:
  assumes t: "cstr buf 0 t" and base: "0 \<le> base" "base \<le> 36" and w: "6 < w"
    and ref: "strto_ref t base = (neg, v, n, k)"
  shows "strtol w buf base =
    Inr (if neg then max (- (2 ^ (w - 1))) (- int v) else min (2 ^ (w - 1) - 1) (int v), if n = 0 then 0 else k + n)"
proof -
  define lim where "lim = (if neg then 2 ^ (w - 1) else 2 ^ (w - 1) - (1::nat))"
  have "(2::nat) ^ (w - 1) < 2 ^ w" using w by (intro power_strict_increasing) auto
  then have "lim < 2 ^ w" unfolding lim_def by (auto intro: less_imp_diff_less)
  with strto_run [OF assms] obtain c s b acc any where h: "strto_head buf base = Inr (neg, int b, c, s)" "b \<le> 36"
    "strto_loop buf w (int b) b (lim div b) (int (lim mod b)) c s (0, 0) = Inr ((acc, any), s + n)"
    "if v \<le> lim then acc = v \<and> any = of_bool (n \<noteq> 0) else any = - 1" "s + n - 1 = k + n" by blast
  have "strtol w buf base = Inr (strto_signed w neg acc any, if any \<noteq> 0 then s + n - 1 else 0)"
    using h(3) unfolding strtol_def h(1) rbind_Inr prod.case Let_def small_base [OF h(2) w] lim_def [symmetric] strto_signed_def
    by simp
  then show ?thesis
    using strto_signed_eq [of w v neg acc any "n \<noteq> 0"] w h(4,5) strto_any [OF h(4) ref] unfolding lim_def by auto
qed

lemma strtoq_spec:
  assumes t: "cstr buf 0 t" and base: "0 \<le> base" "base \<le> 36"
    and ref: "strto_ref t base = (neg, v, n, k)"
  shows "strtoq buf base = Inr (if neg then max (- (2 ^ 63)) (- int v) else min (2 ^ 63 - 1) (int v), if n = 0 then 0 else k + n)"
proof -
  define lim where "lim = (if neg then 2 ^ (64 - 1) else 2 ^ (64 - 1) - (1::nat))"
  have "lim < 2 ^ 64" by (simp add: lim_def)
  with strto_run [OF t base _ ref, of 64] obtain c s b acc any where h: "strto_head buf base = Inr (neg, int b, c, s)" "b \<le> 36"
    "strto_loop buf 64 (int b) b (lim div b) (int (lim mod b)) c s (0, 0) = Inr ((acc, any), s + n)"
    "if v \<le> lim then acc = v \<and> any = of_bool (n \<noteq> 0) else any = - 1" "s + n - 1 = k + n" by auto
  have q: "nat (int b mod 2 ^ 32) = b" using h(2) by simp
  have l: "(if neg then 1 + (2 ^ 63 - 1) else 2 ^ 63 - 1) = lim" by (simp add: lim_def)
  have "strtoq buf base = Inr (strto_signed 64 neg acc any, if any \<noteq> 0 then s + n - 1 else 0)"
    using h(3) unfolding strtoq_def h(1) rbind_Inr prod.case Let_def q l strto_signed_def by simp
  then show ?thesis
    using strto_signed_eq [of 64 v neg acc any "n \<noteq> 0"] h(4,5) strto_any [OF h(4) ref] unfolding lim_def by auto
qed

lemma strtoul_spec:
  assumes t: "cstr buf 0 t" and base: "0 \<le> base" "base \<le> 36" and w: "6 < w"
    and ref: "strto_ref t base = (neg, v, n, k)"
  shows "strtoul w buf base = Inr (if 2 ^ w \<le> v then 2 ^ w - 1 else if neg then (2 ^ w - v) mod 2 ^ w else v,
    if n = 0 then 0 else k + n)"
proof -
  have "2 ^ w - 1 < (2::nat) ^ w" by simp
  with strto_run [OF assms] obtain c s b acc any where h: "strto_head buf base = Inr (neg, int b, c, s)" "b \<le> 36"
    "strto_loop buf w (int b) b ((2 ^ w - 1) div b) (int ((2 ^ w - 1) mod b)) c s (0, 0) = Inr ((acc, any), s + n)"
    "if v \<le> 2 ^ w - 1 then acc = v \<and> any = of_bool (n \<noteq> 0) else any = - 1" "s + n - 1 = k + n" by blast
  have "v \<le> 2 ^ w - 1 \<longleftrightarrow> \<not> 2 ^ w \<le> v" by (metis One_nat_def Suc_pred less_Suc_eq_le not_le zero_less_numeral zero_less_power)
  then show ?thesis using h(3,4,5) strto_any [OF h(4) ref]
    unfolding strtoul_def h(1) rbind_Inr prod.case Let_def small_base [OF h(2) w] by (auto split: if_splits)
qed

lemma strtouq_spec:
  assumes "cstr buf 0 t" "0 \<le> base" "base \<le> 36"
    and "strto_ref t base = (neg, v, n, k)"
  shows "strtouq buf base = Inr (if 2 ^ 64 \<le> v then 2 ^ 64 - 1 else if neg then (2 ^ 64 - v) mod 2 ^ 64 else v,
    if n = 0 then 0 else k + n)"
proof -
  have "2 ^ 64 - 1 < (2::nat) ^ 64" "6 < (64::nat)" by simp_all
  with strto_run [OF assms(1-3) _ assms(4), of 64] obtain c s b acc any where
    h: "strto_head buf base = Inr (neg, int b, c, s)" "b \<le> 36"
    "strto_loop buf 64 (int b) b ((2 ^ 64 - 1) div b) (int ((2 ^ 64 - 1) mod b)) c s (0, 0) = Inr ((acc, any), s + n)"
    "if v \<le> 2 ^ 64 - 1 then acc = v \<and> any = of_bool (n \<noteq> 0) else any = - 1" "s + n - 1 = k + n" by blast
  have q: "nat (int b mod 2 ^ 32) = b" using h(2) by simp
  have "v \<le> 2 ^ 64 - 1 \<longleftrightarrow> \<not> 2 ^ 64 \<le> v" by auto
  then show ?thesis using h(3,4,5) strto_any [OF h(4) assms(4)]
    unfolding strtouq_def h(1) rbind_Inr prod.case Let_def q by (auto split: if_splits)
qed

end
