(* ===== verification/Kvprintf_Spec.thy ===== *)
theory Kvprintf_Spec
  imports Kvprintf Strto
begin

text \<open>
  What the formatted output prints: the digits of numbers in any radix, their way back through the
  parsers of \<open>sys/libkern\<close>, and what reaches a buffer of limited size.
\<close>

section \<open>What is printed\<close>

text \<open>The digits of a number, the least significant one first.\<close>

function rdigits :: "nat \<Rightarrow> nat \<Rightarrow> nat list" where
  "rdigits base num = num mod base # (if num div base = 0 \<or> base < 2 then [] else rdigits base (num div base))"
  by pat_completeness auto
termination
  by (relation "measure (\<lambda>(base, num). num)") (auto simp: div_eq_0_iff intro: div_less_dividend)

declare rdigits.simps [simp del]

definition asc :: "bool \<Rightarrow> nat \<Rightarrow> byte" where
  "asc upper d = (let c = hex2ascii_data ! d in if upper then toupper c else c)"

lemma hex2ascii_length [simp]: "length hex2ascii_data = 37"
  by (simp add: hex2ascii_data_def)

lemma ksprintn_loop_spec:
  assumes "2 \<le> base" "base \<le> 36"
  shows "p + length (rdigits base num) < length nbuf \<Longrightarrow> ksprintn_loop nbuf p num base upper =
    Inr (put_at nbuf (p + 1) (map (asc upper) (rdigits base num)), p + length (rdigits base num))"
proof (induction "rdigits base num" arbitrary: num p nbuf)
  case Nil
  then show ?case using rdigits.simps [of base num] by simp
next
  case (Cons d ds)
  note r = rdigits.simps [of base num]
  have m: "num mod base < 37" using assms by (simp add: less_trans [OF mod_less_divisor])
  show ?case
  proof (cases "num div base = 0")
    case True
    then have "rdigits base num = [num mod base]" using r by simp
    then show ?thesis using Cons.prems m True
      by (subst ksprintn_loop.simps) (simp add: asc_def Let_def put_at_Cons)
  next
    case False
    then have r': "rdigits base num = num mod base # rdigits base (num div base)" using r assms by simp
    let ?c = "asc upper (num mod base)"
    have "ksprintn_loop nbuf p num base upper = ksprintn_loop (nbuf[p + 1 := ?c]) (p + 1) (num div base) base upper"
      using Cons.prems m False r' by (subst ksprintn_loop.simps) (simp add: asc_def Let_def)
    also have "\<dots> = Inr (put_at (nbuf[p + 1 := ?c]) (p + 1 + 1) (map (asc upper) (rdigits base (num div base))),
        p + 1 + length (rdigits base (num div base)))"
      using Cons.prems Cons.hyps(2) r' by (intro Cons.hyps(1)) auto
    finally show ?thesis using Cons.prems r' by (simp add: put_at_Cons)
  qed
qed

lemma rdigits_less: "2 \<le> base \<Longrightarrow> d \<in> set (rdigits base num) \<Longrightarrow> d < base"
proof (induction base num rule: rdigits.induct)
  case (1 base num)
  then show ?case by (subst (asm) rdigits.simps) (auto split: if_splits)
qed

lemma length_rdigits: "2 \<le> base \<Longrightarrow> num < base ^ Suc k \<Longrightarrow> length (rdigits base num) \<le> Suc k"
proof (induction k arbitrary: num)
  case 0
  then show ?case by (subst rdigits.simps) simp
next
  case (Suc k)
  have "num div base < base ^ Suc k" using Suc.prems by (intro less_mult_imp_div_less) (simp add: mult.commute)
  from Suc.IH [OF Suc.prems(1) this] show ?case by (subst rdigits.simps) simp
qed

lemma numval_rdigits: "2 \<le> base \<Longrightarrow> numval base (rev (rdigits base num)) = num"
proof (induction base num rule: rdigits.induct)
  case (1 base num)
  show ?case
  proof (cases "num div base = 0")
    case True
    then show ?thesis using 1(2) by (subst rdigits.simps) (auto simp: numval_def div_eq_0_iff)
  next
    case False
    with 1 have "numval base (rev (rdigits base (num div base))) = num div base" by simp
    then show ?thesis using False 1(2) by (subst rdigits.simps) (simp add: numval_snoc)
  qed
qed

lemma rdigits_neq_Nil [simp]: "rdigits base num \<noteq> []"
  by (subst rdigits.simps) simp

lemma asc_eq: "d < 36 \<Longrightarrow> asc upper d = (if d < 10 then 48 + d else if upper then 55 + d else 87 + d)"
proof -
  have "map (asc False) [0..<36] = map (\<lambda>d. if d < 10 then 48 + d else 87 + d) [0..<36]"
    "map (asc True) [0..<36] = map (\<lambda>d. if d < 10 then 48 + d else 55 + d) [0..<36]" by code_simp+
  then have "\<forall>d \<in> set [0..<36]. asc False d = (if d < 10 then 48 + d else 87 + d)"
    "\<forall>d \<in> set [0..<36]. asc True d = (if d < 10 then 48 + d else 55 + d)" by (simp_all only: map_eq_conv)
  then show "d < 36 \<Longrightarrow> ?thesis" by (cases upper) simp_all
qed

lemma asc_digit: "d < 36 \<Longrightarrow> strto_digit (asc upper d) = Some d \<and> asc upper d \<noteq> 0 \<and> \<not> isspace (asc upper d) \<and>
    asc upper d \<noteq> 43 \<and> asc upper d \<noteq> 45 \<and> (asc upper d = 120 \<or> asc upper d = 88 \<longrightarrow> d = 33)"
  by (auto simp: asc_eq strto_digit_def ctype_defs isascii_iff)

lemma asc_nonzero: "2 \<le> base \<Longrightarrow> base \<le> 36 \<Longrightarrow> 0 \<notin> set (map (asc upper) (rdigits base num))"
proof
  assume b: "2 \<le> base" "base \<le> 36" and "0 \<in> set (map (asc upper) (rdigits base num))"
  then obtain d where "d \<in> set (rdigits base num)" "asc upper d = 0" by auto
  with rdigits_less [OF b(1) this(1)] asc_digit [of d upper] b show False by simp
qed

lemma kv_back_spec: "nbuf ! 0 = 0 \<Longrightarrow> length cs < length nbuf \<Longrightarrow> 0 \<notin> set cs \<Longrightarrow>
    kv_back (put_at nbuf 1 cs) (length cs) = Inr (rev cs)"
proof (induction cs rule: rev_induct)
  case Nil
  then show ?case by simp
next
  case (snoc c cs)
  have p: "put_at nbuf 1 (cs @ [c]) = (put_at nbuf 1 cs)[length cs + 1 := c]"
    using snoc.prems put_at_append [of 1 cs "[c]" nbuf] by (simp add: put_at_single)
  have "kv_back (xs[n + 1 := x]) n = kv_back xs n" for xs n and x :: nat
  proof -
    have "kv_back (xs[m := x]) n = kv_back xs n" if "n < m" for m
      using that by (induction n) (simp_all add: rd_def)
    then show ?thesis by simp
  qed
  with snoc p show ?case by simp
qed

lemma ksprintn_spec:
  assumes "2 \<le> base" "base \<le> 36" "num < 2 ^ 64" "length nbuf = MAXNBUF"
  shows "\<exists>nbuf'. ksprintn nbuf num base upper = Inr (nbuf', length (rdigits base num)) \<and>
    kv_back nbuf' (length (rdigits base num)) = Inr (map (asc upper) (rev (rdigits base num)))"
proof -
  have "(2::nat) ^ Suc 63 \<le> base ^ Suc 63" using assms(1) by (intro power_mono) auto
  then have l: "length (rdigits base num) \<le> 64" using assms(1,3) length_rdigits [of base num 63] by simp
  let ?nb = "nbuf[0 := 0]"
  have len: "length nbuf = 65" using assms(4) by (simp add: MAXNBUF_def)
  have "ksprintn nbuf num base upper = ksprintn_loop ?nb 0 num base upper"
    using assms(1) len by (simp add: ksprintn_def)
  also have "\<dots> = Inr (put_at ?nb 1 (map (asc upper) (rdigits base num)), length (rdigits base num))"
    using ksprintn_loop_spec [OF assms(1,2), of 0 num ?nb upper] l len by simp
  moreover have "0 \<notin> set (map (asc upper) (rdigits base num))"
    by (rule asc_nonzero [OF assms(1,2)])
  then have "kv_back (put_at ?nb 1 (map (asc upper) (rdigits base num))) (length (map (asc upper) (rdigits base num))) =
      Inr (rev (map (asc upper) (rdigits base num)))"
    using l len by (intro kv_back_spec) (simp_all add: nth_list_update)
  ultimately show ?thesis by (simp add: rev_map)
qed

text \<open>A number without width, precision and prefix.\<close>

definition kv_plain :: "kvst \<Rightarrow> bool" where
  "kv_plain st \<longleftrightarrow> kv_width st = 0 \<and> kv_dwidth st = 0 \<and> \<not> kv_sharp st \<and> kv_padc st = 32"

definition num_text :: "bool \<Rightarrow> bool \<Rightarrow> nat \<Rightarrow> nat \<Rightarrow> byte list" where
  "num_text upper neg base num = (if neg then [45] else []) @ map (asc upper) (rev (rdigits base num))"

lemma kv_number_plain:
  assumes "kv_plain st" "2 \<le> base" "base \<le> 36" "num < 2 ^ 64"
  defines "neg \<equiv> kv_sign st \<and> 2 ^ 63 \<le> num"
  shows "kv_number st base num = Inr (num_text (kv_upper st) neg base (if neg then (2 ^ 64 - num) mod 2 ^ 64 else num))"
proof -
  define num' where "num' = (if neg then (2 ^ 64 - num) mod 2 ^ 64 else num)"
  have "num' < 2 ^ 64" using assms(4) by (simp add: num'_def)
  from ksprintn_spec [OF assms(2,3) this, of "replicate MAXNBUF 0" "kv_upper st"] obtain nbuf' where
    n: "ksprintn (replicate MAXNBUF 0) num' base (kv_upper st) = Inr (nbuf', length (rdigits base num'))"
    "kv_back nbuf' (length (rdigits base num')) = Inr (map (asc (kv_upper st)) (rev (rdigits base num')))" by auto
  have "length (rdigits base num') \<le> 64"
    using length_rdigits [of base num' 63] \<open>num' < 2 ^ 64\<close> assms(2) power_mono [of 2 base "Suc 63"] by simp
  then have c: "ck (- int (length (rdigits base num'))) = Inr (- int (length (rdigits base num')))"
    "ck (- 1 - int (length (rdigits base num'))) = Inr (- 1 - int (length (rdigits base num')))" by (simp_all add: ck_def)
  have "kv_number st base num = (let (neg, num) = (neg, num') in
      rbind (ksprintn (replicate MAXNBUF 0) num base (kv_upper st)) (\<lambda>(nbuf, p).
         let n = int p; tmp = (if neg then 1 else 0)
         in rbind (ck (- (tmp + n))) (\<lambda>width.
            rbind (ck (- n)) (\<lambda>dwidth.
            rbind (kv_back nbuf p) (\<lambda>digits.
              Inr ((if \<not> kv_ladjust st then replicate (nat width) 32 else []) @ (if neg then [45] else []) @
                   replicate (nat dwidth) 48 @ digits @
                   (if kv_ladjust st then replicate (nat width) 32 else [])))))))"
    using assms(1) unfolding kv_number_def kv_plain_def neg_def num'_def by (auto simp: Let_def)
  also have "\<dots> = Inr (num_text (kv_upper st) neg base num')"
    using n c by (auto simp: num_text_def ck_def)
  finally show ?thesis by (simp add: num'_def)
qed

text \<open>The parsers read the text back.\<close>

lemma takeWhile_digits:
  assumes "base \<le> 36" "\<forall>d \<in> set ds. d < base"
  shows "takeWhile (vdigit (int base)) (map (asc upper) ds) = map (asc upper) ds"
    "map (the \<circ> strto_digit) (map (asc upper) ds) = ds"
proof -
  have d: "strto_digit (asc upper d) = Some d \<and> d < base" if "d \<in> set ds" for d
    using asc_digit [of d upper] assms that by force
  then show "takeWhile (vdigit (int base)) (map (asc upper) ds) = map (asc upper) ds"
    by (subst takeWhile_eq_all_conv) (auto simp: vdigit_def)
  from d show "map (the \<circ> strto_digit) (map (asc upper) ds) = ds"
    unfolding map_map by (intro map_idI) simp
qed

lemma digits_ref:
  assumes "2 \<le> base" "base \<le> 36" "ds \<noteq> []" "\<forall>d \<in> set ds. d < base"
  shows "strto_ref ((if neg then [45] else []) @ map (asc upper) ds) (int base) =
    (neg, numval base ds, length ds, if neg then 1 else 0)"
proof -
  let ?t = "(if neg then [45] else []) @ map (asc upper) ds"
  obtain d es where r: "ds = d # es" using assms(3) by (cases ds) auto
  have d36: "x < 36" if "x \<in> set ds" for x using that assms(2,4) by auto
  note d = asc_digit [of d upper]
  have sp: "dropWhile isspace ?t = ?t" using d d36 [of d] by (auto simp: r isspace_def)
  have sg: "ref_sign ?t = (neg, map (asc upper) ds)" using d d36 [of d] by (auto simp: ref_sign_def r)
  have "ref_base (int base) (map (asc upper) ds) = (int base, map (asc upper) ds)"
  proof (cases "base = 16")
    case True
    have "asc upper x \<noteq> 120 \<and> asc upper x \<noteq> 88" if "x \<in> set es" for x
      using asc_digit [of x upper] d36 [of x] that True assms(4) by (auto simp: r)
    then have "2 \<le> length ds \<Longrightarrow> map (asc upper) ds ! 1 \<noteq> 120 \<and> map (asc upper) ds ! 1 \<noteq> 88" by (cases es) (auto simp: r)
    then show ?thesis by (auto simp: ref_base_def True)
  qed (use assms in \<open>simp add: ref_base_def\<close>)
  then show ?thesis
    unfolding strto_ref_def sp sg Let_def prod.case
    by (simp only: prod.case takeWhile_digits [OF assms(2,4)] nat_int) simp
qed

lemma num_text_ref:
  assumes "2 \<le> base" "base \<le> 36"
  shows "strto_ref (num_text upper neg base num) (int base) = (neg, num, length (rdigits base num), if neg then 1 else 0)"
  using digits_ref [OF assms, of "rev (rdigits base num)" neg upper] rdigits_less [OF assms(1), of _ num]
  by (simp add: num_text_def numval_rdigits [OF assms(1)])

lemma num_text_cstr: "2 \<le> base \<Longrightarrow> base \<le> 36 \<Longrightarrow> cstr (num_text upper neg base num @ [0]) 0 (num_text upper neg base num)"
  using asc_nonzero [of base upper num] by (simp add: cstr_drop num_text_def)

section \<open>Runs of the interpreter\<close>

lemma kv_run_literal: "fmt ! i = ch \<Longrightarrow> i < length fmt \<Longrightarrow> ch \<noteq> 37 \<Longrightarrow> ch \<noteq> 0 \<Longrightarrow>
    kv_run fmt radix i None ap stop out stores = kv_run fmt radix (i + 1) None ap stop (out @ [ch]) stores"
  by (subst kv_run.simps) simp

lemma kv_run_end: "fmt ! i = 0 \<Longrightarrow> i < length fmt \<Longrightarrow> kv_run fmt radix i None ap stop out stores = Inr (out, stores)"
  by (subst kv_run.simps) simp

lemma kv_run_percent: "fmt ! i = 37 \<Longrightarrow> i < length fmt \<Longrightarrow>
    kv_run fmt radix i None ap False out stores = kv_run fmt radix (i + 1) (Some (i, kv_init)) ap False out stores"
  by (subst kv_run.simps) simp

lemma swrap_id: "0 < w \<Longrightarrow> - (2 ^ (w - 1)) \<le> v \<Longrightarrow> v < 2 ^ (w - 1) \<Longrightarrow> swrap w v = v"
  using power_Suc [of "2::int" "w - 1"] by (simp add: swrap_def)

text \<open>\<open>%d\<close> of an \<open>int\<close>.\<close>

lemma kv_run_d:
  assumes "fmt ! i = 100" "i < length fmt" "- (2 ^ 31) \<le> v" "v < 2 ^ 31"
  shows "kv_run fmt radix i (Some (p, kv_init)) (VInt v # ap) stop out stores =
    kv_run fmt radix (i + 1) None ap stop (out @ num_text False (v < 0) 10 (nat \<bar>v\<bar>)) stores"
proof -
  let ?st = "kv_init\<lparr>kv_sign := True\<rparr>"
  have s: "kv_signed ?st v = nat (v mod 2 ^ 64)" using swrap_id [of 32 v] assms by (simp add: kv_signed_def kv_init_def)
  have neg: "v mod 2 ^ 64 = v + 2 ^ 64" if "v < 0"
  proof -
    have "v mod 2 ^ 64 = (v + 2 ^ 64) mod 2 ^ 64" by simp
    also have "\<dots> = v + 2 ^ 64" using that assms by (intro mod_pos_pos_trivial) auto
    finally show ?thesis .
  qed
  have "kv_number ?st 10 (kv_signed ?st v) = Inr (num_text False (v < 0) 10 (nat \<bar>v\<bar>))"
  proof (cases "v < 0")
    case True
    have "(2 ^ 64 - nat (v + 2 ^ 64)) mod 2 ^ 64 = nat (- v)" using True assms by (simp add: nat_diff_distrib nat_add_distrib)
    moreover have "2 ^ 63 \<le> nat (v + 2 ^ 64)" "nat (v + 2 ^ 64) < 2 ^ 64" using True assms by auto
    ultimately show ?thesis using kv_number_plain [of ?st 10 "nat (v + 2 ^ 64)"] True
      unfolding s neg [OF True] by (simp add: kv_plain_def kv_init_def)
  next
    case False
    then have "v mod 2 ^ 64 = v" "nat v < 2 ^ 63" using assms by auto
    then show ?thesis using kv_number_plain [of ?st 10 "nat v"] False
      unfolding s by (simp add: kv_plain_def kv_init_def)
  qed
  then show ?thesis using assms(1,2)
    by (subst kv_run.simps) (simp add: kv_dir_def kv_signed_conv_def va_int_def kv_out_def)
qed

text \<open>\<open>%lr\<close> of an unsigned long, in the radix of the call.\<close>

lemma kv_run_lr:
  assumes "fmt ! i = 108" "fmt ! (i + 1) = 114" "i + 1 < length fmt" "num < 2 ^ 64" "2 \<le> radix" "radix \<le> 36"
  shows "kv_run fmt radix i (Some (p, kv_init)) (VInt (int num) # ap) stop out stores =
    kv_run fmt radix (i + 2) None ap stop (out @ num_text False False radix num) stores"
proof -
  let ?st = "kv_init\<lparr>kv_l := True\<rparr>"
  have "int num mod 2 ^ 64 = int num" using assms(4) by (simp add: mod_pos_pos_trivial)
  then have "kv_nosign ?st (int num) = num" unfolding kv_nosign_def by (simp add: kv_init_def)
  moreover have "kv_number (?st\<lparr>kv_sign := False\<rparr>) radix num = Inr (num_text False False radix num)"
    using kv_number_plain [of "?st\<lparr>kv_sign := False\<rparr>" radix num] assms by (simp add: kv_plain_def kv_init_def)
  ultimately have "kv_unsigned_conv (i + 2) ?st (VInt (int num) # ap) radix =
      Inr (Done (i + 2) ap (num_text False False radix num) False [])"
    by (simp add: kv_unsigned_conv_def va_int_def kv_out_def)
  then have "kv_dir fmt radix 114 (i + 2) p ?st (VInt (int num) # ap) (length out) =
      Inr (Done (i + 2) ap (num_text False False radix num) False [])" by (simp add: kv_dir_def kv_init_def)
  moreover have "kv_dir fmt radix 108 (i + 1) p kv_init (VInt (int num) # ap) (length out) =
      Inr (Again (i + 1) ?st (VInt (int num) # ap))" by (simp add: kv_dir_def kv_init_def)
  ultimately show ?thesis using assms(1-3)
    by (subst kv_run.simps, simp, subst kv_run.simps) simp
qed

section \<open>Buffers\<close>

lemma kv_store_spec: "d + length cs \<le> length buf \<Longrightarrow> kv_store buf d cs = Inr (put_at buf d cs)"
  by (induction cs arbitrary: d buf) (simp_all add: put_at_Cons)

lemma ksprintf_spec:
  assumes "kvcprintf fmt 10 ap = Inr (out, w)" "length out < length buf"
  shows "ksprintf buf fmt ap = Inr (put_at buf 0 (out @ [0]), length out)"
  using assms put_at_append [of 0 out "[0]" buf] by (simp add: ksprintf_def kv_store_spec put_at_single)

lemma kv_func_spec:
  "d + n \<le> length mem \<Longrightarrow> kv_func \<lparr>sn_mem = mem, sn_str = d, sn_remain = n\<rparr> cs =
     Inr \<lparr>sn_mem = put_at mem d (take (n - 1) cs), sn_str = d + min (n - 1) (length cs),
          sn_remain = n - min (n - 1) (length cs)\<rparr>"
proof (induction cs arbitrary: d n mem)
  case (Cons c cs)
  show ?case
  proof (cases "2 \<le> n")
    case True
    then obtain k where k: "n = Suc (Suc k)" by (metis Suc_le_D numeral_2_eq_2 Suc_le_mono)
    from Cons.IH [of "d + 1" "Suc k" "mem[d := c]"] Cons.prems k show ?thesis
      by (simp add: snprintf_func_def put_at_Cons)
  next
    case False
    then have "n - 1 = 0" by simp
    with Cons.IH [OF Cons.prems] False show ?thesis by (simp add: snprintf_func_def)
  qed
qed simp

lemma kvsnprintf_spec:
  assumes "kvcprintf fmt 10 ap = Inr (out, w)" "sz \<le> length str"
  shows "kvsnprintf str sz fmt ap = Inr (if sz = 0 then str else put_at str 0 (take (sz - 1) out @ [0]), length out)"
proof -
  let ?k = "min (sz - 1) (length out)"
  have f: "kv_func \<lparr>sn_mem = str, sn_str = 0, sn_remain = sz\<rparr> out =
     Inr \<lparr>sn_mem = put_at str 0 (take (sz - 1) out), sn_str = ?k, sn_remain = sz - ?k\<rparr>"
    using kv_func_spec [of 0 sz str out] assms(2) by simp
  show ?thesis
  proof (cases "sz = 0")
    case True
    then show ?thesis using assms(1) f by (simp add: kvsnprintf_def)
  next
    case False
    have "put_at str 0 (take (sz - 1) out @ [0]) = put_at (put_at str 0 (take (sz - 1) out)) ?k [0]"
      using put_at_append [of 0 "take (sz - 1) out" "[0]" str] assms(2) False by (simp add: min.commute)
    moreover have "1 \<le> sz - ?k" "?k < length (put_at str 0 (take (sz - 1) out))" using False assms(2) by auto
    ultimately show ?thesis using assms(1) f False by (simp add: kvsnprintf_def put_at_single)
  qed
qed

text \<open>\<open>%d.%d.%d.%d\<close>\<close>

definition dotted :: "byte \<Rightarrow> byte \<Rightarrow> byte \<Rightarrow> byte \<Rightarrow> byte list" where
  "dotted a b c d = num_text False False 10 a @ [46] @ num_text False False 10 b @ [46] @
     num_text False False 10 c @ [46] @ num_text False False 10 d"

lemma kvcprintf_dotted:
  assumes "a < 256" "b < 256" "c < 256" "d < 256"
  shows "kvcprintf (Some (map of_char ''%d.%d.%d.%d'' @ [0])) 10 [VInt (int a), VInt (int b), VInt (int c), VInt (int d)] =
    Inr (dotted a b c d, [])"
proof -
  have f: "map of_char ''%d.%d.%d.%d'' @ [0] = [37, 100, 46, 37, 100, 46, 37, 100, 46, 37, 100, 0::nat]" by simp
  show ?thesis unfolding kvcprintf_def f using assms
    by (simp add: kv_run_literal kv_run_end kv_run_percent kv_run_d dotted_def)
qed

lemma num_text_byte: "a < 256 \<Longrightarrow> length (num_text False False 10 a) \<le> 3"
  using length_rdigits [of 10 a 2] by (simp add: num_text_def)

lemma dotted_length: "a < 256 \<Longrightarrow> b < 256 \<Longrightarrow> c < 256 \<Longrightarrow> d < 256 \<Longrightarrow> length (dotted a b c d) \<le> 15"
  using num_text_byte [of a] num_text_byte [of b] num_text_byte [of c] num_text_byte [of d] by (simp add: dotted_def)

lemma dotted_nonzero: "0 \<notin> set (dotted a b c d)"
  using asc_nonzero [of 10 False] by (simp add: dotted_def num_text_def)

end
