(* ===== verification/Kvprintf_Props.thy ===== *)
theory Kvprintf_Props
  imports Kvprintf_Spec
begin

text \<open>
  The properties of the number parsers and of the formatted output: the parsers meet their reference,
  what is printed is read back, buffers are not overrun, and one malformed format that is read past
  its end.
\<close>

text \<open>C16. For every terminated string and every base from 0 to 36 the four parsers stay inside the
string and return the value of the reference (white space, sign, prefix, longest run of digits) clamped
to the range of their type, negated modulo \<open>2 ^ w\<close> for the unsigned ones, and the offset behind the last
digit, or 0 if there is no digit.\<close>

theorem strto_parsers_correct:
  assumes "cstr buf 0 t" "0 \<le> base" "base \<le> 36" "6 < w" "strto_ref t base = (neg, v, n, k)"
  shows "strtol w buf base = Inr (if neg then max (- (2 ^ (w - 1))) (- int v) else min (2 ^ (w - 1) - 1) (int v),
      if n = 0 then 0 else k + n) \<and>
    strtoul w buf base = Inr (if 2 ^ w \<le> v then 2 ^ w - 1 else if neg then (2 ^ w - v) mod 2 ^ w else v,
      if n = 0 then 0 else k + n) \<and>
    strtoq buf base = Inr (if neg then max (- (2 ^ 63)) (- int v) else min (2 ^ 63 - 1) (int v),
      if n = 0 then 0 else k + n) \<and>
    strtouq buf base = Inr (if 2 ^ 64 \<le> v then 2 ^ 64 - 1 else if neg then (2 ^ 64 - v) mod 2 ^ 64 else v,
      if n = 0 then 0 else k + n)"
  using strtol_spec [OF assms] strtoul_spec [OF assms] strtoq_spec [OF assms(1-3,5)] strtouq_spec [OF assms(1-3,5)] by blast

theorem strto_parsers_correct_witness:
  "strtol 32 (map of_char ''  -0x80000001z'' @ [0]) 0 = Inr (- 2147483648, 13) \<and>
   strtoul 32 (map of_char ''  -0x80000001z'' @ [0]) 0 = Inr (2147483647, 13)"
proof -
  have r: "strto_ref (map of_char ''  -0x80000001z'') 0 = (True, 2147483649, 8, 5)"
    by (simp add: strto_ref_def ref_sign_def ref_base_def Let_def vdigit_def strto_digit_def ctype_defs isascii_iff numval_def)
  have c: "cstr (map of_char ''  -0x80000001z'' @ [0]) 0 (map of_char ''  -0x80000001z'')" by (simp add: cstr_drop)
  from strto_parsers_correct [OF c _ _ _ r, of 32] show ?thesis by simp
qed

text \<open>C17. A signed integer that is printed with \<open>%d\<close> is read back by \<open>strtol\<close>, for every value of the
type, and an unsigned long that is printed in any radix from 2 to 36 is read back by \<open>strtoul\<close> in the same base; the
parsers consume all that was printed.  In particular the 65 bytes of the digit buffer are enough for every number and
radix.\<close>

theorem printf_strto_roundtrip:
  assumes "- (2 ^ 31) \<le> v" "v < 2 ^ 31" "num < 2 ^ 64" "2 \<le> radix" "radix \<le> 36"
  shows "(\<exists>out. kvcprintf (Some [37, 100, 0]) 10 [VInt v] = Inr (out, []) \<and>
      strtol 32 (out @ [0]) 10 = Inr (v, length out)) \<and>
    (\<exists>out. kvcprintf (Some [37, 108, 114, 0]) (int radix) [VInt (int num)] = Inr (out, []) \<and>
      strtoul 64 (out @ [0]) (int radix) = Inr (num, length out))"
proof -
  let ?d = "num_text False (v < 0) 10 (nat \<bar>v\<bar>)" and ?u = "num_text False False radix num"
  have d: "kvcprintf (Some [37, 100, 0]) 10 [VInt v] = Inr (?d, [])"
    using assms(1,2) by (simp add: kvcprintf_def kv_run_percent kv_run_d kv_run_end)
  have rd: "strto_ref ?d 10 = (v < 0, nat \<bar>v\<bar>, length (rdigits 10 (nat \<bar>v\<bar>)), if v < 0 then 1 else 0)"
    using num_text_ref [of 10 False "v < 0" "nat \<bar>v\<bar>"] by simp
  have "strtol 32 (?d @ [0]) 10 = Inr (v, length ?d)"
    using strtol_spec [OF num_text_cstr _ _ _ rd, of 32] assms(1,2) by (auto simp: num_text_def)
  moreover have u: "kvcprintf (Some [37, 108, 114, 0]) (int radix) [VInt (int num)] = Inr (?u, [])"
    using assms(3-5) by (simp add: kvcprintf_def kv_run_percent kv_run_lr kv_run_end)
  have ru: "strto_ref ?u (int radix) = (False, num, length (rdigits radix num), 0)"
    using num_text_ref [OF assms(4,5), of False False num] by simp
  have "strtoul 64 (?u @ [0]) (int radix) = Inr (num, length ?u)"
    using strtoul_spec [OF num_text_cstr [OF assms(4,5)] _ _ _ ru, of 64] assms(3-5) by (simp add: num_text_def)
  ultimately show ?thesis using d u by blast
qed

theorem printf_strto_roundtrip_witness:
  "(\<exists>out. kvcprintf (Some [37, 100, 0]) 10 [VInt (- 2147483648)] = Inr (out, []) \<and>
      strtol 32 (out @ [0]) 10 = Inr (- 2147483648, length out)) \<and>
   (\<exists>out. kvcprintf (Some [37, 108, 114, 0]) (int 2) [VInt (int (2 ^ 64 - 1))] = Inr (out, []) \<and>
      strtoul 64 (out @ [0]) (int 2) = Inr (2 ^ 64 - 1, length out))"
  by (rule printf_strto_roundtrip) simp_all



text \<open>C19. \<open>inet_ntoa\<close> prints the four bytes of every address in dotted decimal notation; the text and its
terminator always fit into the static buffer of 16 bytes.\<close>

theorem inet_ntoa_fits:
  assumes "length buf = 16"
  shows "\<exists>buf' n. inet_ntoa buf a b c d = Inr (buf', n) \<and> length buf' = 16 \<and>
    cstr buf' 0 (dotted (a mod 256) (b mod 256) (c mod 256) (d mod 256))"
proof -
  let ?t = "dotted (a mod 256) (b mod 256) (c mod 256) (d mod 256)"
  have l: "length ?t \<le> 15" by (intro dotted_length) simp_all
  have "kvcprintf (Some (map of_char ''%d.%d.%d.%d'' @ [0])) 10
     [VInt (int (a mod 256)), VInt (int (b mod 256)), VInt (int (c mod 256)), VInt (int (d mod 256))] = Inr (?t, [])"
    by (rule kvcprintf_dotted) simp_all
  from ksprintf_spec [OF this, of buf] assms l have "inet_ntoa buf a b c d = Inr (put_at buf 0 (?t @ [0]), length ?t)"
    unfolding inet_ntoa_def by simp
  moreover have "cstr (put_at buf 0 (?t @ [0])) 0 ?t" using assms l dotted_nonzero by (intro cstr_put_at) auto
  ultimately show ?thesis using assms l by simp
qed

theorem inet_ntoa_fits_witness:
  "\<exists>buf' n. inet_ntoa (replicate 16 255) 255 255 255 255 = Inr (buf', n) \<and> length buf' = 16 \<and>
     cstr buf' 0 (map of_char ''255.255.255.255'')"
proof -
  have "dotted (255 mod 256) (255 mod 256) (255 mod 256) (255 mod 256) = map of_char ''255.255.255.255''" by code_simp
  with inet_ntoa_fits [of "replicate 16 255" 255 255 255 255] show ?thesis by simp
qed


end
