(* ===== verification/Libkern_Misc.thy ===== *)
theory Libkern_Misc
  imports Libkern_Str
begin

text \<open>
  Small routines of \<open>sys/libkern\<close>: bit searches, the pseudo-random generator, the hexadecimal dump of
  \<open>hexncpy\<close> and the binary search.
\<close>

unbundle bit_operations_syntax

section \<open>Bit searches\<close>

text \<open>
  The loops shift until a bit is found; \<open>fuel\<close> bounds the number of rounds, and the routines start it
  with the width of the type, which is enough for every mask but 0.
\<close>

fun ffs_loop :: "nat \<Rightarrow> 32 word \<Rightarrow> nat \<Rightarrow> nat kres" where
  "ffs_loop 0 m b = Inl Diverge"
| "ffs_loop (Suc fuel) m b = (if m AND 1 = 0 then ffs_loop fuel (signed_drop_bit 1 m) (b + 1) else Inr b)"

definition ffs :: "32 word \<Rightarrow> nat kres" where
  "ffs m = (if m = 0 then Inr 0 else ffs_loop 32 m 1)"

fun ffsl_loop :: "nat \<Rightarrow> 64 word \<Rightarrow> nat \<Rightarrow> nat kres" where
  "ffsl_loop 0 m b = Inl Diverge"
| "ffsl_loop (Suc fuel) m b = (if m AND 1 = 0 then ffsl_loop fuel (drop_bit 1 m) (b + 1) else Inr b)"

definition ffsl :: "64 word \<Rightarrow> nat kres" where
  "ffsl m = (if m = 0 then Inr 0 else ffsl_loop 64 m 1)"

fun flsl_loop :: "nat \<Rightarrow> 64 word \<Rightarrow> nat \<Rightarrow> nat kres" where
  "flsl_loop 0 m b = Inl Diverge"
| "flsl_loop (Suc fuel) m b = (if m \<noteq> 1 then flsl_loop fuel (drop_bit 1 m) (b + 1) else Inr b)"

definition flsl :: "64 word \<Rightarrow> nat kres" where
  "flsl m = (if m = 0 then Inr 0 else flsl_loop 64 m 1)"

lemma and_1_0: "(m :: 'a::len word) AND 1 = 0 \<longleftrightarrow> \<not> bit m 0"
  by (simp add: bit_0 even_iff_mod_2_eq_zero and_one_eq)

lemma ffs_loop_spec: "bit m k \<Longrightarrow> \<forall>j < k. \<not> bit m j \<Longrightarrow> k < fuel \<Longrightarrow> k < 32 \<Longrightarrow> ffs_loop fuel m b = Inr (b + k)"
proof (induction fuel arbitrary: m b k)
  case (Suc fuel)
  show ?case
  proof (cases k)
    case 0
    with Suc.prems show ?thesis by (simp add: and_1_0)
  next
    case (Suc k')
    have b: "bit (signed_drop_bit 1 m) i = bit m (i + 1)" if "i < 31" for i
      using that by (auto simp: bit_simps min_def)
    have "\<not> bit m 0" using Suc Suc.prems by simp
    moreover have "ffs_loop fuel (signed_drop_bit 1 m) (b + 1) = Inr (b + 1 + k')"
      using Suc Suc.prems b by (intro Suc.IH) auto
    ultimately show ?thesis using Suc by (simp add: and_1_0)
  qed
qed simp

lemma ffsl_loop_spec: "bit m k \<Longrightarrow> \<forall>j < k. \<not> bit m j \<Longrightarrow> k < fuel \<Longrightarrow> ffsl_loop fuel m b = Inr (b + k)"
proof (induction fuel arbitrary: m b k)
  case (Suc fuel)
  show ?case
  proof (cases k)
    case 0
    with Suc.prems show ?thesis by (simp add: and_1_0)
  next
    case (Suc k')
    have "\<not> bit m 0" using Suc Suc.prems by simp
    moreover have "ffsl_loop fuel (drop_bit 1 m) (b + 1) = Inr (b + 1 + k')"
      using Suc Suc.prems by (intro Suc.IH) (auto simp: bit_simps)
    ultimately show ?thesis using Suc by (simp add: and_1_0)
  qed
qed simp

lemma flsl_loop_spec: "bit m k \<Longrightarrow> \<forall>j > k. \<not> bit m j \<Longrightarrow> k < fuel \<Longrightarrow> flsl_loop fuel m b = Inr (b + k)"
proof (induction fuel arbitrary: m b k)
  case (Suc fuel)
  show ?case
  proof (cases k)
    case 0
    then have "m = 1" using Suc.prems by (intro bit_eqI) (auto simp: bit_1_iff dest: gr0I)
    with 0 show ?thesis by simp
  next
    case (Suc k')
    then have "m \<noteq> 1" using Suc.prems by (auto simp: bit_1_iff)
    moreover have "flsl_loop fuel (drop_bit 1 m) (b + 1) = Inr (b + 1 + k')"
      using Suc Suc.prems by (intro Suc.IH) (auto simp: bit_simps)
    ultimately show ?thesis using Suc by simp
  qed
qed simp

section \<open>The random number generator\<close>

text \<open>\<open>long\<close> arithmetic on a seed that fits it; C division truncates.\<close>

definition skrandom :: "int \<Rightarrow> int" where
  "skrandom seed = seed"

definition krandom :: "int \<Rightarrow> int \<times> int" where
  "krandom randseed =
     (let x = randseed;
          hi = cdiv x 127773;
          lo = x - hi * 127773;
          t = 16807 * lo - 2836 * hi;
          t = (if t \<le> 0 then t + 0x7fffffff else t)
      in (t, t))"

lemma krandom_eq:
  assumes "0 < x" "x < 2 ^ 31 - 1"
  shows "krandom x = (16807 * x mod (2 ^ 31 - 1), 16807 * x mod (2 ^ 31 - 1))"
    "0 < 16807 * x mod (2 ^ 31 - 1)" "16807 * x mod (2 ^ 31 - 1) < 2 ^ 31 - 1"
proof -
  let ?M = "2147483647 :: int" and ?hi = "x div 127773" and ?lo = "x mod 127773"
  have x: "x = ?hi * 127773 + ?lo" by simp
  have c: "cdiv x 127773 = ?hi" using assms by simp
  have lo: "x - ?hi * 127773 = ?lo" by (simp add: minus_div_mult_eq_mod)
  have b: "0 \<le> ?lo" "?lo < 127773" "0 \<le> ?hi" "?hi \<le> 16807" using assms by auto
  define t where "t = 16807 * ?lo - 2836 * ?hi"
  have t: "16807 * x = ?hi * ?M + t" unfolding t_def using x by linarith
  have tb: "- ?M < t" "t < ?M" unfolding t_def using b by linarith+
  have "coprime (16807 :: int) ?M" by (simp add: coprime_iff_gcd_eq_1 gcd_non_0_int)
  then have nd: "\<not> ?M dvd 16807 * x"
    using assms by (auto simp: coprime_dvd_mult_right_iff coprime_commute dest: zdvd_imp_le)
  then have t0: "t \<noteq> 0" unfolding t by auto
  have m: "16807 * x mod ?M = (if t \<le> 0 then t + ?M else t)"
  proof -
    have "16807 * x mod ?M = t mod ?M" unfolding t by simp
    also have "\<dots> = (if t \<le> 0 then t + ?M else t)"
    proof (cases "t \<le> 0")
      case True
      have "t mod ?M = (t + ?M) mod ?M" by simp
      then show ?thesis using True tb t0 by (simp only: if_True) (rule mod_pos_pos_trivial, linarith+)
    qed (use tb in simp)
    finally show ?thesis .
  qed
  have "krandom x = (if t \<le> 0 then t + ?M else t, if t \<le> 0 then t + ?M else t)"
    unfolding krandom_def Let_def c lo t_def by simp
  then show "krandom x = (16807 * x mod (2 ^ 31 - 1), 16807 * x mod (2 ^ 31 - 1))" using m by simp
  show "0 < 16807 * x mod (2 ^ 31 - 1)" "16807 * x mod (2 ^ 31 - 1) < 2 ^ 31 - 1" using m tb t0 by auto
qed

section \<open>Hexadecimal dumps\<close>

definition hexdigit :: "byte list" where
  "hexdigit = map of_char ''0123456789abcdef'' @ [0]"

definition MIN_OUTBLEN :: int where
  "MIN_OUTBLEN = 3"

text \<open>
  The loop: \<open>ip\<close> and \<open>op\<close> are \<open>inb\<close> and \<open>outb\<close> as offsets, \<open>sep\<close> the first character of the separator
  or \<open>None\<close> for a null pointer.
\<close>

fun hexncpy_loop :: "byte list \<Rightarrow> nat \<Rightarrow> nat \<Rightarrow> byte list \<Rightarrow> nat \<Rightarrow> int \<Rightarrow> byte option \<Rightarrow> (byte list \<times> nat) kres" where
  "hexncpy_loop inb ip 0 outb op outlen sep = Inr (outb, op)"
| "hexncpy_loop inb ip (Suc inlen) outb op outlen sep =
     (if MIN_OUTBLEN \<le> outlen then
        rbind (rd inb ip) (\<lambda>b.
        rbind (rd hexdigit (drop_bit 4 b)) (\<lambda>h.
        rbind (wr outb op h) (\<lambda>outb.
        rbind (rd hexdigit (b AND 15)) (\<lambda>l.
        rbind (wr outb (op + 1) l) (\<lambda>outb.
        rbind (case sep of None \<Rightarrow> Inr (outb, op + 2) | Some c \<Rightarrow> rbind (wr outb (op + 2) c) (\<lambda>outb. Inr (outb, op + 3)))
          (\<lambda>(outb, op). hexncpy_loop inb (ip + 1) inlen outb op (outlen - 3) sep))))))
      else Inr (outb, op))"

definition hexncpy :: "byte list \<Rightarrow> int \<Rightarrow> byte list \<Rightarrow> int \<Rightarrow> byte option \<Rightarrow> byte list kres" where
  "hexncpy inb inlen outb outlen sep =
     (if outlen < MIN_OUTBLEN then Inl (Panic ''outb != NULL && inb != NULL && outlen >= MIN_OUTBLEN'')
      else rbind (hexncpy_loop inb 0 (nat inlen) outb 0 outlen sep) (\<lambda>(outb, op).
           if op = 0 then Inl Bad_Access else wr outb (op - 1) 0))"

definition hexbyte :: "byte \<Rightarrow> byte list" where
  "hexbyte b = [hexdigit ! (b div 16), hexdigit ! (b mod 16)]"

text \<open>Each byte as two digits and the separator.\<close>

definition hexdump :: "byte \<Rightarrow> byte list \<Rightarrow> byte list" where
  "hexdump c bs = concat (map (\<lambda>b. hexbyte b @ [c]) bs)"

lemma length_hexdump [simp]: "length (hexdump c bs) = 3 * length bs"
  by (induction bs) (simp_all add: hexdump_def hexbyte_def)

lemma hexncpy_loop_spec:
  assumes bs: "\<forall>b \<in> set inb. b < 256"
  shows "ip + n \<le> length inb \<Longrightarrow> int op + outlen \<le> int (length outb) \<Longrightarrow> k = min n (nat (outlen div 3)) \<Longrightarrow>
    hexncpy_loop inb ip n outb op outlen (Some c) =
      Inr (put_at outb op (hexdump c (take k (drop ip inb))), op + 3 * k)"
proof (induction n arbitrary: ip op outb outlen k)
  case 0
  then show ?case by (simp add: hexdump_def)
next
  case (Suc n)
  show ?case
  proof (cases "3 \<le> outlen")
    case False
    then have "k = 0" using Suc.prems(3) by auto
    then show ?thesis using False by (simp add: MIN_OUTBLEN_def hexdump_def)
  next
    case True
    let ?b = "inb ! ip"
    have b: "?b < 256" using bs Suc.prems(1) by simp
    have hd: "length hexdigit = 17" by (simp add: hexdigit_def)
    have d: "drop_bit 4 ?b = ?b div 16" "?b AND 15 = ?b mod 16" "?b div 16 < 17" "?b mod 16 < 17"
      using b take_bit_eq_mask [of 4 ?b] by (simp_all add: drop_bit_eq_div mask_eq_exp_minus_1 take_bit_eq_mod)
    have op: "op + 2 < length outb" using Suc.prems(2) True by linarith
    have k: "k = Suc (min n (nat ((outlen - 3) div 3)))"
    proof -
      have "nat (outlen div 3) = Suc (nat ((outlen - 3) div 3))" using True by (simp add: nat_eq_iff2)
      then show ?thesis using Suc.prems(3) by simp
    qed
    let ?out = "outb[op := hexdigit ! (?b div 16), op + 1 := hexdigit ! (?b mod 16), op + 2 := c]"
    have "hexncpy_loop inb ip (Suc n) outb op outlen (Some c) = hexncpy_loop inb (ip + 1) n ?out (op + 3) (outlen - 3) (Some c)"
      using True Suc.prems(1) op d hd by (simp add: MIN_OUTBLEN_def)
    also have "\<dots> = Inr (put_at ?out (op + 3) (hexdump c (take (min n (nat ((outlen - 3) div 3))) (drop (ip + 1) inb))),
        op + 3 + 3 * min n (nat ((outlen - 3) div 3)))"
      using Suc.prems(1,2) by (intro Suc.IH) auto
    also have "put_at ?out (op + 3) ys = put_at outb op (hexbyte ?b @ c # ys)" for ys
      using op by (simp add: hexbyte_def put_at_Cons numeral_3_eq_3)
    finally show ?thesis unfolding k using Suc.prems(1)
      by (simp add: hexdump_def flip: Cons_nth_drop_Suc)
  qed
qed

lemma hexncpy_spec:
  assumes "\<forall>b \<in> set inb. b < 256" "1 \<le> inlen" "inlen \<le> int (length inb)" "3 \<le> outlen" "outlen \<le> int (length outb)"
    and k: "k = min (nat inlen) (nat (outlen div 3))"
  shows "hexncpy inb inlen outb outlen (Some c) = Inr (put_at outb 0 (butlast (hexdump c (take k inb)) @ [0]))"
proof -
  let ?d = "hexdump c (take k inb)"
  have k1: "1 \<le> k" "k \<le> length inb" using assms by auto
  then have l: "length ?d = 3 * k" by simp
  have "hexncpy_loop inb 0 (nat inlen) outb 0 outlen (Some c) = Inr (put_at outb 0 ?d, 3 * k)"
    using hexncpy_loop_spec [OF assms(1), of 0 "nat inlen" 0 outlen outb k c] assms by simp
  moreover have le: "3 * k \<le> length outb" using assms(4,5) unfolding k by linarith
  then have "(put_at outb 0 ?d)[3 * k - 1 := 0] = put_at outb 0 (butlast ?d @ [0])"
  proof -
    obtain xs y where d: "?d = xs @ [y]" using l k1 by (cases ?d rule: rev_cases) auto
    with l have "3 * k - 1 = length xs" by (metis diff_Suc_1 length_append_singleton)
    with d show ?thesis by (simp add: put_at_def)
  qed
  ultimately show ?thesis using assms(4) k1 le l by (simp add: hexncpy_def MIN_OUTBLEN_def)
qed

section \<open>Binary search\<close>

text \<open>
  \<open>kbsearch\<close> on an array whose elements are compared with the key by \<open>compar\<close>; addresses are indices.
\<close>

function kbsearch_loop :: "('e \<Rightarrow> int) \<Rightarrow> 'e list \<Rightarrow> nat \<Rightarrow> nat \<Rightarrow> nat option kres" where
  "kbsearch_loop compar xs base lim =
     (if lim = 0 then Inr None
      else let p = base + lim div 2 in
        rbind (rd xs p) (\<lambda>x.
          let c = compar x in
          if c = 0 then Inr (Some p)
          else if 0 < c then kbsearch_loop compar xs (p + 1) ((lim - 1) div 2)
          else kbsearch_loop compar xs base (lim div 2)))"
  by pat_completeness auto
termination
  by (relation "measure (\<lambda>(compar, xs, base, lim). lim)") auto

declare kbsearch_loop.simps [simp del]

definition kbsearch :: "('k \<Rightarrow> 'e \<Rightarrow> int) \<Rightarrow> 'k \<Rightarrow> 'e list \<Rightarrow> nat \<Rightarrow> nat option kres" where
  "kbsearch compar key base0 nmemb = kbsearch_loop (compar key) base0 0 nmemb"

text \<open>The array is ordered for the key: first the smaller, then the equal, then the greater elements.\<close>

definition ordered_for :: "('e \<Rightarrow> int) \<Rightarrow> 'e list \<Rightarrow> bool" where
  "ordered_for f xs \<longleftrightarrow> (\<forall>i j. i < j \<and> j < length xs \<longrightarrow> sgn (f (xs ! j)) \<le> sgn (f (xs ! i)))"

lemma kbsearch_loop_spec:
  assumes "ordered_for f xs"
  shows "base + lim \<le> length xs \<Longrightarrow> \<forall>i < length xs. f (xs ! i) = 0 \<longrightarrow> base \<le> i \<and> i < base + lim \<Longrightarrow>
    \<exists>r. kbsearch_loop f xs base lim = Inr r \<and>
      (case r of None \<Rightarrow> \<forall>x \<in> set xs. f x \<noteq> 0 | Some p \<Rightarrow> p < length xs \<and> f (xs ! p) = 0)"
proof (induction lim arbitrary: base rule: less_induct)
  case (less lim)
  show ?case
  proof (cases "lim = 0")
    case True
    then have "\<forall>x \<in> set xs. f x \<noteq> 0" using less.prems(2) by (metis add_0_right in_set_conv_nth leD)
    then show ?thesis using True by (subst kbsearch_loop.simps) simp
  next
    case False
    let ?p = "base + lim div 2"
    have p: "?p < length xs" using False less.prems(1) by linarith
    consider "f (xs ! ?p) = 0" | "0 < f (xs ! ?p)" | "f (xs ! ?p) < 0" by linarith
    then show ?thesis
    proof cases
      case 1
      then show ?thesis using False p by (subst kbsearch_loop.simps) (simp add: Let_def)
    next
      case 2
      have "?p < i" if "i < length xs" "f (xs ! i) = 0" for i
      proof (rule ccontr)
        assume "\<not> ?p < i"
        then have "i < ?p" using that 2 by (cases "i = ?p") auto
        then have "sgn (f (xs ! ?p)) \<le> sgn (f (xs ! i))" using assms p by (simp add: ordered_for_def)
        then show False using 2 that by simp
      qed
      moreover have "i < ?p + 1 + (lim - 1) div 2" if "i < length xs" "f (xs ! i) = 0" for i
      proof -
        have "i < base + lim" using less.prems(2) that by blast
        moreover have "lim div 2 + 1 + (lim - 1) div 2 = lim" using False by linarith
        ultimately show ?thesis by linarith
      qed
      ultimately have "\<exists>r. kbsearch_loop f xs (?p + 1) ((lim - 1) div 2) = Inr r \<and>
        (case r of None \<Rightarrow> \<forall>x \<in> set xs. f x \<noteq> 0 | Some p \<Rightarrow> p < length xs \<and> f (xs ! p) = 0)"
        using False less.prems(1) p by (intro less.IH) (linarith, linarith, simp add: Suc_le_eq)
      then show ?thesis using 2 False p by (subst kbsearch_loop.simps) (simp add: Let_def)
    next
      case 3
      have "i < ?p" if "i < length xs" "f (xs ! i) = 0" for i
      proof (rule ccontr)
        assume "\<not> i < ?p"
        then have "?p < i" using that 3 by (cases "i = ?p") auto
        then have "sgn (f (xs ! i)) \<le> sgn (f (xs ! ?p))" using assms that(1) by (simp add: ordered_for_def)
        then show False using 3 that by simp
      qed
      then have "\<exists>r. kbsearch_loop f xs base (lim div 2) = Inr r \<and>
        (case r of None \<Rightarrow> \<forall>x \<in> set xs. f x \<noteq> 0 | Some p \<Rightarrow> p < length xs \<and> f (xs ! p) = 0)"
        using False less.prems by (intro less.IH) (linarith, linarith, blast)
      then show ?thesis using 3 False p by (subst kbsearch_loop.simps) (simp add: Let_def)
    qed
  qed
qed

end
