(* ===== verification/Crc32_Spec.thy ===== *)
theory Crc32_Spec
  imports Crc32
begin

text \<open>
  The table-driven checksums compute the bit-wise division, can be continued over several buffers, and
  notice every change inside one byte.
\<close>

unbundle bit_operations_syntax

section \<open>The tables implement the division\<close>

lemma crc_zeros: "\<forall>i < n. \<not> bit x i \<Longrightarrow> (crc_bit poly ^^ n) x = drop_bit n x"
proof (induction n)
  case (Suc n)
  then have "(crc_bit poly ^^ n) x = drop_bit n x" by simp
  moreover have "crc_bit poly (drop_bit n x) = drop_bit (Suc n) x"
    using Suc.prems by (simp add: crc_bit_def bit_drop_bit_eq)
  ultimately show ?case by simp
qed simp

lemma low_byte: "unat ((x :: u32) AND 0xFF) < 256"
proof -
  have "x AND 0xFF = take_bit 8 x" by (simp add: take_bit_eq_mask mask_eq_exp_minus_1)
  then show ?thesis using take_bit_nat_less_exp [of 8 "unat x"] by (simp add: unsigned_take_bit_eq)
qed

lemma ff_mask: "(0xFF :: u32) = mask 8"
  by (simp add: mask_eq_exp_minus_1)

lemma crc_step: "(crc_bit poly ^^ 8) c = crc_table poly ! unat (c AND 0xFF) XOR drop_bit 8 c"
proof -
  note u = low_byte [of c]
  let ?hi = "c AND NOT 0xFF"
  have "c = (c AND 0xFF) XOR ?hi" by (rule bit_eqI) (auto simp: bit_simps)
  then have "(crc_bit poly ^^ 8) c = (crc_bit poly ^^ 8) (c AND 0xFF) XOR (crc_bit poly ^^ 8) ?hi"
    by (metis crc_bits_xor)
  also have "(crc_bit poly ^^ 8) ?hi = drop_bit 8 ?hi"
  proof (rule crc_zeros, intro allI impI)
    fix i :: nat
    assume "i < 8"
    then show "\<not> bit ?hi i" unfolding ff_mask by (simp add: bit_simps)
  qed
  also have "drop_bit 8 ?hi = drop_bit 8 c"
    unfolding ff_mask by (rule bit_eqI) (auto simp: bit_simps dest: bit_imp_le_length)
  also have "(crc_bit poly ^^ 8) (c AND 0xFF) = crc_table poly ! unat (c AND 0xFF)"
    using u by (simp add: crc_table_def)
  finally show ?thesis .
qed

lemma crc_loop_spec:
  assumes "\<forall>b \<in> set buf. b < 256"
  shows "p + sz \<le> length buf \<Longrightarrow> crc_loop (crc_table poly) crc buf p sz = Inr (crc_ref poly crc (take sz (drop p buf)))"
proof (induction sz arbitrary: p crc)
  case 0
  then show ?case by (simp add: crc_ref_def)
next
  case (Suc sz)
  let ?b = "buf ! p" and ?i = "unat ((crc XOR of_nat (buf ! p)) AND 0xFF)"
  have b: "?b < 256" using assms Suc.prems by simp
  have i: "?i < length (crc_table poly)"
    using low_byte by (simp add: crc_table_def)
  have "of_nat ?b = take_bit 8 (of_nat ?b :: u32)" using b by (simp add: take_bit_of_nat take_bit_nat_eq_self)
  then have "drop_bit 8 (of_nat ?b :: u32) = 0" by (metis drop_bit_take_bit diff_self_eq_0 take_bit_0)
  then have "drop_bit 8 (crc XOR of_nat ?b) = drop_bit 8 crc" by (simp add: drop_bit_xor)
  then have "crc_table poly ! ?i XOR drop_bit 8 crc = crc_byte poly crc ?b"
    using crc_step [of poly "crc XOR of_nat ?b"] by (simp add: crc_byte_def)
  then have "crc_loop (crc_table poly) crc buf p (Suc sz) = crc_loop (crc_table poly) (crc_byte poly crc ?b) buf (p + 1) sz"
    using i Suc.prems by simp
  also have "\<dots> = Inr (crc_ref poly (crc_byte poly crc ?b) (take sz (drop (p + 1) buf)))"
    using Suc.prems by (intro Suc.IH) simp
  finally show ?case using Suc.prems by (simp add: crc_ref_def flip: Cons_nth_drop_Suc)
qed

lemma crc32_spec:
  assumes "\<forall>b \<in> set buf. b < 256" "sz \<le> length buf"
  shows "crc32 buf sz = Inr (NOT (crc_ref crc32_poly (- 1) (take sz buf)))"
    "crc32_ext buf sz ocrc = Inr (NOT (crc_ref crc32_poly (NOT ocrc) (take sz buf)))"
    "iscsi_crc32 buf sz = Inr (NOT (crc_ref crc32c_poly (- 1) (take sz buf)))"
    "iscsi_crc32_ext buf sz ocrc = Inr (NOT (crc_ref crc32c_poly (NOT ocrc) (take sz buf)))"
proof -
  have f: "(0xffffffff :: u32) = - 1" by simp
  have x: "a XOR - 1 = NOT a" for a :: u32 by (simp add: bit_eq_iff bit_simps)
  show "crc32 buf sz = Inr (NOT (crc_ref crc32_poly (- 1) (take sz buf)))"
    "crc32_ext buf sz ocrc = Inr (NOT (crc_ref crc32_poly (NOT ocrc) (take sz buf)))"
    "iscsi_crc32 buf sz = Inr (NOT (crc_ref crc32c_poly (- 1) (take sz buf)))"
    "iscsi_crc32_ext buf sz ocrc = Inr (NOT (crc_ref crc32c_poly (NOT ocrc) (take sz buf)))"
    using crc_loop_spec [OF assms(1), of 0 sz] assms(2)
    by (simp_all only: crc32_def crc32_ext_def iscsi_crc32_def iscsi_crc32_ext_def crc32_tab_eq iscsi_tab_eq Let_def f)
      (simp_all add: x)
qed

text \<open>The division step is injective, because the polynomial has its highest bit set.\<close>

lemma xor_cancel: "(a :: u32) XOR c = b XOR c \<longleftrightarrow> a = b"
  by (metis xor.assoc xor_self_eq xor.right_neutral)

lemma crc_bit_inj: "bit poly 31 \<Longrightarrow> crc_bit poly a = crc_bit poly b \<Longrightarrow> a = b"
proof -
  assume p: "bit poly 31" and e: "crc_bit poly a = crc_bit poly b"
  have top: "bit (crc_bit poly x) 31 = bit x 0" for x using p bit_imp_le_length [of x 32] by (auto simp: crc_bit_def bit_simps)
  then have 0: "bit a 0 = bit b 0" using e by metis
  then have "drop_bit 1 a = drop_bit 1 b" using e by (auto simp: crc_bit_def xor_cancel split: if_splits)
  then have "bit a (Suc n) = bit b (Suc n)" for n by (metis bit_drop_bit_eq comp_apply plus_1_eq_Suc)
  with 0 show "a = b" by (intro bit_eqI) (metis not0_implies_Suc)
qed

lemma crc_ref_inj: "bit poly 31 \<Longrightarrow> crc_ref poly a bs = crc_ref poly b bs \<Longrightarrow> a = b"
proof (induction bs arbitrary: a b)
  case Nil
  then show ?case by (simp add: crc_ref_def)
next
  case (Cons x bs)
  have "crc_byte poly a x = crc_byte poly b x" using Cons by (simp add: crc_ref_def)
  moreover have "inj ((crc_bit poly) ^^ n)" for n
    using crc_bit_inj [OF Cons.prems(1)] by (intro inj_fn) (auto simp: inj_def)
  ultimately have "a XOR of_nat x = b XOR of_nat x" by (auto simp: crc_byte_def dest: injD)
  then show "a = b" by (simp add: xor_cancel)
qed

lemma crc_byte_inj: "bit poly 31 \<Longrightarrow> crc_byte poly c x = crc_byte poly c y \<Longrightarrow> x < 256 \<Longrightarrow> y < 256 \<Longrightarrow> x = y"
proof -
  assume p: "bit poly 31" and e: "crc_byte poly c x = crc_byte poly c y" and b: "x < 256" "y < 256"
  have "inj ((crc_bit poly) ^^ n)" for n
    using crc_bit_inj [OF p] by (intro inj_fn) (auto simp: inj_def)
  then have "c XOR of_nat x = c XOR of_nat y" using e by (auto simp: crc_byte_def dest: injD)
  then have "(of_nat x :: u32) = of_nat y" by (simp add: xor.commute [of c] xor_cancel)
  then have "unat (of_nat x :: u32) = unat (of_nat y :: u32)" by simp
  with b show "x = y" by (simp add: unat_of_nat)
qed

text \<open>A change of one byte changes the remainder.\<close>

lemma crc_ref_byte:
  assumes p: "bit poly 31" and b: "x < 256" "y < 256" "x \<noteq> y"
  shows "crc_ref poly c (as @ x # bs) \<noteq> crc_ref poly c (as @ y # bs)"
proof
  assume "crc_ref poly c (as @ x # bs) = crc_ref poly c (as @ y # bs)"
  then have "crc_ref poly (crc_byte poly (crc_ref poly c as) x) bs = crc_ref poly (crc_byte poly (crc_ref poly c as) y) bs"
    by (simp add: crc_ref_def)
  then have "crc_byte poly (crc_ref poly c as) x = crc_byte poly (crc_ref poly c as) y" by (rule crc_ref_inj [OF p])
  then have "x = y" by (rule crc_byte_inj [OF p _ b(1,2)])
  with b(3) show False ..
qed

lemma crc32_poly_top: "bit crc32_poly 31" "bit crc32c_poly 31"
  by simp_all

text \<open>A change of one byte of a buffer changes its checksum.\<close>

lemma crc32_update:
  assumes bs: "\<forall>b \<in> set buf. b < 256" and i: "i < sz" "sz \<le> length buf" and b: "b < 256" "b \<noteq> buf ! i"
  shows "crc32 (buf[i := b]) sz \<noteq> crc32 buf sz"
proof -
  have bs': "\<forall>x \<in> set (buf[i := b]). x < 256" using bs b(1) set_update_subset_insert [of buf i b] by auto
  have len: "i < length buf" using i by simp
  have "crc_ref crc32_poly c (take i buf @ b # drop (Suc i) (take sz buf)) \<noteq>
      crc_ref crc32_poly c (take i buf @ buf ! i # drop (Suc i) (take sz buf))" for c
    using bs len b by (intro crc_ref_byte [OF crc32_poly_top(1)]) auto
  moreover have "take i buf @ buf ! i # drop (Suc i) (take sz buf) = take sz buf"
    using i id_take_nth_drop [of i "take sz buf"] by (simp add: min_def)
  moreover have "take i buf @ b # drop (Suc i) (take sz buf) = take sz (buf[i := b])"
    using i upd_conv_take_nth_drop [of i "take sz buf" b] by (simp add: min_def take_update_swap)
  ultimately have "crc_ref crc32_poly c (take sz (buf[i := b])) \<noteq> crc_ref crc32_poly c (take sz buf)" for c by metis
  then show ?thesis
    using crc32_spec(1) [OF bs i(2)] crc32_spec(1) [OF bs', of sz] i(2)
    by simp
qed

end
