(* ===== verification/Libkern_Props.thy ===== *)
theory Libkern_Props
  imports Libkern_Str Libkern_Misc Crc32_Spec
begin

text \<open>
  The properties of the string routines, of the searches, of the checksums and of the small numeric
  routines of \<open>sys/libkern\<close>.
\<close>

unbundle bit_operations_syntax

section \<open>Strings\<close>

text \<open>How a comparison of the strings \<open>xs\<close> and \<open>ys\<close> must come out.\<close>

definition lex_sign :: "byte list \<Rightarrow> byte list \<Rightarrow> int kres \<Rightarrow> bool" where
  "lex_sign xs ys r \<longleftrightarrow> (\<exists>v. r = Inr v \<and> (v = 0 \<longleftrightarrow> xs = ys) \<and> (v < 0 \<longleftrightarrow> (xs, ys) \<in> lexord {(a, b). a < b}))"

lemma lex_sign_dcmp: "0 \<notin> set xs \<Longrightarrow> 0 \<notin> set ys \<Longrightarrow> lex_sign xs ys (Inr (dcmp xs ys))"
  by (simp add: lex_sign_def dcmp_0 dcmp_neg)

text \<open>C21. The four comparisons order terminated strings lexicographically by unsigned bytes, on all
bytes or on the first \<open>n\<close>, as they are or folded to lower case: the result is zero exactly for equal
strings and negative exactly if the first string is smaller; no byte behind a terminator is read.\<close>

theorem string_comparisons_order:
  assumes "cstr b1 i t1" "cstr b2 j t2"
  shows "lex_sign t1 t2 (strcmp b1 i b2 j) \<and>
    lex_sign (take n t1) (take n t2) (strncmp b1 i b2 j n) \<and>
    lex_sign (map tolower t1) (map tolower t2) (strcasecmp b1 i b2 j) \<and>
    lex_sign (map tolower (take n t1)) (map tolower (take n t2)) (strncasecmp b1 i b2 j n)"
proof -
  have z: "0 \<notin> set t1" "0 \<notin> set t2" using assms by (auto simp: cstr_def)
  then have "0 \<notin> set (take n t1)" "0 \<notin> set (take n t2)" by (auto dest: in_set_takeD)
  moreover have "0 \<notin> set (map tolower t)" if "0 \<notin> set t" for t using that by auto
  ultimately show ?thesis
    using strcmp_spec [OF assms] strncmp_spec [OF assms, of n] strcasecmp_spec [OF assms] strncasecmp_spec [OF assms, of n] z
    by (simp add: lex_sign_dcmp del: set_map)
qed

theorem string_comparisons_order_witness:
  "\<exists>r. strcmp [97, 98, 0] 0 [97, 200, 0, 7] 0 = Inr r \<and> r < 0"
proof -
  have "cstr [97, 98, 0] 0 [97, 98]" "cstr [97, 200, 0, 7] 0 [97, 200]" by (simp_all add: cstr_drop)
  from string_comparisons_order [OF this, of 0] show ?thesis by (auto simp: lex_sign_def)
qed



text \<open>C23. \<open>strsep\<close> cuts the string at the first delimiter: the token is the longest prefix without
delimiters, terminated in place, and the pointer moves behind it to the rest of the string; without a
delimiter the whole string is the token and the pointer becomes null.\<close>

theorem strsep_cuts:
  assumes "cstr buf s t" "cstr delim k ds"
  shows "\<exists>stringp' buf'. strsep buf (Some s) delim k = Inr (Some s, stringp', buf') \<and>
    (let tok = takeWhile (\<lambda>c. c \<notin> set ds) t in
     cstr buf' s tok \<and> same_outside {s..<s + length t} buf buf' \<and>
     (if tok = t then stringp' = None
      else stringp' = Some (s + length tok + 1) \<and> cstr buf' (s + length tok + 1) (drop (length tok + 1) t)))"
proof -
  define tok where "tok = takeWhile (\<lambda>c. c \<notin> set ds) t"
  have r: "strsep_loop buf s delim k = Inr (if tok = t then (buf, None) else (buf[s + length tok := 0], Some (s + length tok + 1)))"
    using strsep_loop_spec [OF assms(2,1)] by (simp add: tok_def Let_def)
  show ?thesis
  proof (cases "tok = t")
    case True
    then show ?thesis using r assms(1) unfolding tok_def [symmetric] by (auto simp: strsep_def Let_def)
  next
    case False
    obtain q where t: "t = tok @ q" using takeWhile_dropWhile_id [of "\<lambda>c. c \<notin> set ds" t] unfolding tok_def by metis
    with False obtain c q' where q: "q = c # q'" by (cases q) auto
    obtain r' where dr: "drop s buf = t @ 0 # r'" "0 \<notin> set t" using assms(1) by (auto simp: cstr_drop)
    have "drop s (buf[s + length tok := 0]) = (drop s buf)[length tok := 0]" by (simp add: drop_update_swap)
    also have "\<dots> = tok @ 0 # q' @ 0 # r'" unfolding dr(1) t q by simp
    finally have d: "drop s (buf[s + length tok := 0]) = tok @ 0 # q' @ 0 # r'" .
    then have "cstr (buf[s + length tok := 0]) s tok" using dr(2) t by (auto simp: cstr_drop)
    moreover have "drop (s + length tok + 1) (buf[s + length tok := 0]) = q' @ 0 # r'"
      using arg_cong [OF d, of "drop (length tok + 1)"] by (simp add: ac_simps)
    then have "cstr (buf[s + length tok := 0]) (s + length tok + 1) (drop (length tok + 1) t)"
      using dr(2) t q by (auto simp: cstr_drop)
    moreover have "same_outside {s..<s + length t} buf (buf[s + length tok := 0])"
      using t q by (intro same_outside_update) auto
    ultimately show ?thesis using r False unfolding tok_def [symmetric] by (auto simp: strsep_def Let_def)
  qed
qed

theorem strsep_cuts_witness:
  "\<exists>buf'. strsep [97, 98, 44, 99, 0] (Some 0) [58, 44, 0] 0 = Inr (Some 0, Some 3, buf') \<and>
     cstr buf' 0 [97, 98] \<and> cstr buf' 3 [99]"
proof -
  have "cstr [97, 98, 44, 99, 0] 0 [97, 98, 44, 99]" "cstr [58, 44, 0] 0 [58, 44]" by (simp_all add: cstr_drop)
  from strsep_cuts [OF this] show ?thesis by (auto simp: Let_def numeral_3_eq_3)
qed

section \<open>Searching\<close>

text \<open>C24. On an array that is ordered for the key the binary search ends, never leaves the array, finds an
element that compares equal if there is one, and returns null only if there is none.\<close>

theorem kbsearch_finds:
  assumes "ordered_for (compar key) xs"
  shows "\<exists>r. kbsearch compar key xs (length xs) = Inr r \<and>
    (case r of None \<Rightarrow> \<forall>x \<in> set xs. compar key x \<noteq> 0 | Some p \<Rightarrow> p < length xs \<and> compar key (xs ! p) = 0)"
  unfolding kbsearch_def by (rule kbsearch_loop_spec [OF assms]) auto

theorem kbsearch_finds_witness:
  "\<exists>r. kbsearch (\<lambda>k x. k - x) 7 [1, 3, 7, 9 :: int] 4 = Inr r \<and> r \<noteq> None"
proof -
  have "ordered_for (\<lambda>x. 7 - x) [1, 3, 7, 9 :: int]" by (auto simp: ordered_for_def less_Suc_eq numeral_eq_Suc)
  from kbsearch_finds [of "\<lambda>k x. k - x", OF this] show ?thesis by (auto simp: eval_nat_numeral split: option.splits)
qed

section \<open>Checksums\<close>

text \<open>C25. The table-driven checksums are the bit-wise divisions by the polynomials of CRC-32 and CRC-32C
(both tables of 256 entries are right), and \<open>crc32_ext\<close> continues a checksum: the checksum of a buffer
continued over a second one is the checksum of both together.\<close>

theorem crc32_reference_and_continuation:
  assumes "\<forall>b \<in> set (xs @ ys). b < 256"
  shows "crc32 xs (length xs) = Inr (NOT (crc_ref 0xedb88320 (- 1) xs)) \<and>
    iscsi_crc32 xs (length xs) = Inr (NOT (crc_ref 0x82f63b78 (- 1) xs)) \<and>
    rbind (crc32 xs (length xs)) (crc32_ext ys (length ys)) = crc32 (xs @ ys) (length (xs @ ys)) \<and>
    rbind (iscsi_crc32 xs (length xs)) (iscsi_crc32_ext ys (length ys)) = iscsi_crc32 (xs @ ys) (length (xs @ ys))"
proof -
  have b: "\<forall>b \<in> set xs. b < 256" "\<forall>b \<in> set ys. b < 256" using assms by auto
  have f: "crc_ref p c (xs @ ys) = crc_ref p (crc_ref p c xs) ys" for p c by (simp add: crc_ref_def)
  show ?thesis
    using crc32_spec [OF b(1), of "length xs"] crc32_spec [OF b(2), of "length ys"] crc32_spec [OF assms, of "length (xs @ ys)"]
    by (simp add: f)
qed

theorem crc32_reference_and_continuation_witness:
  "crc32 [49, 50] (length [49, 50 :: nat]) = Inr (NOT (crc_ref 0xedb88320 (- 1) [49, 50])) \<and>
   rbind (crc32 [49, 50] (length [49, 50 :: nat])) (crc32_ext [51] (length [51 :: nat])) =
     crc32 [49, 50, 51] (length [49, 50, 51 :: nat])"
proof -
  have "\<forall>b \<in> set ([49, 50] @ [51]). b < (256 :: nat)" by simp
  from crc32_reference_and_continuation [OF this, unfolded append.simps] show ?thesis by blast
qed

text \<open>C26. Both checksums notice every change of a message inside one byte.\<close>

theorem crc32_detects_byte_errors:
  assumes "\<forall>b \<in> set (as @ x # bs). b < 256" "y < 256" "x \<noteq> y"
  shows "crc32 (as @ x # bs) (length (as @ x # bs)) \<noteq> crc32 (as @ y # bs) (length (as @ y # bs)) \<and>
    iscsi_crc32 (as @ x # bs) (length (as @ x # bs)) \<noteq> iscsi_crc32 (as @ y # bs) (length (as @ y # bs))"
proof -
  have b: "\<forall>b \<in> set (as @ y # bs). b < 256" using assms by auto
  have ne: "crc_ref p c (as @ x # bs) \<noteq> crc_ref p c (as @ y # bs)" if "bit p 31" for p c
    using that assms by (intro crc_ref_byte) auto
  have n: "NOT a = NOT c \<longleftrightarrow> a = c" for a c :: u32 by (metis bit.double_compl)
  show ?thesis
    using crc32_spec [OF assms(1), of "length (as @ x # bs)"] crc32_spec [OF b, of "length (as @ y # bs)"]
      ne [of crc32_poly "- 1"] ne [of crc32c_poly "- 1"] by (simp add: n)
qed

theorem crc32_detects_byte_errors_witness:
  "crc32 [1, 2, 3] (length [1, 2, 3 :: nat]) \<noteq> crc32 [1, 130, 3] (length [1, 130, 3 :: nat])"
  using crc32_detects_byte_errors [of "[1]" 2 "[3]" 130] by simp

section \<open>Dumps, bits and random numbers\<close>



text \<open>C28. The bit searches return one plus the position of the lowest or highest set bit, and zero for
an empty mask; their loops always end.\<close>

theorem bit_searches:
  "ffs m = Inr (if m = 0 then 0 else Suc (LEAST k. bit m k)) \<and>
   ffsl l = Inr (if l = 0 then 0 else Suc (LEAST k. bit l k)) \<and>
   flsl l = Inr (if l = 0 then 0 else Suc (GREATEST k. bit l k))"
proof (intro conjI)
  have ex: "\<exists>k. bit x k" if "x \<noteq> 0" for x :: "'a::len word" using that by (metis bit_eqI bit_0_eq bot_apply bot_bool_def)
  have l32: "bit x k \<Longrightarrow> k < 32" for x :: u32 and k using bit_imp_le_length [of x k] by simp
  have l64: "bit x k \<Longrightarrow> k < 64" for x :: "64 word" and k using bit_imp_le_length [of x k] by simp
  have "ffs_loop 32 m 1 = Inr (1 + (LEAST k. bit m k))" if "m \<noteq> 0"
    using LeastI_ex [OF ex [OF that]] l32 [OF LeastI_ex [OF ex [OF that]]] by (intro ffs_loop_spec) (auto dest: not_less_Least)
  then show "ffs m = Inr (if m = 0 then 0 else Suc (LEAST k. bit m k))" by (simp add: ffs_def)
  have "ffsl_loop 64 l 1 = Inr (1 + (LEAST k. bit l k))" if "l \<noteq> 0"
    using LeastI_ex [OF ex [OF that]] l64 [OF LeastI_ex [OF ex [OF that]]] by (intro ffsl_loop_spec) (auto dest: not_less_Least)
  then show "ffsl l = Inr (if l = 0 then 0 else Suc (LEAST k. bit l k))" by (simp add: ffsl_def)
  have "flsl_loop 64 l 1 = Inr (1 + (GREATEST k. bit l k))" if l0: "l \<noteq> 0"
  proof -
    obtain k where k: "bit l k" using ex [OF l0] by blast
    have g: "bit l (GREATEST k. bit l k)" by (rule GreatestI_nat [of "bit l" k 64]) (use k l64 in \<open>auto intro: less_imp_le\<close>)
    have "\<not> bit l j" if "(GREATEST k. bit l k) < j" for j
      using that Greatest_le_nat [of "bit l" j 64] l64 by (meson less_imp_le not_le)
    then show ?thesis using g l64 [OF g] by (intro flsl_loop_spec) auto
  qed
  then show "flsl l = Inr (if l = 0 then 0 else Suc (GREATEST k. bit l k))" by (simp add: flsl_def)
qed

text \<open>C29. From a seed in its range the generator computes the next element of the sequence of Park and
Miller and stays in the range 1 to \<open>2 ^ 31 - 2\<close>, so that the values 0 and \<open>2 ^ 31 - 1\<close> of the documented
range never appear; the seeds 0 and \<open>2 ^ 31 - 1\<close> are stuck at \<open>2 ^ 31 - 1\<close> for ever.\<close>

theorem krandom_park_miller:
  assumes "0 < x" "x < 2 ^ 31 - 1"
  shows "krandom (skrandom x) = (16807 * x mod (2 ^ 31 - 1), 16807 * x mod (2 ^ 31 - 1)) \<and>
    0 < fst (krandom x) \<and> fst (krandom x) < 2 ^ 31 - 1 \<and>
    fst (krandom (skrandom 0)) = 2 ^ 31 - 1 \<and> krandom (2 ^ 31 - 1) = (2 ^ 31 - 1, 2 ^ 31 - 1)"
  using krandom_eq [OF assms] by (simp add: skrandom_def) (simp add: krandom_def cdiv_def Let_def)

theorem krandom_park_miller_witness:
  "krandom (skrandom 1) = (16807, 16807) \<and> fst (krandom (skrandom 0)) = 2147483647"
  using krandom_park_miller [of 1] by simp

end
