(* ===== verification/Hammer_Cas.thy ===== *)
theory Hammer_Cas
  imports Kern_Prelude
begin

text \<open>
  The machine that runs the lock routines of HAMMER (\<open>sys/vfs/hammer/hammer_subs.c\<close>).  Each routine is a
  loop that reads a lock word, decides on a new value, and installs it with \<open>atomic_cmpset_int\<close>; when the
  word has changed in the meantime the loop runs again.  The routines differ only in the loop body, so a
  body is a function from the value read to an \<open>attempt\<close>, and this theory gives the interleaved execution of
  any number of threads.  One step performs at most one access to shared memory, so every
  interleaving of the C code at the level of its memory accesses is a sequence of steps.
\<close>

section \<open>One iteration of a loop\<close>

text \<open>
  What a routine does before the compare-and-set (nothing, clear the owner, or \<open>tsleep_interlock\<close>), and
  after one that succeeds: return, record itself as owner and return, \<open>wakeup\<close> and return, \<open>tsleep\<close> and
  loop again, or go on to another loop.
\<close>

datatype pre = No_Pre | Clear_Owner | Interlock

datatype 'op after = Return int | Own int | Wake int | Sleep | Goto 'op

datatype 'op attempt = Now int | Kpanic string | Cas pre u32 "'op after"

text \<open>
  Where a thread is: outside (with the result of its last call), at the assertions on entry, at the loop head,
  after the read of the lock word, before and at the compare-and-set, and in the actions after it.
\<close>

datatype 'op pc =
    Idle int
  | Entry 'op
  | Check 'op u32
  | Clear 'op
  | Loop 'op
  | Test 'op u32
  | Pre 'op u32 pre u32 "'op after"
  | Comp 'op u32 u32 "'op after"
  | Set_Owner int
  | Waking int
  | Sleeping 'op
  | Panicked 'op

text \<open>
  The code of a lock: the entry assertion (on whether the caller is recorded as owner, and the lock word), whether
  the routine clears the owner before its loop, the loop body, the effect of a successful
  compare-and-set on the history variable that says who holds what, and what a caller may call.
\<close>

record ('op, 'g) cas_code =
  cc_entry :: "'op \<Rightarrow> bool \<Rightarrow> u32 \<Rightarrow> bool"
  cc_clear :: "'op \<Rightarrow> bool"
  cc_body :: "'op \<Rightarrow> bool \<Rightarrow> u32 \<Rightarrow> 'op attempt"
  cc_upd :: "'op \<Rightarrow> nat \<Rightarrow> u32 \<Rightarrow> 'op after \<Rightarrow> 'g \<Rightarrow> 'g"
  cc_can :: "'op \<Rightarrow> nat \<Rightarrow> 'g \<Rightarrow> bool"

text \<open>
  Shared state: the lock word, the owner field, the threads queued by \<open>tsleep_interlock\<close> on the address
  of the word, the position of every thread, and the history variable.
\<close>

record ('op, 'g) cas_state =
  cs_val :: u32
  cs_owner :: "nat option"
  cs_wait :: "nat set"
  cs_pc :: "nat \<Rightarrow> 'op pc"
  cs_ghost :: 'g

definition goto :: "nat \<Rightarrow> 'op pc \<Rightarrow> ('op, 'g) cas_state \<Rightarrow> ('op, 'g) cas_state" where
  "goto t p s = s\<lparr>cs_pc := (cs_pc s)(t := p)\<rparr>"

fun after_pc :: "'op \<Rightarrow> 'op after \<Rightarrow> 'op pc" where
  "after_pc op (Return r) = Idle r"
| "after_pc op (Own r) = Set_Owner r"
| "after_pc op (Wake r) = Waking r"
| "after_pc op Sleep = Sleeping op"
| "after_pc op (Goto op') = Loop op'"

fun attempt_pc :: "'op \<Rightarrow> u32 \<Rightarrow> 'op attempt \<Rightarrow> 'op pc" where
  "attempt_pc op lv (Now r) = Idle r"
| "attempt_pc op lv (Kpanic m) = Panicked op"
| "attempt_pc op lv (Cas p nlv a) = (if p = No_Pre then Comp op lv nlv a else Pre op lv p nlv a)"

fun pre_act :: "nat \<Rightarrow> pre \<Rightarrow> ('op, 'g) cas_state \<Rightarrow> ('op, 'g) cas_state" where
  "pre_act t No_Pre s = s"
| "pre_act t Clear_Owner s = s\<lparr>cs_owner := None\<rparr>"
| "pre_act t Interlock s = s\<lparr>cs_wait := insert t (cs_wait s)\<rparr>"

text \<open>One step of thread \<open>t\<close>; \<^term>\<open>None\<close> when the thread cannot move.\<close>

definition cas_step ::
  "('op, 'g) cas_code \<Rightarrow> nat \<Rightarrow> ('op, 'g) cas_state \<Rightarrow> ('op, 'g) cas_state option" where
  "cas_step C t s =
    (case cs_pc s t of
       Idle r \<Rightarrow> None
     | Entry op \<Rightarrow> Some (goto t (Check op (cs_val s)) s)
     | Check op lv \<Rightarrow>
         Some (goto t (if \<not> cc_entry C op (cs_owner s = Some t) lv then Panicked op
                       else if cc_clear C op then Clear op else Loop op) s)
     | Clear op \<Rightarrow> Some (goto t (Loop op) (s\<lparr>cs_owner := None\<rparr>))
     | Loop op \<Rightarrow> Some (goto t (Test op (cs_val s)) s)
     | Test op lv \<Rightarrow> Some (goto t (attempt_pc op lv (cc_body C op (cs_owner s = Some t) lv)) s)
     | Pre op lv p nlv a \<Rightarrow> Some (goto t (Comp op lv nlv a) (pre_act t p s))
     | Comp op lv nlv a \<Rightarrow>
         Some (if cs_val s = lv
               then goto t (after_pc op a) (s\<lparr>cs_val := nlv, cs_ghost := cc_upd C op t lv a (cs_ghost s)\<rparr>)
               else goto t (Loop op) s)
     | Set_Owner r \<Rightarrow> Some (goto t (Idle r) (s\<lparr>cs_owner := Some t\<rparr>))
     | Waking r \<Rightarrow> Some (goto t (Idle r) (s\<lparr>cs_wait := {}\<rparr>))
     | Sleeping op \<Rightarrow> if t \<in> cs_wait s then None else Some (goto t (Loop op) s)
     | Panicked op \<Rightarrow> None)"

definition cas_init :: "'g \<Rightarrow> ('op, 'g) cas_state" where
  "cas_init g = \<lparr>cs_val = 0, cs_owner = None, cs_wait = {}, cs_pc = \<lambda>_. Idle 0, cs_ghost = g\<rparr>"

text \<open>The states that \<open>N\<close> threads reach when every call obeys the rules of its routine.\<close>

inductive cas_reach :: "('op, 'g) cas_code \<Rightarrow> 'g \<Rightarrow> nat \<Rightarrow> ('op, 'g) cas_state \<Rightarrow> bool"
  for C :: "('op, 'g) cas_code" and g :: 'g and N :: nat where
  start: "cas_reach C g N (cas_init g)"
| call: "cas_reach C g N s \<Longrightarrow> t < N \<Longrightarrow> cs_pc s t = Idle r \<Longrightarrow> cc_can C op t (cs_ghost s) \<Longrightarrow>
    cas_reach C g N (goto t (Entry op) s)"
| step: "cas_reach C g N s \<Longrightarrow> t < N \<Longrightarrow> cas_step C t s = Some s' \<Longrightarrow> cas_reach C g N s'"

text \<open>A schedule: a call, or a step of a thread.  It runs the machine on a concrete interleaving.\<close>

datatype 'op action = Call nat 'op | Run nat

fun cas_run :: "('op, 'g) cas_code \<Rightarrow> nat \<Rightarrow> 'op action list \<Rightarrow> ('op, 'g) cas_state \<Rightarrow> ('op, 'g) cas_state option" where
  "cas_run C N [] s = Some s"
| "cas_run C N (Call t op # as) s =
     (if t < N \<and> (case cs_pc s t of Idle _ \<Rightarrow> True | _ \<Rightarrow> False) \<and> cc_can C op t (cs_ghost s)
      then cas_run C N as (goto t (Entry op) s) else None)"
| "cas_run C N (Run t # as) s =
     (if t < N then case cas_step C t s of None \<Rightarrow> None | Some s' \<Rightarrow> cas_run C N as s' else None)"

lemma cas_run_reach: "cas_run C N as s = Some s' \<Longrightarrow> cas_reach C g N s \<Longrightarrow> cas_reach C g N s'"
  by (induction C N as s rule: cas_run.induct)
    (auto split: if_splits option.splits pc.splits intro: cas_reach.intros)

lemma goto_simps [simp]:
  "cs_val (goto t p s) = cs_val s" "cs_owner (goto t p s) = cs_owner s" "cs_wait (goto t p s) = cs_wait s"
  "cs_pc (goto t p s) = (cs_pc s)(t := p)" "cs_ghost (goto t p s) = cs_ghost s"
  by (simp_all add: goto_def)

lemma pre_act_simps [simp]:
  "cs_val (pre_act t p s) = cs_val s" "cs_pc (pre_act t p s) = cs_pc s" "cs_ghost (pre_act t p s) = cs_ghost s"
  "cs_owner (pre_act t p s) = (if p = Clear_Owner then None else cs_owner s)"
  "cs_wait (pre_act t p s) = (if p = Interlock then insert t (cs_wait s) else cs_wait s)"
  by (cases p; simp)+

lemma cas_init_simps [simp]:
  "cs_val (cas_init g) = 0" "cs_owner (cas_init g) = None" "cs_wait (cas_init g) = {}"
  "cs_pc (cas_init g) = (\<lambda>_. Idle 0)" "cs_ghost (cas_init g) = g"
  by (simp_all add: cas_init_def)

lemma attempt_pc_neq [simp]: "attempt_pc op lv a \<noteq> Sleeping op'" "attempt_pc op lv a \<noteq> Waking r"
  by (cases a; simp)+

section \<open>Invariants of a lock\<close>

text \<open>
  The proof method: a global invariant on word, owner and history, and a local one for each thread at its
  position.  A step of one thread must keep the global invariant and its own local one, and what
  it does to word, owner and history must not disturb the others.
\<close>

definition inv_upto ::
  "(u32 \<Rightarrow> nat option \<Rightarrow> 'g \<Rightarrow> bool) \<Rightarrow> (nat \<Rightarrow> 'op pc \<Rightarrow> nat option \<Rightarrow> 'g \<Rightarrow> bool) \<Rightarrow> nat \<Rightarrow>
    ('op, 'g) cas_state \<Rightarrow> bool" where
  "inv_upto G L N s \<longleftrightarrow> G (cs_val s) (cs_owner s) (cs_ghost s) \<and>
     (\<forall>t < N. L t (cs_pc s t) (cs_owner s) (cs_ghost s)) \<and> (\<forall>t \<ge> N. \<exists>r. cs_pc s t = Idle r)"

lemma running_thread: "inv_upto G L N s \<Longrightarrow> cs_pc s t = p \<Longrightarrow> \<forall>r. p \<noteq> Idle r \<Longrightarrow> t < N"
  unfolding inv_upto_def by (metis not_less)

locale cas_protocol =
  fixes C :: "('op, 'g) cas_code" and g0 :: 'g and N :: nat
    and G :: "u32 \<Rightarrow> nat option \<Rightarrow> 'g \<Rightarrow> bool"
    and L :: "nat \<Rightarrow> 'op pc \<Rightarrow> nat option \<Rightarrow> 'g \<Rightarrow> bool"
    and W :: u32
  assumes init_global: "G 0 None g0"
    and init_local: "t < N \<Longrightarrow> L t (Idle 0) None g0"
    and call_local: "t < N \<Longrightarrow> G v ow g \<Longrightarrow> L t (Idle r) ow g \<Longrightarrow> cc_can C op t g \<Longrightarrow> L t (Entry op) ow g"
    and step_own: "t < N \<Longrightarrow> inv_upto G L N s \<Longrightarrow> cas_step C t s = Some s' \<Longrightarrow>
          G (cs_val s') (cs_owner s') (cs_ghost s') \<and> L t (cs_pc s' t) (cs_owner s') (cs_ghost s')"
    and step_other: "t < N \<Longrightarrow> inv_upto G L N s \<Longrightarrow> cas_step C t s = Some s' \<Longrightarrow> t' < N \<Longrightarrow> t' \<noteq> t \<Longrightarrow>
          L t' (cs_pc s t') (cs_owner s') (cs_ghost s')"
    and comp_sleep: "t < N \<Longrightarrow> L t (Comp op v nlv Sleep) ow g \<Longrightarrow> G v ow g \<Longrightarrow> nlv AND W \<noteq> 0"
    and comp_wake: "t < N \<Longrightarrow> L t (Comp op v nlv a) ow g \<Longrightarrow> G v ow g \<Longrightarrow> v AND W \<noteq> 0 \<Longrightarrow> nlv AND W = 0 \<Longrightarrow>
          \<exists>r. a = Wake r"
begin

lemma step_pc_other: "cas_step C t s = Some s' \<Longrightarrow> t' \<noteq> t \<Longrightarrow> cs_pc s' t' = cs_pc s t'"
  by (auto simp: cas_step_def split: pc.splits if_splits)

lemma reach_inv: "cas_reach C g0 N s \<Longrightarrow> inv_upto G L N s"
proof (induction rule: cas_reach.induct)
  case start
  then show ?case by (simp add: inv_upto_def init_global init_local)
next
  case (call s t r op)
  then show ?case using call_local [of t "cs_val s" "cs_owner s" "cs_ghost s" r op]
    by (auto simp: inv_upto_def)
next
  case (step s t s')
  have "L t' (cs_pc s' t') (cs_owner s') (cs_ghost s')" if "t' < N" for t'
    using step_own [OF step.hyps(2) step.IH step.hyps(3)] step_pc_other [OF step.hyps(3), of t']
      step_other [OF step.hyps(2) step.IH step.hyps(3) that] by (cases "t' = t") auto
  moreover have "\<exists>r. cs_pc s' t' = Idle r" if "t' \<ge> N" for t'
    using that step.hyps(2) step.IH step_pc_other [OF step.hyps(3), of t'] by (auto simp: inv_upto_def)
  ultimately show ?case
    using step_own [OF step.hyps(2) step.IH step.hyps(3)] by (simp add: inv_upto_def)
qed

lemma waking_other:
  "\<exists>t' < N. \<exists>r. cs_pc s t' = Waking r \<Longrightarrow> \<forall>r. cs_pc s t \<noteq> Waking r \<Longrightarrow>
    \<exists>t' < N. \<exists>r. ((cs_pc s)(t := p)) t' = Waking r"
  by (metis fun_upd_other)

text \<open>
  No wakeup is lost: a thread that sleeps in the queue is covered by the wanted bit of the lock word, or by a
  thread that has cleared the bit and is about to call \<open>wakeup\<close>.
\<close>

lemma no_lost_wakeup:
  assumes "cas_reach C g0 N s" and "cs_pc s t = Sleeping op" and "t \<in> cs_wait s"
  shows "cs_val s AND W \<noteq> 0 \<or> (\<exists>t' < N. \<exists>r. cs_pc s t' = Waking r)"
  using assms
proof (induction arbitrary: t op rule: cas_reach.induct)
  case start
  then show ?case by simp
next
  case (call s t1 r op1)
  then have ne: "t \<noteq> t1" by auto
  with call have "cs_val s AND W \<noteq> 0 \<or> (\<exists>t' < N. \<exists>r. cs_pc s t' = Waking r)" by auto
  with call.hyps(3) show ?case using waking_other [of s t1 "Entry op1"] by auto
next
  case (step s t1 s')
  note inv = reach_inv [OF step.hyps(1)]
  have cover: "cs_val s AND W \<noteq> 0 \<or> (\<exists>t' < N. \<exists>r. cs_pc s t' = Waking r)"
    if "cs_pc s t = Sleeping op" "t \<in> cs_wait s" using step.IH that .
  show ?case
  proof (cases "\<exists>op1 v nlv a. cs_pc s t1 = Comp op1 v nlv a \<and> cs_val s = v")
    case True
    then obtain op1 nlv a where pc: "cs_pc s t1 = Comp op1 (cs_val s) nlv a" by blast
    then have s': "s' = goto t1 (after_pc op1 a)
        (s\<lparr>cs_val := nlv, cs_ghost := cc_upd C op1 t1 (cs_val s) a (cs_ghost s)\<rparr>)"
      using step.hyps(3) by (simp add: cas_step_def)
    have L: "L t1 (Comp op1 (cs_val s) nlv a) (cs_owner s) (cs_ghost s)"
      and Gs: "G (cs_val s) (cs_owner s) (cs_ghost s)"
      using inv step.hyps(2) pc [symmetric] by (simp_all add: inv_upto_def)
    show ?thesis
    proof (cases "t = t1")
      case True
      with step.prems(1) s' have "a = Sleep" by (cases a) auto
      with comp_sleep step.hyps(2) L Gs s' show ?thesis by auto
    next
      case False
      with step.prems s' have "cs_val s AND W \<noteq> 0 \<or> (\<exists>t' < N. \<exists>r. cs_pc s t' = Waking r)"
        by (intro cover) auto
      then show ?thesis
      proof
        assume "cs_val s AND W \<noteq> 0"
        with comp_wake [OF step.hyps(2) L Gs] s' step.hyps(2) show ?thesis by (cases "nlv AND W = 0") auto
      next
        assume "\<exists>t' < N. \<exists>r. cs_pc s t' = Waking r"
        with pc s' show ?thesis using waking_other [of s t1 "after_pc op1 a"] by simp
      qed
    qed
  next
    case False
    show ?thesis
    proof (cases "\<exists>r. cs_pc s t1 = Waking r")
      case True
      then show ?thesis using step.hyps(3) step.prems by (auto simp: cas_step_def)
    next
      case nw: False
      obtain p where p: "cs_pc s' = (cs_pc s)(t1 := p)" "cs_val s' = cs_val s"
        using step.hyps(3) False by (auto simp: cas_step_def split: pc.splits if_splits)
      have "t \<noteq> t1 \<and> cs_pc s t = Sleeping op \<and> t \<in> cs_wait s"
        using step.hyps(3) step.prems False
        by (auto simp: cas_step_def split: pc.splits if_splits attempt.splits)
      then show ?thesis using cover waking_other [of s t1 p] nw p by auto
    qed
  qed
qed

end

section \<open>Termination without interference\<close>

text \<open>Thread \<open>t\<close> runs alone for \<open>k\<close> steps, or until it cannot move.\<close>

fun solo :: "('op, 'g) cas_code \<Rightarrow> nat \<Rightarrow> nat \<Rightarrow> ('op, 'g) cas_state \<Rightarrow> ('op, 'g) cas_state" where
  "solo C 0 t s = s"
| "solo C (Suc k) t s = (case cas_step C t s of None \<Rightarrow> s | Some s' \<Rightarrow> solo C k t s')"

text \<open>
  A bound on the steps a thread needs when nobody interferes: a failed compare-and-set reads the word again, and
  the second one succeeds; the only loop that leads to another loop is that of rank 1.
\<close>

definition loop_cost :: "('op \<Rightarrow> nat) \<Rightarrow> 'op \<Rightarrow> nat" where
  "loop_cost rank op = 5 + 5 * rank op"

definition comp_cost :: "('op \<Rightarrow> nat) \<Rightarrow> 'op \<Rightarrow> bool \<Rightarrow> bool \<Rightarrow> 'op after \<Rightarrow> nat" where
  "comp_cost rank op fresh waits a =
    (if \<not> fresh then 1 + loop_cost rank op
     else case a of Return r \<Rightarrow> 1 | Own r \<Rightarrow> 2 | Wake r \<Rightarrow> 2
       | Sleep \<Rightarrow> if waits then 1 else 2 + loop_cost rank op | Goto op' \<Rightarrow> 1 + loop_cost rank op')"

definition attempt_cost :: "('op \<Rightarrow> nat) \<Rightarrow> 'op \<Rightarrow> bool \<Rightarrow> bool \<Rightarrow> 'op attempt \<Rightarrow> nat" where
  "attempt_cost rank op fresh waits x =
    (case x of Now r \<Rightarrow> 0 | Kpanic m \<Rightarrow> 0
     | Cas p nlv a \<Rightarrow> (if p = No_Pre then 0 else 1) + comp_cost rank op fresh (waits \<or> p = Interlock) a)"

definition pc_cost :: "('op \<Rightarrow> nat) \<Rightarrow> ('op, 'g) cas_code \<Rightarrow> nat \<Rightarrow> ('op, 'g) cas_state \<Rightarrow> nat" where
  "pc_cost rank C t s =
    (case cs_pc s t of
       Entry op \<Rightarrow> 3 + loop_cost rank op
     | Check op lv \<Rightarrow> 2 + loop_cost rank op
     | Clear op \<Rightarrow> 1 + loop_cost rank op
     | Loop op \<Rightarrow> loop_cost rank op
     | Test op lv \<Rightarrow> 1 + attempt_cost rank op (lv = cs_val s) (t \<in> cs_wait s) (cc_body C op (cs_owner s = Some t) lv)
     | Pre op lv p nlv a \<Rightarrow> 1 + comp_cost rank op (lv = cs_val s) (t \<in> cs_wait s \<or> p = Interlock) a
     | Comp op lv nlv a \<Rightarrow> comp_cost rank op (lv = cs_val s) (t \<in> cs_wait s) a
     | Set_Owner r \<Rightarrow> 1
     | Waking r \<Rightarrow> 1
     | Sleeping op \<Rightarrow> if t \<in> cs_wait s then 0 else 1 + loop_cost rank op
     | _ \<Rightarrow> 0)"

locale cas_loops =
  fixes C :: "('op, 'g) cas_code" and rank :: "'op \<Rightarrow> nat"
  assumes sleep_interlock: "cc_body C op own lv = Cas p nlv Sleep \<Longrightarrow> p = Interlock"
    and goto_rank: "cc_body C op own lv = Cas p nlv (Goto op') \<Longrightarrow> rank op' < rank op"
    and rank_le: "rank op \<le> 1"
begin

lemma fresh_cost: "attempt_cost rank op True w (cc_body C op own lv) + 1 < loop_cost rank op"
proof (cases "cc_body C op own lv")
  case (Cas p nlv a)
  then show ?thesis
    using sleep_interlock [of op own lv p nlv] goto_rank [of op own lv p nlv]
    by (cases a) (auto simp: attempt_cost_def comp_cost_def loop_cost_def)
qed (simp_all add: attempt_cost_def loop_cost_def)

lemma cost_decreases: "cas_step C t s = Some s' \<Longrightarrow> pc_cost rank C t s' < pc_cost rank C t s"
proof (cases "cs_pc s t")
  case (Test op lv)
  moreover assume "cas_step C t s = Some s'"
  ultimately show ?thesis
    by (cases "cc_body C op (cs_owner s = Some t) lv") (auto simp: cas_step_def pc_cost_def attempt_cost_def)
next
  case (Loop op)
  moreover assume "cas_step C t s = Some s'"
  ultimately show ?thesis
    using fresh_cost [of op "t \<in> cs_wait s" "cs_owner s = Some t" "cs_val s"] by (auto simp: cas_step_def pc_cost_def)
next
  case (Comp op lv nlv a)
  moreover assume "cas_step C t s = Some s'"
  ultimately show ?thesis
    by (cases a) (auto simp: cas_step_def pc_cost_def comp_cost_def loop_cost_def split: if_splits)
qed (auto simp: cas_step_def pc_cost_def comp_cost_def split: if_splits)

lemma solo_cost: "pc_cost rank C t s \<le> k \<Longrightarrow> cas_step C t (solo C k t s) = None"
proof (induction k arbitrary: s)
  case 0
  then show ?case using cost_decreases [of t s] by (cases "cas_step C t s") auto
next
  case (Suc k)
  then show ?case using cost_decreases [of t s] by (cases "cas_step C t s") fastforce+
qed

lemma cost_bound: "pc_cost rank C t s \<le> 14"
proof -
  have l: "loop_cost rank op \<le> 10" for op using rank_le [of op] by (simp add: loop_cost_def)
  have c: "comp_cost rank op f w a \<le> 12" for op f w a
    using l by (cases a) (auto simp: comp_cost_def intro: le_trans [OF l])
  have a: "attempt_cost rank op f w x \<le> 13" for op f w x
    using c [of op f w] c [of op f True] by (cases x) (auto simp: attempt_cost_def intro: le_trans [OF c])
  show ?thesis
    using l c a by (cases "cs_pc s t") (auto simp: pc_cost_def intro: le_trans [OF l] le_trans [OF c])
qed

text \<open>From every state, a thread that nobody disturbs stops within 14 steps.\<close>

lemma solo_stops: "cas_step C t (solo C 14 t s) = None"
  using solo_cost [OF cost_bound] .

end

end
