(* ===== verification/Hammer_Lock.thy ===== *)
theory Hammer_Lock
  imports Hammer_Cas
begin

text \<open>
  The shared/exclusive lock of HAMMER structures: \<open>lockval\<close> and \<open>lowner\<close> of \<open>struct hammer_lock\<close>.  The low bits
  of \<open>lockval\<close> count the holds, \<open>EXCLUSIVE\<close> says that they all belong to the owner, \<open>WANTED\<close> that somebody
  sleeps.
\<close>

unbundle bit_operations_syntax

section \<open>The code\<close>

definition HAMMER_LOCKF_EXCLUSIVE :: u32 where "HAMMER_LOCKF_EXCLUSIVE = 0x40000000"
definition HAMMER_LOCKF_WANTED :: u32 where "HAMMER_LOCKF_WANTED = 0x20000000"

abbreviation (input) EAGAIN :: int where "EAGAIN \<equiv> 35"
abbreviation (input) EDEADLK :: int where "EDEADLK \<equiv> 11"

datatype lock_op =
    Lock_Ex | Lock_Ex_Try | Lock_Sh | Lock_Sh_Try | Upgrade nat | Downgrade nat | Unlock | Status

text \<open>The loop bodies; \<open>own\<close> is the outcome of the test \<open>lock->lowner == td\<close>.\<close>

definition hammer_lock_ex_ident :: "bool \<Rightarrow> u32 \<Rightarrow> lock_op attempt" where
  "hammer_lock_ex_ident own lv =
    (if lv = 0 then Cas No_Pre (1 OR HAMMER_LOCKF_EXCLUSIVE) (Own 0)
     else if lv AND HAMMER_LOCKF_EXCLUSIVE \<noteq> 0 \<and> own then Cas No_Pre (lv + 1) (Return 0)
     else Cas Interlock (lv OR HAMMER_LOCKF_WANTED) Sleep)"

definition hammer_lock_ex_try :: "bool \<Rightarrow> u32 \<Rightarrow> lock_op attempt" where
  "hammer_lock_ex_try own lv =
    (if lv = 0 then Cas No_Pre (1 OR HAMMER_LOCKF_EXCLUSIVE) (Own 0)
     else if lv AND HAMMER_LOCKF_EXCLUSIVE \<noteq> 0 \<and> own then Cas No_Pre (lv + 1) (Return 0)
     else Now EAGAIN)"

definition hammer_lock_sh :: "bool \<Rightarrow> u32 \<Rightarrow> lock_op attempt" where
  "hammer_lock_sh own lv =
    (if lv AND HAMMER_LOCKF_EXCLUSIVE = 0 then Cas No_Pre (lv + 1) (Return 0)
     else if own then Cas No_Pre (lv + 1) (Return 0)
     else Cas Interlock (lv OR HAMMER_LOCKF_WANTED) Sleep)"

definition hammer_lock_sh_try :: "bool \<Rightarrow> u32 \<Rightarrow> lock_op attempt" where
  "hammer_lock_sh_try own lv =
    (if lv AND HAMMER_LOCKF_EXCLUSIVE = 0 then Cas No_Pre (lv + 1) (Return 0)
     else if own then Cas No_Pre (lv + 1) (Return 0)
     else Now EAGAIN)"

definition hammer_lock_upgrade :: "nat \<Rightarrow> bool \<Rightarrow> u32 \<Rightarrow> lock_op attempt" where
  "hammer_lock_upgrade shcount own lv =
    (if lv AND NOT HAMMER_LOCKF_WANTED = of_nat shcount then Cas No_Pre (lv OR HAMMER_LOCKF_EXCLUSIVE) (Own 0)
     else if lv AND HAMMER_LOCKF_EXCLUSIVE \<noteq> 0
       then if \<not> own then Kpanic ''hammer_lock_upgrade: illegal state'' else Now 0
     else if lv AND NOT HAMMER_LOCKF_WANTED = 0 then Kpanic ''hammer_lock_upgrade: lock is not held''
     else Now EDEADLK)"

definition hammer_lock_downgrade_entry :: "nat \<Rightarrow> bool \<Rightarrow> u32 \<Rightarrow> bool" where
  "hammer_lock_downgrade_entry shcount own lv \<longleftrightarrow>
     lv AND NOT HAMMER_LOCKF_WANTED = HAMMER_LOCKF_EXCLUSIVE OR of_nat shcount \<and> own"

definition hammer_lock_downgrade :: "bool \<Rightarrow> u32 \<Rightarrow> lock_op attempt" where
  "hammer_lock_downgrade own lv =
     Cas No_Pre (lv AND NOT (HAMMER_LOCKF_EXCLUSIVE OR HAMMER_LOCKF_WANTED))
       (if lv AND HAMMER_LOCKF_WANTED \<noteq> 0 then Wake 0 else Return 0)"

definition hammer_unlock_entry :: "bool \<Rightarrow> u32 \<Rightarrow> bool" where
  "hammer_unlock_entry own lv \<longleftrightarrow> lv \<noteq> 0 \<and> (lv AND HAMMER_LOCKF_EXCLUSIVE \<noteq> 0 \<longrightarrow> own)"

definition hammer_unlock :: "bool \<Rightarrow> u32 \<Rightarrow> lock_op attempt" where
  "hammer_unlock own lv =
    (let nlv = lv AND NOT (HAMMER_LOCKF_EXCLUSIVE OR HAMMER_LOCKF_WANTED) in
     if nlv > 1 then Cas No_Pre (lv - 1) (Return 0)
     else if nlv = 1 then
       Cas (if lv AND HAMMER_LOCKF_EXCLUSIVE \<noteq> 0 then Clear_Owner else No_Pre) 0
         (if lv AND HAMMER_LOCKF_WANTED \<noteq> 0 then Wake 0 else Return 0)
     else Kpanic ''hammer_unlock: lock is not held'')"

definition hammer_lock_status :: "bool \<Rightarrow> u32 \<Rightarrow> lock_op attempt" where
  "hammer_lock_status own lv =
    (if lv AND HAMMER_LOCKF_EXCLUSIVE \<noteq> 0 then Now 1
     else if lv \<noteq> 0 then Now (- 1)
     else Kpanic ''hammer_lock_status: lock must be held'')"

fun lock_body :: "lock_op \<Rightarrow> bool \<Rightarrow> u32 \<Rightarrow> lock_op attempt" where
  "lock_body Lock_Ex = hammer_lock_ex_ident"
| "lock_body Lock_Ex_Try = hammer_lock_ex_try"
| "lock_body Lock_Sh = hammer_lock_sh"
| "lock_body Lock_Sh_Try = hammer_lock_sh_try"
| "lock_body (Upgrade c) = hammer_lock_upgrade c"
| "lock_body (Downgrade c) = hammer_lock_downgrade"
| "lock_body Unlock = hammer_unlock"
| "lock_body Status = hammer_lock_status"

text \<open>The four acquiring routines assert that the structure is referenced; \<open>refs\<close> is \<open>lock->refs\<close>.\<close>

fun lock_entry :: "u32 \<Rightarrow> lock_op \<Rightarrow> bool \<Rightarrow> u32 \<Rightarrow> bool" where
  "lock_entry refs (Downgrade c) own lv = hammer_lock_downgrade_entry c own lv"
| "lock_entry refs Unlock own lv = hammer_unlock_entry own lv"
| "lock_entry refs (Upgrade c) own lv = True"
| "lock_entry refs Status own lv = True"
| "lock_entry refs _ own lv = (refs \<noteq> 0)"

section \<open>Who holds the lock\<close>

text \<open>The history variable: the exclusive and the shared holds of every thread.\<close>

type_synonym holds = "nat \<Rightarrow> nat \<times> nat"

definition exh :: "holds \<Rightarrow> nat \<Rightarrow> nat" where "exh g t = fst (g t)"
definition shh :: "holds \<Rightarrow> nat \<Rightarrow> nat" where "shh g t = snd (g t)"

fun lock_upd :: "lock_op \<Rightarrow> nat \<Rightarrow> u32 \<Rightarrow> lock_op after \<Rightarrow> holds \<Rightarrow> holds" where
  "lock_upd op t lv Sleep g = g"
| "lock_upd (Upgrade c) t lv a g = g(t := (shh g t, 0))"
| "lock_upd (Downgrade c) t lv a g = g(t := (0, exh g t))"
| "lock_upd Unlock t lv a g =
    (if lv AND HAMMER_LOCKF_EXCLUSIVE \<noteq> 0 then g(t := (exh g t - 1, shh g t)) else g(t := (exh g t, shh g t - 1)))"
| "lock_upd Lock_Ex t lv a g = g(t := (exh g t + 1, shh g t))"
| "lock_upd Lock_Ex_Try t lv a g = g(t := (exh g t + 1, shh g t))"
| "lock_upd Lock_Sh t lv a g =
    (if lv AND HAMMER_LOCKF_EXCLUSIVE \<noteq> 0 then g(t := (exh g t + 1, shh g t)) else g(t := (exh g t, shh g t + 1)))"
| "lock_upd Lock_Sh_Try t lv a g =
    (if lv AND HAMMER_LOCKF_EXCLUSIVE \<noteq> 0 then g(t := (exh g t + 1, shh g t)) else g(t := (exh g t, shh g t + 1)))"
| "lock_upd Status t lv a g = g"

text \<open>
  The rules of use.  Only a holder releases, downgrades or asks for the status; \<open>shcount\<close> is the number of holds
  of the caller; a thread holds the lock at most \<open>R\<close> times, and does not wait for an
  exclusive lock while it holds a shared one (it would wait for itself).
\<close>

fun lock_can :: "nat \<Rightarrow> lock_op \<Rightarrow> nat \<Rightarrow> holds \<Rightarrow> bool" where
  "lock_can R Lock_Ex t g = (shh g t = 0 \<and> exh g t < R)"
| "lock_can R (Upgrade c) t g = (0 < c \<and> c \<le> R \<and> (exh g t > 0 \<or> shh g t = c))"
| "lock_can R (Downgrade c) t g = (0 < c \<and> exh g t = c)"
| "lock_can R Unlock t g = (0 < exh g t + shh g t)"
| "lock_can R Status t g = (0 < exh g t + shh g t)"
| "lock_can R _ t g = (exh g t + shh g t < R)"

text \<open>The structure is referenced, and the holds that \<open>N\<close> threads may have fit below the flags.\<close>

definition lock_usable :: "u32 \<Rightarrow> nat \<Rightarrow> nat \<Rightarrow> bool" where
  "lock_usable refs R N \<longleftrightarrow> refs \<noteq> 0 \<and> N * R + 1 < 2 ^ 29"

definition lock_code :: "u32 \<Rightarrow> nat \<Rightarrow> nat \<Rightarrow> (lock_op, holds) cas_code" where
  "lock_code refs R N =
    \<lparr>cc_entry = lock_entry refs, cc_clear = (\<lambda>op. case op of Downgrade c \<Rightarrow> True | _ \<Rightarrow> False),
     cc_body = lock_body, cc_upd = lock_upd, cc_can = (\<lambda>op t g. lock_usable refs R N \<and> lock_can R op t g)\<rparr>"

definition no_holds :: holds where "no_holds = (\<lambda>_. (0, 0))"

section \<open>The lock word\<close>

named_theorems lock_word \<open>the lock routines on a well-formed lock word\<close>

lemma bit_nat_below: "(n :: nat) < 2 ^ k \<Longrightarrow> k \<le> i \<Longrightarrow> \<not> bit n i"
  by (metis bit_take_bit_iff linorder_not_le take_bit_nat_eq_self)

lemma bit_of_nat_high: "n < 2 ^ k \<Longrightarrow> k \<le> i \<Longrightarrow> \<not> bit (of_nat n :: u32) i"
  using bit_nat_below [of n k i] by (simp add: bit_of_nat_iff)

definition lword :: "nat \<Rightarrow> bool \<Rightarrow> bool \<Rightarrow> u32" where
  "lword n ex w = of_nat n OR (if ex then HAMMER_LOCKF_EXCLUSIVE else 0) OR (if w then HAMMER_LOCKF_WANTED else 0)"

lemma bit_flag: "bit (push_bit k 1 :: u32) i \<longleftrightarrow> i = k \<and> k < 32"
  by (auto simp: bit_exp_iff)

lemma bit_EXCLUSIVE: "bit HAMMER_LOCKF_EXCLUSIVE i \<longleftrightarrow> i = 30"
  and bit_WANTED: "bit HAMMER_LOCKF_WANTED i \<longleftrightarrow> i = 29"
proof -
  have e: "HAMMER_LOCKF_EXCLUSIVE = push_bit 30 1" and w: "HAMMER_LOCKF_WANTED = push_bit 29 1"
    by (simp_all add: HAMMER_LOCKF_EXCLUSIVE_def HAMMER_LOCKF_WANTED_def push_bit_eq_mult)
  show "bit HAMMER_LOCKF_EXCLUSIVE i \<longleftrightarrow> i = 30" "bit HAMMER_LOCKF_WANTED i \<longleftrightarrow> i = 29"
    unfolding e w bit_flag by simp_all
qed

lemma bit_lword: "n < 2 ^ 29 \<Longrightarrow> bit (lword n ex w) i \<longleftrightarrow> bit n i \<or> (ex \<and> i = 30) \<or> (w \<and> i = 29)"
  using bit_nat_below [of n 29 i]
  by (cases "29 \<le> i") (auto simp: lword_def bit_or_iff bit_of_nat_iff bit_EXCLUSIVE bit_WANTED)

lemma lword_inc:
  assumes "n + 1 < 2 ^ 29" shows "lword n ex w + 1 = lword (n + 1) ex w"
proof -
  have add: "lword m ex w = of_nat m + ((if ex then HAMMER_LOCKF_EXCLUSIVE else 0) OR (if w then HAMMER_LOCKF_WANTED else 0))"
    if "m < 2 ^ 29" for m
    unfolding lword_def or.assoc
    by (rule disjunctive_add [symmetric])
      (use bit_of_nat_high [OF that] in \<open>auto simp: bit_or_iff bit_EXCLUSIVE bit_WANTED\<close>)
  show ?thesis using assms by (simp add: add)
qed

lemma lword_dec: "0 < n \<Longrightarrow> n < 2 ^ 29 \<Longrightarrow> lword n ex w - 1 = lword (n - 1) ex w"
  using lword_inc [of "n - 1" ex w] by (simp add: eq_diff_eq [symmetric])

lemma lword_eq_iff:
  assumes "n < 2 ^ 29" "m < 2 ^ 29"
  shows "lword n ex w = lword m ex' w' \<longleftrightarrow> n = m \<and> ex = ex' \<and> w = w'"
proof
  assume eq: "lword n ex w = lword m ex' w'"
  have b: "bit n i \<or> (ex \<and> i = 30) \<or> (w \<and> i = 29) \<longleftrightarrow> bit m i \<or> (ex' \<and> i = 30) \<or> (w' \<and> i = 29)" for i
    using eq bit_lword [OF assms(1)] bit_lword [OF assms(2)] by metis
  have hi: "\<not> bit n i" "\<not> bit m i" if "29 \<le> i" for i using assms that bit_nat_below [of _ 29 i] by auto
  have "n = m" 
  proof (rule bit_eqI)
    show "bit n i = bit m i" for i
      using b [of i] hi [of i] by (cases "29 \<le> i") auto
  qed
  then show "n = m \<and> ex = ex' \<and> w = w'" using b [of 30] b [of 29] hi [of 30] hi [of 29] by simp
qed simp

lemma and_flag_eq_0: "(\<And>i. bit f i \<longleftrightarrow> i = k) \<Longrightarrow> (x :: u32) AND f = 0 \<longleftrightarrow> \<not> bit x k"
  unfolding bit_eq_iff [of "x AND f"] bit_and_iff using bit_imp_le_length [of x k] by auto

lemma lword_flags [simp]:
  assumes n: "n < 2 ^ 29"
  shows "lword n ex w AND HAMMER_LOCKF_EXCLUSIVE = 0 \<longleftrightarrow> \<not> ex"
    and "lword n ex w AND HAMMER_LOCKF_WANTED = 0 \<longleftrightarrow> \<not> w"
  using bit_nat_below [OF n]
  by (auto simp: and_flag_eq_0 [OF bit_EXCLUSIVE] and_flag_eq_0 [OF bit_WANTED] bit_lword [OF n])

lemma lword_set:
  assumes n: "n < 2 ^ 29"
  shows "lword n ex w OR HAMMER_LOCKF_WANTED = lword n ex True"
    and "lword n ex w OR HAMMER_LOCKF_EXCLUSIVE = lword n True w"
  by (rule bit_eqI; auto simp: bit_or_iff bit_lword [OF n] bit_WANTED bit_EXCLUSIVE)+

lemma lword_clear:
  assumes n: "n < 2 ^ 29"
  shows "lword n ex w AND NOT HAMMER_LOCKF_WANTED = lword n ex False"
    and "lword n ex w AND NOT (HAMMER_LOCKF_EXCLUSIVE OR HAMMER_LOCKF_WANTED) = lword n False False"
proof -
  note b = bit_and_iff bit_not_iff bit_or_iff bit_lword [OF n] bit_WANTED bit_EXCLUSIVE
  show "lword n ex w AND NOT HAMMER_LOCKF_WANTED = lword n ex False"
    by (rule bit_eqI) (use bit_nat_below [OF n] in \<open>auto simp: b\<close>)
  show "lword n ex w AND NOT (HAMMER_LOCKF_EXCLUSIVE OR HAMMER_LOCKF_WANTED) = lword n False False"
    by (rule bit_eqI) (use bit_nat_below [OF n] in \<open>auto simp: b\<close>)
qed

lemma lword_numerals: "0 = lword 0 False False" "1 = lword 1 False False" "of_nat c = lword c False False"
  "1 OR HAMMER_LOCKF_EXCLUSIVE = lword 1 True False" "HAMMER_LOCKF_EXCLUSIVE OR of_nat c = lword c True False"
  by (simp_all add: lword_def or.commute)

lemma lword_plain: "n < 2 ^ 29 \<Longrightarrow> unat (lword n False False) = n"
  by (simp add: lword_def unsigned_of_nat take_bit_nat_eq_self)

text \<open>The bodies on a well-formed lock word.\<close>

lemma lword_eq_0: "n < 2 ^ 29 \<Longrightarrow> lword n ex w = 0 \<longleftrightarrow> n = 0 \<and> \<not> ex \<and> \<not> w"
  using lword_eq_iff [of n 0] by (simp add: lword_numerals(1))

lemma lock_ex_lword [lock_word]:
  "n < 2 ^ 29 \<Longrightarrow> hammer_lock_ex_ident own (lword n ex w) =
    (if n = 0 \<and> \<not> ex \<and> \<not> w then Cas No_Pre (lword 1 True False) (Own 0)
     else if ex \<and> own then Cas No_Pre (lword n ex w + 1) (Return 0) else Cas Interlock (lword n ex True) Sleep)"
  by (simp add: hammer_lock_ex_ident_def lword_eq_0 lword_set lword_numerals(4))

lemma lock_ex_try_lword [lock_word]:
  "n < 2 ^ 29 \<Longrightarrow> hammer_lock_ex_try own (lword n ex w) =
    (if n = 0 \<and> \<not> ex \<and> \<not> w then Cas No_Pre (lword 1 True False) (Own 0)
     else if ex \<and> own then Cas No_Pre (lword n ex w + 1) (Return 0) else Now EAGAIN)"
  by (simp add: hammer_lock_ex_try_def lword_eq_0 lword_numerals(4))

lemma lock_sh_lword [lock_word]:
  "n < 2 ^ 29 \<Longrightarrow> hammer_lock_sh own (lword n ex w) =
    (if \<not> ex \<or> own then Cas No_Pre (lword n ex w + 1) (Return 0) else Cas Interlock (lword n ex True) Sleep)"
  "n < 2 ^ 29 \<Longrightarrow> hammer_lock_sh_try own (lword n ex w) =
    (if \<not> ex \<or> own then Cas No_Pre (lword n ex w + 1) (Return 0) else Now EAGAIN)"
  by (simp_all add: hammer_lock_sh_def hammer_lock_sh_try_def lword_set)

lemma lock_upgrade_lword [lock_word]:
  assumes n: "n < 2 ^ 29" and c: "c < 2 ^ 29"
  shows "hammer_lock_upgrade c own (lword n ex w) =
    (if n = c \<and> \<not> ex then Cas No_Pre (lword n True w) (Own 0)
     else if ex then if own then Now 0 else Kpanic ''hammer_lock_upgrade: illegal state''
     else if n = 0 then Kpanic ''hammer_lock_upgrade: lock is not held'' else Now EDEADLK)"
  unfolding hammer_lock_upgrade_def lword_clear(1) [OF n] lword_set(2) [OF n] lword_numerals(3)
  by (auto simp: lword_eq_iff [OF n c] lword_eq_0 [OF n] lword_flags [OF n])

lemma lock_downgrade_lword [lock_word]:
  assumes n: "n < 2 ^ 29"
  shows "hammer_lock_downgrade own (lword n ex w) = Cas No_Pre (lword n False False) (if w then Wake 0 else Return 0)"
    and "c < 2 ^ 29 \<Longrightarrow> hammer_lock_downgrade_entry c own (lword n ex w) \<longleftrightarrow> n = c \<and> ex \<and> own"
  unfolding hammer_lock_downgrade_def hammer_lock_downgrade_entry_def lword_clear [OF n] lword_numerals(5)
  by (simp_all add: lword_eq_iff [OF n] lword_flags [OF n])

lemma unlock_lword [lock_word]:
  assumes n: "n < 2 ^ 29"
  shows "hammer_unlock own (lword n ex w) =
    (if n > 1 then Cas No_Pre (lword (n - 1) ex w) (Return 0)
     else if n = 1 then Cas (if ex then Clear_Owner else No_Pre) (lword 0 False False) (if w then Wake 0 else Return 0)
     else Kpanic ''hammer_unlock: lock is not held'')"
    and "hammer_unlock_entry own (lword n ex w) \<longleftrightarrow> (0 < n \<or> ex \<or> w) \<and> (ex \<longrightarrow> own)"
proof -
  have "lword n False False > 1 \<longleftrightarrow> n > 1" "lword n False False = 1 \<longleftrightarrow> n = 1"
    using n lword_plain [OF n] by (auto simp: word_less_nat_alt word_unat_eq_iff)
  then show "hammer_unlock own (lword n ex w) =
    (if n > 1 then Cas No_Pre (lword (n - 1) ex w) (Return 0)
     else if n = 1 then Cas (if ex then Clear_Owner else No_Pre) (lword 0 False False) (if w then Wake 0 else Return 0)
     else Kpanic ''hammer_unlock: lock is not held'')"
    unfolding hammer_unlock_def lword_clear [OF n] Let_def
    using n by (simp add: lword_dec lword_numerals(1) [symmetric])
  show "hammer_unlock_entry own (lword n ex w) \<longleftrightarrow> (0 < n \<or> ex \<or> w) \<and> (ex \<longrightarrow> own)"
    using n by (auto simp: hammer_unlock_entry_def lword_eq_0)
qed

lemma lock_status_lword [lock_word]:
  "n < 2 ^ 29 \<Longrightarrow> hammer_lock_status own (lword n ex w) =
    (if ex then Now 1 else if n = 0 \<and> \<not> w then Kpanic ''hammer_lock_status: lock must be held'' else Now (- 1))"
  by (simp add: hammer_lock_status_def lword_eq_0)

end
