(* ===== verification/Hammer_Lock_Inv.thy ===== *)
theory Hammer_Lock_Inv
  imports Hammer_Lock
begin

text \<open>
  The invariant of the HAMMER lock under arbitrary interleavings, and the interpretation of the compare-and-set
  protocol on its routines.
\<close>

unbundle bit_operations_syntax

definition holds_total :: "nat \<Rightarrow> holds \<Rightarrow> nat" where
  "holds_total N g = (\<Sum>t<N. exh g t + shh g t)"

text \<open>An exclusive holder is the only holder.\<close>

definition exclusive :: "nat \<Rightarrow> holds \<Rightarrow> bool" where
  "exclusive N g \<longleftrightarrow> (\<forall>t < N. 0 < exh g t \<longrightarrow> shh g t = 0 \<and> (\<forall>t' < N. t' \<noteq> t \<longrightarrow> exh g t' + shh g t' = 0))"

definition lock_global :: "nat \<Rightarrow> nat \<Rightarrow> u32 \<Rightarrow> nat option \<Rightarrow> holds \<Rightarrow> bool" where
  "lock_global R N v ow g \<longleftrightarrow>
     (\<exists>w. v = lword (holds_total N g) (\<exists>t < N. 0 < exh g t) w \<and> (w \<longrightarrow> 0 < holds_total N g)) \<and>
     exclusive N g \<and> (\<forall>t < N. exh g t + shh g t \<le> R) \<and> (\<forall>t. ow = Some t \<longrightarrow> t < N \<and> 0 < exh g t)"

text \<open>
  What a thread knows of a lock word it has read: it may be out of date, but not in the holds of the thread itself.
\<close>

definition lock_seen :: "nat \<Rightarrow> nat \<Rightarrow> u32 \<Rightarrow> holds \<Rightarrow> bool" where
  "lock_seen M t lv g \<longleftrightarrow> (\<exists>n ex w. lv = lword n ex w \<and> n \<le> M \<and> (ex \<or> w \<longrightarrow> 0 < n) \<and>
     exh g t + shh g t \<le> n \<and> (0 < exh g t \<longrightarrow> n = exh g t \<and> ex) \<and> (0 < shh g t \<longrightarrow> \<not> ex))"

text \<open>When the owner field must name the thread: not while it is being set or cleared.\<close>

fun owner_since :: "lock_op \<Rightarrow> nat" where
  "owner_since Unlock = 2"
| "owner_since _ = 1"

definition owner_ok :: "lock_op \<Rightarrow> nat \<Rightarrow> nat option \<Rightarrow> holds \<Rightarrow> bool" where
  "owner_ok op t ow g \<longleftrightarrow>
     (if \<exists>c. op = Downgrade c then ow \<noteq> Some t else owner_since op \<le> exh g t \<longrightarrow> ow = Some t)"

fun lock_local :: "nat \<Rightarrow> nat \<Rightarrow> nat \<Rightarrow> lock_op pc \<Rightarrow> nat option \<Rightarrow> holds \<Rightarrow> bool" where
  "lock_local R M t (Idle r) ow g = (0 < exh g t \<longrightarrow> ow = Some t)"
| "lock_local R M t (Entry op) ow g = ((0 < exh g t \<longrightarrow> ow = Some t) \<and> lock_can R op t g)"
| "lock_local R M t (Check op lv) ow g =
    ((0 < exh g t \<longrightarrow> ow = Some t) \<and> lock_can R op t g \<and> lock_seen M t lv g)"
| "lock_local R M t (Clear op) ow g = ((\<exists>c. op = Downgrade c) \<and> lock_can R op t g)"
| "lock_local R M t (Loop op) ow g = (owner_ok op t ow g \<and> lock_can R op t g)"
| "lock_local R M t (Test op lv) ow g = (owner_ok op t ow g \<and> lock_can R op t g \<and> lock_seen M t lv g)"
| "lock_local R M t (Pre op lv p nlv a) ow g =
    (owner_ok op t ow g \<and> lock_can R op t g \<and> lock_seen M t lv g \<and> lock_body op (0 < exh g t) lv = Cas p nlv a)"
| "lock_local R M t (Comp op lv nlv a) ow g =
    (owner_ok op t ow g \<and> lock_can R op t g \<and> lock_seen M t lv g \<and>
      (\<exists>p. lock_body op (0 < exh g t) lv = Cas p nlv a \<and> (p = Clear_Owner \<longrightarrow> ow \<noteq> Some t)))"
| "lock_local R M t (Set_Owner r) ow g = (0 < exh g t)"
| "lock_local R M t (Waking r) ow g = (exh g t = 0)"
| "lock_local R M t (Sleeping op) ow g = (lock_can R op t g \<and> exh g t + shh g t = 0 \<and> op \<in> {Lock_Ex, Lock_Sh})"
| "lock_local R M t (Panicked op) ow g = False"

section \<open>Counting\<close>

lemma upd_simps [simp]:
  "exh (g(t := x)) t' = (if t' = t then fst x else exh g t')" "shh (g(t := x)) t' = (if t' = t then snd x else shh g t')"
  by (simp_all add: exh_def shh_def)

lemma total_upd: "t < N \<Longrightarrow> holds_total N (g(t := (a, b))) + exh g t + shh g t = holds_total N g + a + b"
  by (simp add: holds_total_def sum.remove [of "{..<N}" t])

lemma total_ge: "t < N \<Longrightarrow> exh g t + shh g t \<le> holds_total N g"
  unfolding holds_total_def by (rule member_le_sum [of t "{..<N}" "\<lambda>t. exh g t + shh g t"]) auto

lemma total_le: "\<forall>t < N. exh g t + shh g t \<le> R \<Longrightarrow> holds_total N g \<le> N * R"
  unfolding holds_total_def using sum_bounded_above [of "{..<N}" "\<lambda>t. exh g t + shh g t" R] by simp

lemma total_room:
  assumes "t < N" "exh g t + shh g t < R" "\<forall>t < N. exh g t + shh g t \<le> R" shows "holds_total N g + 1 \<le> N * R"
proof -
  have "holds_total N (g(t := (exh g t + 1, shh g t))) \<le> N * R" using assms by (intro total_le) auto
  then show ?thesis using total_upd [OF assms(1), of g "exh g t + 1" "shh g t"] by simp
qed

lemma total_exclusive:
  assumes "exclusive N g" "t < N" "0 < exh g t"
  shows "holds_total N g = exh g t" and "shh g t = 0"
proof -
  show "shh g t = 0" using assms by (simp add: exclusive_def)
  moreover have "(\<Sum>t' \<in> {..<N} - {t}. exh g t' + shh g t') = 0"
    using assms by (auto simp: exclusive_def)
  ultimately show "holds_total N g = exh g t" using assms(2) by (simp add: holds_total_def sum.remove [of "{..<N}" t])
qed

lemma total_0: "holds_total N g = 0 \<Longrightarrow> t < N \<Longrightarrow> exh g t = 0 \<and> shh g t = 0"
  using total_ge [of t N g] by simp

lemma lock_upd_other [simp]: "t' \<noteq> t \<Longrightarrow> lock_upd op t lv a g t' = g t'"
  by (cases "(op, t, lv, a, g)" rule: lock_upd.cases) auto

lemma lock_local_frame:
  assumes "g' t = g t" and "ow' = Some t \<longleftrightarrow> ow = Some t"
  shows "lock_local R M t p ow' g' \<longleftrightarrow> lock_local R M t p ow g"
proof -
  have e: "exh g' t = exh g t" "shh g' t = shh g t" using assms(1) by (simp_all add: exh_def shh_def)
  have can: "lock_can R op t g' = lock_can R op t g" for op by (cases op) (simp_all add: e)
  show ?thesis by (cases p) (simp_all add: e can assms(2) owner_ok_def lock_seen_def)
qed

section \<open>A successful compare-and-set\<close>

lemma lock_seen_current:
  assumes "lock_global R N v ow g" "t < N" shows "lock_seen (N * R) t v g"
proof -
  from assms(1) obtain w where v: "v = lword (holds_total N g) (\<exists>t < N. 0 < exh g t) w" and w: "w \<longrightarrow> 0 < holds_total N g"
    by (auto simp: lock_global_def)
  have ex: "exclusive N g" and le: "holds_total N g \<le> N * R" using assms total_le [of N g R] by (auto simp: lock_global_def)
  have "(\<exists>t < N. 0 < exh g t) \<longrightarrow> 0 < holds_total N g" using total_0 [of N g] by fastforce
  moreover have "0 < shh g t \<longrightarrow> \<not> (\<exists>t < N. 0 < exh g t)"
    using ex assms(2) unfolding exclusive_def by (metis add_is_0 less_irrefl)
  ultimately show ?thesis
    unfolding lock_seen_def using v w le total_ge [OF assms(2), of g] total_exclusive [OF ex assms(2)] assms(2)
    by (intro exI [of _ "holds_total N g"] exI [of _ "\<exists>t < N. 0 < exh g t"] exI [of _ w]) auto
qed

definition alone :: "nat \<Rightarrow> nat \<Rightarrow> holds \<Rightarrow> bool" where
  "alone N t g \<longleftrightarrow> (\<forall>t' < N. t' \<noteq> t \<longrightarrow> exh g t' + shh g t' = 0)"

lemma alone_total: "t < N \<Longrightarrow> alone N t g \<longleftrightarrow> holds_total N g = exh g t + shh g t"
  unfolding alone_def holds_total_def by (simp add: sum.remove [of "{..<N}" t]) blast

lemma alone_upd: "alone N t (g(t := x)) \<longleftrightarrow> alone N t g"
  by (auto simp: alone_def)

lemma lock_globalI:
  "holds_total N g = n \<Longrightarrow> (\<exists>t < N. 0 < exh g t) = ex \<Longrightarrow> (w \<longrightarrow> 0 < n) \<Longrightarrow> exclusive N g \<Longrightarrow>
    \<forall>t < N. exh g t + shh g t \<le> R \<Longrightarrow> \<forall>t. ow = Some t \<longrightarrow> t < N \<and> 0 < exh g t \<Longrightarrow> lock_global R N (lword n ex w) ow g"
  unfolding lock_global_def by blast

lemma global_alone:
  assumes G: "lock_global R N v ow g" and t: "t < N" and al: "alone N t g"
    and e: "e = 0 \<or> h = 0" "e + h \<le> R" "w \<longrightarrow> 0 < e + h" "\<forall>x. ow = Some x \<longrightarrow> x = t \<and> 0 < e"
  shows "lock_global R N (lword (e + h) (0 < e) w) ow (g(t := (e, h)))"
proof -
  let ?g = "g(t := (e, h))"
  have al': "\<And>t'. t' < N \<Longrightarrow> t' \<noteq> t \<Longrightarrow> exh g t' = 0 \<and> shh g t' = 0" using al by (simp add: alone_def)
  have "holds_total N ?g = e + h" using alone_total [OF t, of ?g] al alone_upd by simp
  moreover have "(\<exists>t' < N. 0 < exh ?g t') \<longleftrightarrow> 0 < e" using t al' by (auto split: if_splits)
  moreover have "exclusive N ?g" using e(1) al' by (auto simp: exclusive_def)
  moreover have "\<forall>t' < N. exh ?g t' + shh ?g t' \<le> R" using e(2) al' by auto
  ultimately show ?thesis using e(3,4) t by (intro lock_globalI) auto
qed

lemma global_shared:
  assumes G: "lock_global R N v ow g" and t: "t < N" and ne: "\<not> (\<exists>t' < N. 0 < exh g t')"
    and h: "h \<le> R" "n + shh g t = holds_total N g + h" "w \<longrightarrow> 0 < n"
  shows "lock_global R N (lword n False w) ow (g(t := (0, h)))"
proof -
  let ?g = "g(t := (0, h))"
  have "holds_total N ?g = n" using total_upd [OF t, of g 0 h] ne t h(2) by auto
  moreover have "(\<exists>t' < N. 0 < exh ?g t') = False" using ne by auto
  moreover have "exclusive N ?g" using ne by (auto simp: exclusive_def)
  moreover have "\<forall>t' < N. exh ?g t' + shh ?g t' \<le> R" using h(1) G by (auto simp: lock_global_def)
  moreover have "ow = None" using G ne by (cases ow) (auto simp: lock_global_def)
  ultimately show ?thesis using h(3) by (intro lock_globalI) simp_all
qed

lemma lock_globalE:
  assumes "lock_global R N v ow g" "N * R < 2 ^ 29"
  obtains w where "v = lword (holds_total N g) (\<exists>t < N. 0 < exh g t) w" "w \<longrightarrow> 0 < holds_total N g"
    "holds_total N g < 2 ^ 29" "exclusive N g"
proof -
  have "holds_total N g \<le> N * R" using assms(1) by (intro total_le) (simp add: lock_global_def)
  then have "holds_total N g < 2 ^ 29" using assms(2) by linarith
  then show ?thesis using assms(1) that by (auto simp: lock_global_def)
qed

lemma global_wanted:
  "lock_global R N v ow g \<Longrightarrow> 0 < holds_total N g \<Longrightarrow>
    lock_global R N (lword (holds_total N g) (\<exists>t < N. 0 < exh g t) True) ow g"
  by (rule lock_globalI) (auto simp: lock_global_def)

text \<open>Facts on the thread that runs, under the global invariant.\<close>

lemma holder_alone:
  assumes "exclusive N g" "t < N" "0 < exh g t" shows "alone N t g"
  using assms unfolding exclusive_def alone_def by blast

definition comp_ok :: "nat \<Rightarrow> nat \<Rightarrow> nat \<Rightarrow> lock_op \<Rightarrow> u32 \<Rightarrow> u32 \<Rightarrow> lock_op after \<Rightarrow> nat option \<Rightarrow> holds \<Rightarrow> bool" where
  "comp_ok R N t op v nlv a ow g \<longleftrightarrow>
     lock_global R N nlv ow (lock_upd op t v a g) \<and>
     lock_local R (N * R) t (after_pc op a) ow (lock_upd op t v a g)"

lemma comp_alone:
  assumes "lock_global R N v ow g" "t < N" "alone N t g"
    and "lock_upd op t v a g = g(t := (e, h))" "nlv = lword (e + h) (0 < e) w"
    and "e = 0 \<or> h = 0" "e + h \<le> R" "w \<longrightarrow> 0 < e + h" "\<forall>x. ow = Some x \<longrightarrow> x = t \<and> 0 < e"
    and "lock_local R (N * R) t (after_pc op a) ow (g(t := (e, h)))"
  shows "comp_ok R N t op v nlv a ow g"
  unfolding comp_ok_def assms(4,5) using global_alone [OF assms(1-3,6-9)] assms(10) by blast

lemma comp_shared:
  assumes "lock_global R N v ow g" "t < N" "\<not> (\<exists>t' < N. 0 < exh g t')"
    and "lock_upd op t v a g = g(t := (0, h))" "nlv = lword n False w"
    and "h \<le> R" "n + shh g t = holds_total N g + h" "w \<longrightarrow> 0 < n"
    and "lock_local R (N * R) t (after_pc op a) ow (g(t := (0, h)))"
  shows "comp_ok R N t op v nlv a ow g"
  unfolding comp_ok_def assms(4,5) using global_shared [OF assms(1-3,6-8)] assms(9) by blast

lemma lock_comp_ex:
  assumes NR: "N * R < 2 ^ 29" and t: "t < N" and G: "lock_global R N v ow g"
    and op: "op = Lock_Ex \<or> op = Lock_Ex_Try"
    and can: "lock_can R op t g" and ow: "0 < exh g t \<longrightarrow> ow = Some t"
    and b: "lock_body op (0 < exh g t) v = Cas p nlv a"
  shows "comp_ok R N t op v nlv a ow g"
proof -
  obtain w where v: "v = lword (holds_total N g) (\<exists>t < N. 0 < exh g t) w"
    and w: "w \<longrightarrow> 0 < holds_total N g" and n: "holds_total N g < 2 ^ 29" and ex: "exclusive N g"
    using lock_globalE [OF G NR] .
  have R1: "exh g t + 1 \<le> R" using can op by auto
  have ow': "\<forall>x. ow = Some x \<longrightarrow> x < N \<and> 0 < exh g x" using G by (simp add: lock_global_def)
  consider (free) "holds_total N g = 0" | (own) "0 < holds_total N g" "0 < exh g t"
    | (busy) "0 < holds_total N g" "exh g t = 0" by fastforce
  then show ?thesis
  proof cases
    case free
    then have z: "exh g t' = 0" "shh g t' = 0" if "t' < N" for t' using total_0 that by blast+
    have "ow = None" using ow' z by (cases ow) auto
    moreover have a: "nlv = lword (1 + 0) (0 < (1 :: nat)) False" "a = Own 0" "lock_upd op t v a g = g(t := (1, 0))"
      using b op free w z t n by (auto simp: v lock_word)
    moreover have "alone N t g" using z by (simp add: alone_def)
    ultimately show ?thesis using R1 by (intro comp_alone [OF G t _ a(3,1)]) simp_all
  next
    case own
    then have ex1: "\<exists>t < N. 0 < exh g t" using t by blast
    note te = total_exclusive [OF ex t own(2)]
    have room: "exh g t + 1 < 2 ^ 29" using total_room [OF t, of g R] G R1 te NR by (auto simp: lock_global_def)
    have a: "nlv = lword (exh g t + 1 + 0) (0 < exh g t + 1) w" "a = Return 0"
      "lock_upd op t v a g = g(t := (exh g t + 1, 0))"
      using b op own te n ex1 lword_inc [of "exh g t" True w] room
      by (auto simp: v lock_word split: if_splits)
    show ?thesis
      by (rule comp_alone [OF G t holder_alone [OF ex t own(2)] a(3,1)]) (use R1 ow own in \<open>simp_all add: a(2)\<close>)
  next
    case busy
    then have "nlv = lword (holds_total N g) (\<exists>t < N. 0 < exh g t) True" "a = Sleep" "op = Lock_Ex"
      using b op n by (auto simp: v lock_word split: if_splits)
    then show ?thesis using global_wanted [OF G busy(1)] can busy by (simp add: comp_ok_def)
  qed
qed

lemma lock_comp_sh:
  assumes NR: "N * R < 2 ^ 29" and t: "t < N" and G: "lock_global R N v ow g"
    and op: "op = Lock_Sh \<or> op = Lock_Sh_Try"
    and can: "lock_can R op t g" and ow: "0 < exh g t \<longrightarrow> ow = Some t"
    and b: "lock_body op (0 < exh g t) v = Cas p nlv a"
  shows "comp_ok R N t op v nlv a ow g"
proof -
  obtain w where v: "v = lword (holds_total N g) (\<exists>t < N. 0 < exh g t) w"
    and w: "w \<longrightarrow> 0 < holds_total N g" and n: "holds_total N g < 2 ^ 29" and ex: "exclusive N g"
    using lock_globalE [OF G NR] .
  have R1: "exh g t + shh g t < R" using can op by auto
  have room: "holds_total N g + 1 < 2 ^ 29" using total_room [OF t R1] G NR by (auto simp: lock_global_def)
  consider (shared) "\<not> (\<exists>t < N. 0 < exh g t)" | (own) "0 < exh g t"
    | (busy) "\<exists>t < N. 0 < exh g t" "exh g t = 0" by fastforce
  then show ?thesis
  proof cases
    case shared
    then have "exh g t = 0" using t by simp
    then have a: "nlv = lword (holds_total N g + 1) False w" "a = Return 0"
      "lock_upd op t v a g = g(t := (0, shh g t + 1))"
      using b op shared n room lword_inc [of "holds_total N g" False w] by (auto simp: v lock_word)
    show ?thesis by (rule comp_shared [OF G t shared a(3,1)]) (use R1 in \<open>simp_all add: a(2)\<close>)
  next
    case own
    then have ex1: "\<exists>t < N. 0 < exh g t" using t by blast
    note te = total_exclusive [OF ex t own]
    have a: "nlv = lword (exh g t + 1 + 0) (0 < exh g t + 1) w" "a = Return 0"
      "lock_upd op t v a g = g(t := (exh g t + 1, 0))"
      using b op own te n ex1 lword_inc [of "exh g t" True w] room
      by (auto simp: v lock_word split: if_splits)
    show ?thesis
      by (rule comp_alone [OF G t holder_alone [OF ex t own] a(3,1)]) (use R1 ow own in \<open>simp_all add: a(2)\<close>)
  next
    case busy
    then obtain t' where t': "t' < N" "0 < exh g t'" by blast
    have "t \<noteq> t'" using t' busy(2) by auto
    then have "shh g t = 0" using holder_alone [OF ex t'] t by (simp add: alone_def)
    moreover have "0 < holds_total N g" using total_exclusive(1) [OF ex t'] t' by simp
    moreover have "nlv = lword (holds_total N g) (\<exists>t < N. 0 < exh g t) True" "a = Sleep" "op = Lock_Sh"
      using b op busy n by (auto simp: v lock_word split: if_splits)
    ultimately show ?thesis using global_wanted [OF G] can busy(2) by (simp add: comp_ok_def)
  qed
qed

lemma lock_comp_upgrade:
  assumes NR: "N * R < 2 ^ 29" and t: "t < N" and G: "lock_global R N v ow g"
    and can: "lock_can R (Upgrade c) t g"
    and b: "lock_body (Upgrade c) (0 < exh g t) v = Cas p nlv a"
  shows "comp_ok R N t (Upgrade c) v nlv a ow g"
proof -
  obtain w where v: "v = lword (holds_total N g) (\<exists>t < N. 0 < exh g t) w"
    and w: "w \<longrightarrow> 0 < holds_total N g" and n: "holds_total N g < 2 ^ 29" and ex: "exclusive N g"
    using lock_globalE [OF G NR] .
  have c1: "0 < c" "c \<le> R" using can by auto
  have "1 * R \<le> N * R" using t by (intro mult_le_mono1) simp
  with c1 NR have c: "0 < c" "c \<le> R" "c < 2 ^ 29" by linarith+
  have ne: "\<not> (\<exists>t < N. 0 < exh g t)" and a: "holds_total N g = c" "nlv = lword c True w" "a = Own 0"
    using b n c by (auto simp: v lock_word split: if_splits)
  then have h: "exh g t = 0" "shh g t = c" using can t by auto
  have "ow = None" using G ne by (cases ow) (auto simp: lock_global_def)
  moreover have "alone N t g" using alone_total [OF t, of g] a h by simp
  ultimately show ?thesis using a h c by (intro comp_alone [OF G t, where e = c and h = 0 and w = w]) simp_all
qed

lemma lock_comp_downgrade:
  assumes NR: "N * R < 2 ^ 29" and t: "t < N" and G: "lock_global R N v ow g"
    and can: "lock_can R (Downgrade c) t g" and ow: "ow \<noteq> Some t"
    and b: "lock_body (Downgrade c) (0 < exh g t) v = Cas p nlv a"
  shows "comp_ok R N t (Downgrade c) v nlv a ow g"
proof -
  obtain w where v: "v = lword (holds_total N g) (\<exists>t < N. 0 < exh g t) w"
    and w: "w \<longrightarrow> 0 < holds_total N g" and n: "holds_total N g < 2 ^ 29" and ex: "exclusive N g"
    using lock_globalE [OF G NR] .
  have e: "0 < exh g t" "exh g t = c" using can by auto
  note al = holder_alone [OF ex t e(1)] and te = total_exclusive [OF ex t e(1)]
  have "x = t" if "ow = Some x" for x using al that G e by (fastforce simp: alone_def lock_global_def)
  then have "ow = None" using ow by (cases ow) auto
  moreover have "nlv = lword c False False" "a = (if w then Wake 0 else Return 0)"
    using b te e n by (auto simp: v lock_word)
  moreover have "c \<le> R" using G t e by (auto simp: lock_global_def)
  ultimately show ?thesis using e
    by (intro comp_alone [OF G t al, where e = 0 and h = c and w = False]) simp_all
qed

lemma lock_comp_unlock:
  assumes NR: "N * R < 2 ^ 29" and t: "t < N" and G: "lock_global R N v ow g"
    and can: "lock_can R Unlock t g" and ow: "2 \<le> exh g t \<longrightarrow> ow = Some t"
    and b: "lock_body Unlock (0 < exh g t) v = Cas p nlv a" and p: "p = Clear_Owner \<longrightarrow> ow \<noteq> Some t"
  shows "comp_ok R N t Unlock v nlv a ow g"
proof -
  obtain w where v: "v = lword (holds_total N g) (\<exists>t < N. 0 < exh g t) w"
    and w: "w \<longrightarrow> 0 < holds_total N g" and n: "holds_total N g < 2 ^ 29" and ex: "exclusive N g"
    using lock_globalE [OF G NR] .
  have R1: "exh g t + shh g t \<le> R" using G t by (simp add: lock_global_def)
  have owx: "\<forall>x. ow = Some x \<longrightarrow> x < N \<and> 0 < exh g x" using G by (simp add: lock_global_def)
  show ?thesis
  proof (cases "0 < exh g t")
    case True
    note al = holder_alone [OF ex t True] and te = total_exclusive [OF ex t True]
    have ex1: "\<exists>t < N. 0 < exh g t" using t True by blast
    have xt: "x = t" if "ow = Some x" for x using al that owx by (fastforce simp: alone_def)
    have u: "lock_upd Unlock t v a g = g(t := (exh g t - 1, 0))" "a \<noteq> Sleep"
      using b te n ex1 by (auto simp: v lock_word split: if_splits)
    show ?thesis
    proof (cases "exh g t = 1")
      case one: True
      then have "ow = None" using b p xt ex1 te n by (cases ow) (auto simp: v lock_word)
      moreover have "nlv = lword 0 False False" "a = (if w then Wake 0 else Return 0)"
        using b te one n by (auto simp: v lock_word)
      ultimately show ?thesis using u one
        by (intro comp_alone [OF G t al, where e = 0 and h = 0 and w = False]) simp_all
    next
      case False
      then have "nlv = lword (exh g t - 1) True w" "a = Return 0" "ow = Some t"
        using b te True n ex1 ow by (auto simp: v lock_word split: if_splits)
      then show ?thesis using False True R1
        by (intro comp_alone [OF G t al u(1), where w = w]) simp_all
    qed
  next
    case False
    then have sh: "0 < shh g t" using can by auto
    then have ne: "\<not> (\<exists>t < N. 0 < exh g t)"
      using ex t unfolding exclusive_def by (metis add_is_0 less_irrefl)
    have ge: "shh g t \<le> holds_total N g" using total_ge [OF t, of g] by simp
    have u: "lock_upd Unlock t v a g = g(t := (0, shh g t - 1))"
      using b n ne False by (auto simp: v lock_word split: if_splits)
    show ?thesis
    proof (cases "holds_total N g = 1")
      case True
      then have "nlv = lword 0 False False" "a = (if w then Wake 0 else Return 0)" using b n by (auto simp: v lock_word)
      then show ?thesis using R1 True sh ge by (intro comp_shared [OF G t ne u, where n = 0 and w = False]) simp_all
    next
      case m: False
      then have "nlv = lword (holds_total N g - 1) False w" "a = Return 0"
        using b n ne sh ge by (auto simp: v lock_word split: if_splits)
      then show ?thesis using R1 m sh ge
        by (intro comp_shared [OF G t ne u, where n = "holds_total N g - 1" and w = w]) simp_all
    qed
  qed
qed

lemma lock_comp_status:
  assumes "N * R < 2 ^ 29" "lock_global R N v ow g" shows "lock_body Status own v \<noteq> Cas p nlv a"
proof -
  obtain w where "v = lword (holds_total N g) (\<exists>t < N. 0 < exh g t) w" "holds_total N g < 2 ^ 29"
    using lock_globalE [OF assms(2,1)] .
  then show ?thesis by (auto simp: lock_word)
qed

lemma lock_comp:
  assumes "N * R < 2 ^ 29" "t < N" "lock_global R N v ow g" "lock_local R (N * R) t (Comp op v nlv a) ow g"
  shows "comp_ok R N t op v nlv a ow g"
proof -
  obtain p where can: "lock_can R op t g" and ok: "owner_ok op t ow g"
    and b: "lock_body op (0 < exh g t) v = Cas p nlv a" "p = Clear_Owner \<longrightarrow> ow \<noteq> Some t"
    using assms(4) by auto
  show ?thesis
  proof (cases op)
    case (Upgrade c)
    then show ?thesis using lock_comp_upgrade [OF assms(1-3)] can b by blast
  next
    case (Downgrade c)
    then show ?thesis using lock_comp_downgrade [OF assms(1-3)] can b ok by (simp add: owner_ok_def)
  next
    case Unlock
    then show ?thesis using lock_comp_unlock [OF assms(1-3)] can b ok by (simp add: owner_ok_def)
  next
    case Status
    then show ?thesis using lock_comp_status [OF assms(1,3)] b(1) by simp
  qed (use lock_comp_ex [OF assms(1-3)] lock_comp_sh [OF assms(1-3)] can b ok in \<open>simp_all add: owner_ok_def\<close>)
qed

section \<open>The decisions\<close>

lemma lock_body_own: "op = Unlock \<or> (\<exists>c. op = Downgrade c) \<Longrightarrow> lock_body op own lv = lock_body op own' lv"
  by (auto simp: hammer_unlock_def hammer_lock_downgrade_def)

lemma lock_seenE:
  assumes "lock_seen M t lv g" "M < 2 ^ 29"
  obtains n ex w where "lv = lword n ex w" "n < 2 ^ 29" "n \<le> M" "ex \<or> w \<longrightarrow> 0 < n" "exh g t + shh g t \<le> n"
    "0 < exh g t \<longrightarrow> n = exh g t \<and> ex" "0 < shh g t \<longrightarrow> \<not> ex"
  using assms by (auto simp: lock_seen_def)

text \<open>A routine called by the rules never panics, and returns without a change only when it may.\<close>

lemma lock_body_safe:
  assumes M: "M < 2 ^ 29" "R \<le> M" and can: "lock_can R op t g" and seen: "lock_seen M t lv g"
  shows "lock_body op (0 < exh g t) lv \<noteq> Kpanic m"
    and "lock_body op (0 < exh g t) lv = Now r \<Longrightarrow> op \<noteq> Unlock \<and> (\<forall>c. op \<noteq> Downgrade c)"
proof -
  obtain n ex w where lv: "lv = lword n ex w" "n < 2 ^ 29" "ex \<or> w \<longrightarrow> 0 < n" "exh g t + shh g t \<le> n"
    "0 < exh g t \<longrightarrow> n = exh g t \<and> ex" "0 < shh g t \<longrightarrow> \<not> ex" using lock_seenE [OF seen M(1)] .
  have c: "c < 2 ^ 29" if "op = Upgrade c" for c using can that M by auto
  show "lock_body op (0 < exh g t) lv \<noteq> Kpanic m"
    using can lv(2-) c by (cases op) (auto simp: lv(1) lock_word split: if_splits)
  show "lock_body op (0 < exh g t) lv = Now r \<Longrightarrow> op \<noteq> Unlock \<and> (\<forall>c. op \<noteq> Downgrade c)"
    using lv(2) by (cases op) (auto simp: lv(1) lock_word split: if_splits)
qed

lemma lock_test:
  assumes M: "M < 2 ^ 29" "R \<le> M" and L: "lock_local R M t (Test op lv) ow g" and ow: "ow = Some t \<longrightarrow> 0 < exh g t"
  shows "lock_local R M t (attempt_pc op lv (lock_body op (ow = Some t) lv)) ow g"
proof -
  have can: "lock_can R op t g" and seen: "lock_seen M t lv g" and ok: "owner_ok op t ow g" using L by auto
  have own: "(ow = Some t) = (0 < exh g t)" if "op \<noteq> Unlock \<and> (\<forall>c. op \<noteq> Downgrade c)"
    using that ok ow by (cases op) (auto simp: owner_ok_def)
  have b: "lock_body op (ow = Some t) lv = lock_body op (0 < exh g t) lv"
    using own lock_body_own [of op] by (cases "op = Unlock \<or> (\<exists>c. op = Downgrade c)") auto
  note safe = lock_body_safe [OF M can seen]
  show ?thesis
  proof (cases "lock_body op (0 < exh g t) lv")
    case (Now r)
    then show ?thesis using b own safe(2) by auto
  next
    case (Kpanic m)
    then show ?thesis using safe(1) by simp
  next
    case (Cas p nlv a)
    then show ?thesis using b ok can seen by (auto split: if_splits)
  qed
qed

lemma lock_check:
  assumes M: "M < 2 ^ 29" "R \<le> M" and refs: "refs \<noteq> 0"
    and L: "lock_local R M t (Check op lv) ow g" and ow: "ow = Some t \<longrightarrow> 0 < exh g t"
  shows "lock_entry refs op (ow = Some t) lv"
proof -
  have can: "lock_can R op t g" and own: "(ow = Some t) = (0 < exh g t)" and seen: "lock_seen M t lv g"
    using L ow by auto
  obtain n ex w where lv: "lv = lword n ex w" "n < 2 ^ 29" "exh g t + shh g t \<le> n"
    "0 < exh g t \<longrightarrow> n = exh g t \<and> ex" "0 < shh g t \<longrightarrow> \<not> ex" using lock_seenE [OF seen M(1)] .
  have "c < 2 ^ 29" if "op = Downgrade c" for c using can that lv by auto
  then show ?thesis
    using can lv(2-) refs unfolding own by (cases op) (auto simp: lv(1) lock_word)
qed

lemmas lock_bodies = hammer_lock_ex_ident_def hammer_lock_ex_try_def hammer_lock_sh_def hammer_lock_sh_try_def
  hammer_lock_upgrade_def hammer_lock_downgrade_def hammer_unlock_def hammer_lock_status_def

lemma lock_clear_unlock: "lock_body op own lv = Cas Clear_Owner nlv a \<Longrightarrow> op = Unlock"
  by (cases op) (auto simp: lock_bodies split: if_splits)

lemma lock_pre:
  assumes M: "M < 2 ^ 29" and L: "lock_local R M t (Pre op lv p nlv a) ow g"
  shows "lock_local R M t (Comp op lv nlv a) (if p = Clear_Owner then None else ow) g"
proof (cases "p = Clear_Owner")
  case True
  have seen: "lock_seen M t lv g" and can: "lock_can R op t g" and b: "lock_body op (0 < exh g t) lv = Cas p nlv a"
    using L by auto
  obtain n ex w where lv: "lv = lword n ex w" "n < 2 ^ 29" "0 < exh g t \<longrightarrow> n = exh g t \<and> ex"
    using lock_seenE [OF seen M] .
  have "op = Unlock" using b True lock_clear_unlock by blast
  moreover have "exh g t \<le> 1" using b True lv(2,3) calculation by (auto simp: lv(1) lock_word split: if_splits)
  ultimately show ?thesis using True seen can b by (simp add: owner_ok_def)
qed (use L in auto)

section \<open>The protocol\<close>

definition lock_inv :: "u32 \<Rightarrow> nat \<Rightarrow> nat \<Rightarrow> nat \<Rightarrow> lock_op pc \<Rightarrow> nat option \<Rightarrow> holds \<Rightarrow> bool" where
  "lock_inv refs R N t p ow g \<longleftrightarrow>
     lock_local R (N * R) t p ow g \<and> ((\<exists>r. p = Idle r) \<or> lock_usable refs R N)"

lemma lock_usableE:
  assumes "lock_usable refs R N" "t < N" shows "N * R < 2 ^ 29" "R \<le> N * R" "refs \<noteq> 0" "N * R + 1 < 2 ^ 29"
  using assms by (auto simp: lock_usable_def)

lemma lock_code_simps [simp]:
  "cc_entry (lock_code refs R N) = lock_entry refs" "cc_body (lock_code refs R N) = lock_body"
  "cc_upd (lock_code refs R N) = lock_upd" "cc_clear (lock_code refs R N) op \<longleftrightarrow> (\<exists>c. op = Downgrade c)"
  "cc_can (lock_code refs R N) op t g \<longleftrightarrow> lock_usable refs R N \<and> lock_can R op t g"
  by (auto simp: lock_code_def split: lock_op.splits)

lemma global_owner:
  "lock_global R N v ow g \<Longrightarrow> ow = Some t \<Longrightarrow> t < N \<and> 0 < exh g t"
  "lock_global R N v ow g \<Longrightarrow> lock_global R N v None g"
  "lock_global R N v ow g \<Longrightarrow> t < N \<Longrightarrow> 0 < exh g t \<Longrightarrow> lock_global R N v (Some t) g"
  by (auto simp: lock_global_def)

lemma lock_step_own:
  assumes t: "t < N" and inv: "inv_upto (lock_global R N) (lock_inv refs R N) N s"
    and st: "cas_step (lock_code refs R N) t s = Some s'"
  shows "lock_global R N (cs_val s') (cs_owner s') (cs_ghost s') \<and>
    lock_inv refs R N t (cs_pc s' t) (cs_owner s') (cs_ghost s')"
proof -
  let ?g = "cs_ghost s" and ?ow = "cs_owner s" and ?M = "N * R"
  have G: "lock_global R N (cs_val s) ?ow ?g" and L: "lock_local R ?M t (cs_pc s t) ?ow ?g"
    using inv t by (auto simp: inv_upto_def lock_inv_def)
  have "lock_usable refs R N" using inv t st by (auto simp: inv_upto_def lock_inv_def cas_step_def)
  note u = this lock_usableE [OF this t]
  note seen = lock_seen_current [OF G t] and ow = global_owner(1) [OF G, of t]
  have pc: "cs_pc s t = p \<Longrightarrow> lock_local R ?M t p ?ow ?g" for p using L by simp
  show ?thesis
  proof (cases "cs_pc s t")
    case (Check op lv)
    then show ?thesis
      using st G pc [OF Check] lock_check [OF u(2,3,4) pc [OF Check]] ow u(1)
      by (auto simp: cas_step_def lock_inv_def owner_ok_def split: if_splits) (cases op; simp)+
  next
    case (Test op lv)
    then show ?thesis
      using st G lock_test [OF u(2,3) pc [OF Test]] ow u(1) by (auto simp: cas_step_def lock_inv_def)
  next
    case (Comp op lv nlv a)
    then show ?thesis
      using st G pc [OF Comp] lock_comp [OF u(2) t, of lv ?ow ?g op nlv a] u(1)
      by (auto simp: cas_step_def lock_inv_def comp_ok_def split: if_splits)
  next
    case (Pre op lv p nlv a)
    then show ?thesis
      using st G lock_pre [OF u(2) pc [OF Pre]] u(1) global_owner(2) [OF G]
      by (auto simp: cas_step_def lock_inv_def split: if_splits)
  qed (use st G L u(1) seen global_owner [OF G] t in
      \<open>auto simp: cas_step_def lock_inv_def owner_ok_def split: if_splits\<close>)
qed

lemma lock_step_frame:
  assumes t: "t < N" and inv: "inv_upto (lock_global R N) (lock_inv refs R N) N s"
    and st: "cas_step (lock_code refs R N) t s = Some s'" and t': "t' < N" "t' \<noteq> t"
  shows "cs_ghost s' t' = cs_ghost s t'" and "cs_owner s' = Some t' \<longleftrightarrow> cs_owner s = Some t'"
proof -
  let ?g = "cs_ghost s" and ?ow = "cs_owner s"
  have G: "lock_global R N (cs_val s) ?ow ?g" and L: "lock_local R (N * R) t (cs_pc s t) ?ow ?g"
    using inv t by (auto simp: inv_upto_def lock_inv_def)
  have usable: "lock_usable refs R N" using inv t st by (auto simp: inv_upto_def lock_inv_def cas_step_def)
  show "cs_ghost s' t' = cs_ghost s t'"
    using st t'(2) by (auto simp: cas_step_def split: pc.splits if_splits)
  have "exclusive N ?g" using G by (simp add: lock_global_def)
  then have "cs_owner s \<noteq> Some t'" if "0 < exh ?g t"
    using holder_alone [OF _ t that] global_owner(1) [OF G, of t'] t' by (auto simp: alone_def)
  moreover have "0 < exh ?g t" if "cs_owner s' \<noteq> ?ow"
  proof (cases "cs_pc s t")
    case (Clear op)
    then show ?thesis using L by auto
  next
    case (Pre op lv p nlv a)
    then have p: "p = Clear_Owner" using st that by (auto simp: cas_step_def split: if_splits)
    have seen: "lock_seen (N * R) t lv ?g" and can: "lock_can R op t ?g"
      and b: "lock_body op (0 < exh ?g t) lv = Cas p nlv a" using L Pre by auto
    obtain n ex w where lv: "lv = lword n ex w" "n < 2 ^ 29" "0 < shh ?g t \<longrightarrow> \<not> ex"
      using lock_seenE [OF seen lock_usableE(1) [OF usable t]] .
    have op: "op = Unlock" using lock_clear_unlock b p by blast
    then have ex using b lv(2) p by (auto simp: lv(1) lock_word split: if_splits)
    then show ?thesis using lv(3) can op by auto
  next
    case (Set_Owner r)
    then show ?thesis using L by simp
  qed (use st that in \<open>auto simp: cas_step_def split: if_splits\<close>)
  ultimately show "cs_owner s' = Some t' \<longleftrightarrow> cs_owner s = Some t'"
    using st t'(2) by (auto simp: cas_step_def split: pc.splits if_splits)
qed

lemma lock_wanted:
  assumes u: "lock_usable refs R N" and t: "t < N" and L: "lock_local R (N * R) t (Comp op v nlv a) ow g"
  shows "a = Sleep \<Longrightarrow> nlv AND HAMMER_LOCKF_WANTED \<noteq> 0"
    and "v AND HAMMER_LOCKF_WANTED \<noteq> 0 \<Longrightarrow> nlv AND HAMMER_LOCKF_WANTED = 0 \<Longrightarrow> \<exists>r. a = Wake r"
proof -
  note u = lock_usableE [OF u t]
  obtain p where can: "lock_can R op t g" and seen: "lock_seen (N * R) t v g"
    and b: "lock_body op (0 < exh g t) v = Cas p nlv a" using L by auto
  obtain n ex w where lv: "v = lword n ex w" "n < 2 ^ 29" "n \<le> N * R"
    using lock_seenE [OF seen u(1)] .
  have n: "n + 1 < 2 ^ 29" "n - 1 < 2 ^ 29" using lv(2,3) u(4) by auto
  note w = lword_inc [OF n(1)] lword_flags(2) [OF n(1)] lword_flags(2) [OF n(2)] lword_flags(2) [OF lv(2)]
    lword_flags(2) [of 1]
  have "R < 2 ^ 29" using u(1,2) by linarith
  then have c: "c < 2 ^ 29" if "op = Upgrade c" for c using can that by auto
  show "a = Sleep \<Longrightarrow> nlv AND HAMMER_LOCKF_WANTED \<noteq> 0"
    using b lv(2) n(1) c by (cases op) (auto simp: lv(1) lock_word w split: if_splits)
  show "v AND HAMMER_LOCKF_WANTED \<noteq> 0 \<Longrightarrow> nlv AND HAMMER_LOCKF_WANTED = 0 \<Longrightarrow> \<exists>r. a = Wake r"
    using b lv(2) n(1) c by (cases op) (auto simp: lv(1) lock_word w split: if_splits)
qed

interpretation lk: cas_protocol "lock_code refs R N" no_holds N "lock_global R N" "lock_inv refs R N"
  HAMMER_LOCKF_WANTED for refs R N
proof unfold_locales
  show "lock_global R N 0 None no_holds"
    unfolding lword_numerals(1)
    by (rule lock_globalI) (auto simp: holds_total_def exclusive_def no_holds_def exh_def shh_def)
next
  fix t assume "t < N"
  show "lock_inv refs R N t (Idle 0) None no_holds" by (simp add: lock_inv_def no_holds_def exh_def)
next
  fix t v ow g r op
  assume "lock_inv refs R N t (Idle r) ow g" "cc_can (lock_code refs R N) op t g"
  then show "lock_inv refs R N t (Entry op) ow g" by (simp add: lock_inv_def)
next
  fix t s s' assume "t < N" "inv_upto (lock_global R N) (lock_inv refs R N) N s"
    "cas_step (lock_code refs R N) t s = Some s'"
  then show "lock_global R N (cs_val s') (cs_owner s') (cs_ghost s') \<and>
      lock_inv refs R N t (cs_pc s' t) (cs_owner s') (cs_ghost s')" by (rule lock_step_own)
next
  fix t s s' t' assume a: "t < N" "inv_upto (lock_global R N) (lock_inv refs R N) N s"
    "cas_step (lock_code refs R N) t s = Some s'" "t' < N" "t' \<noteq> t"
  then have "lock_inv refs R N t' (cs_pc s t') (cs_owner s) (cs_ghost s)" by (simp add: inv_upto_def)
  then show "lock_inv refs R N t' (cs_pc s t') (cs_owner s') (cs_ghost s')"
    using lock_local_frame [of "cs_ghost s'" t' "cs_ghost s", OF lock_step_frame [OF a]] by (simp add: lock_inv_def)
next
  fix t op v nlv ow g assume "t < N" "lock_inv refs R N t (Comp op v nlv Sleep) ow g"
  then show "nlv AND HAMMER_LOCKF_WANTED \<noteq> 0" using lock_wanted(1) unfolding lock_inv_def by blast
next
  fix t op v nlv a ow g assume "t < N" "lock_inv refs R N t (Comp op v nlv a) ow g"
    "v AND HAMMER_LOCKF_WANTED \<noteq> 0" "nlv AND HAMMER_LOCKF_WANTED = 0"
  then show "\<exists>r. a = Wake r" using lock_wanted(2) unfolding lock_inv_def by blast
qed

interpretation lkl: cas_loops "lock_code refs R N" "\<lambda>_. 0" for refs R N
proof unfold_locales
  fix op own lv p nlv and op' :: lock_op
  show "cc_body (lock_code refs R N) op own lv = Cas p nlv Sleep \<Longrightarrow> p = Interlock"
    by (cases op) (auto simp: lock_bodies Let_def split: if_splits)
  show "cc_body (lock_code refs R N) op own lv = Cas p nlv (Goto op') \<Longrightarrow> 0 < (0 :: nat)"
    by (cases op) (auto simp: lock_bodies Let_def split: if_splits)
qed simp

text \<open>A thread sleeps only while another one, awake, holds the lock or is about to wake it up.\<close>

lemma lock_progress:
  assumes reach: "cas_reach (lock_code refs R N) no_holds N s" and t: "cs_pc s t = Sleeping op" "t \<in> cs_wait s"
  shows "\<exists>u < N. (\<forall>op. cs_pc s u \<noteq> Sleeping op) \<and>
    (0 < exh (cs_ghost s) u + shh (cs_ghost s) u \<or> (\<exists>r. cs_pc s u = Waking r))"
proof -
  let ?g = "cs_ghost s"
  note inv = lk.reach_inv [OF reach]
  have tN: "t < N" using running_thread [OF inv t(1)] by simp
  then have u: "N * R < 2 ^ 29" using inv t(1) by (auto simp: inv_upto_def lock_inv_def lock_usable_def)
  have asleep: "exh ?g x + shh ?g x = 0" if "x < N" "cs_pc s x = Sleeping op" for x op
    using inv that by (auto simp: inv_upto_def lock_inv_def)
  from lk.no_lost_wakeup [OF reach t] show ?thesis
  proof
    assume w: "cs_val s AND HAMMER_LOCKF_WANTED \<noteq> 0"
    have "lock_global R N (cs_val s) (cs_owner s) ?g" using inv by (simp add: inv_upto_def)
    from lock_globalE [OF this u] obtain w where "cs_val s = lword (holds_total N ?g) (\<exists>t < N. 0 < exh ?g t) w"
      "w \<longrightarrow> 0 < holds_total N ?g" "holds_total N ?g < 2 ^ 29" .
    then have "holds_total N ?g \<noteq> 0" using w by auto
    then have "\<exists>x < N. exh ?g x + shh ?g x \<noteq> 0" by (rule_tac ccontr) (simp add: holds_total_def)
    then obtain x where "x < N" "exh ?g x + shh ?g x \<noteq> 0" by blast
    then show ?thesis using asleep by (intro exI [of _ x]) auto
  next
    assume "\<exists>t' < N. \<exists>r. cs_pc s t' = Waking r"
    then show ?thesis by force
  qed
qed

end
