(* ===== verification/Hammer_Refs.thy ===== *)
theory Hammer_Refs
  imports Hammer_Lock
begin

text \<open>
  The reference count of HAMMER structures with its transition interlock: the field \<open>refs\<close> of \<open>struct
  hammer_lock\<close>.  \<open>LOCKED\<close> is the interlock, \<open>WANTED\<close> says that somebody sleeps for it, \<open>CHECK\<close> that the count
  went from 0 to 1 and the structure has to be checked by whoever gets the interlock.
\<close>

unbundle bit_operations_syntax

section \<open>The code\<close>

definition HAMMER_REFS_LOCKED :: u32 where "HAMMER_REFS_LOCKED = 0x40000000"
definition HAMMER_REFS_WANTED :: u32 where "HAMMER_REFS_WANTED = 0x20000000"
definition HAMMER_REFS_CHECK :: u32 where "HAMMER_REFS_CHECK = 0x10000000"
definition HAMMER_REFS_FLAGS :: u32 where
  "HAMMER_REFS_FLAGS = HAMMER_REFS_LOCKED OR HAMMER_REFS_WANTED OR HAMMER_REFS_CHECK"

datatype refs_op =
    Ref | Rel | Ref_Interlock | Ref_Interlock_Wait | Ref_Interlock_True | Ref_Interlock_Done
  | Rel_Interlock bool | Rel_Interlock_Done | Get_Interlock | Try_Interlock_Norefs | Put_Interlock int

text \<open>The loop bodies.  \<open>Own r\<close> is the assignment to \<open>rowner\<close> before the return of \<open>r\<close>.\<close>

definition hammer_ref :: "u32 \<Rightarrow> refs_op attempt" where
  "hammer_ref lv =
    (if lv AND NOT HAMMER_REFS_FLAGS = 0 then Cas No_Pre (lv + 1 OR HAMMER_REFS_CHECK) (Return 0)
     else let nlv = lv + 1 in
       if \<not> 0 < sint nlv then Kpanic ''(int)nlv > 0'' else Cas No_Pre nlv (Return 0))"

definition hammer_rel :: "u32 \<Rightarrow> refs_op attempt" where
  "hammer_rel lv =
    (if lv AND NOT HAMMER_REFS_FLAGS = 1 then Cas No_Pre ((lv - 1) AND NOT HAMMER_REFS_CHECK) (Return 0)
     else if \<not> 0 < sint lv then Kpanic ''(int)lv > 0''
     else Cas No_Pre (lv - 1) (Return 0))"

definition hammer_ref_interlock :: "u32 \<Rightarrow> refs_op attempt" where
  "hammer_ref_interlock lv =
    (if lv = 0 then Cas No_Pre (1 OR HAMMER_REFS_LOCKED OR HAMMER_REFS_CHECK) (Own 1)
     else
       let nlv = (if lv AND NOT HAMMER_REFS_FLAGS = 0 then lv + 1 OR HAMMER_REFS_CHECK else lv + 1) in
       if nlv AND HAMMER_REFS_CHECK = 0 then Cas No_Pre nlv (Return 0)
       else if lv AND HAMMER_REFS_LOCKED \<noteq> 0 then Cas No_Pre nlv (Goto Ref_Interlock_Wait)
       else Cas No_Pre (nlv OR HAMMER_REFS_LOCKED) (Own 1))"

text \<open>The second loop of the same routine.\<close>

definition hammer_ref_interlock_wait :: "u32 \<Rightarrow> refs_op attempt" where
  "hammer_ref_interlock_wait lv =
    (if lv AND HAMMER_REFS_CHECK = 0 then Now 0
     else if lv AND HAMMER_REFS_LOCKED \<noteq> 0 then Cas Interlock (lv OR HAMMER_REFS_WANTED) Sleep
     else Cas No_Pre (lv OR HAMMER_REFS_LOCKED) (Own 1))"

definition hammer_ref_interlock_true :: "u32 \<Rightarrow> refs_op attempt" where
  "hammer_ref_interlock_true lv =
    (if lv \<noteq> 0 then Kpanic ''hammer_ref_interlock_true: bad lock''
     else Cas No_Pre (1 OR HAMMER_REFS_LOCKED OR HAMMER_REFS_CHECK) (Own 1))"

definition hammer_ref_interlock_done :: "u32 \<Rightarrow> refs_op attempt" where
  "hammer_ref_interlock_done lv =
     Cas No_Pre (lv AND NOT HAMMER_REFS_FLAGS) (if lv AND HAMMER_REFS_WANTED \<noteq> 0 then Wake 0 else Return 0)"

definition hammer_rel_interlock :: "bool \<Rightarrow> u32 \<Rightarrow> refs_op attempt" where
  "hammer_rel_interlock locked lv =
    (if locked then (case hammer_rel lv of Cas p nlv (Return _) \<Rightarrow> Cas p nlv (Return 1) | x \<Rightarrow> x)
     else if lv = 1 then Cas No_Pre (0 OR HAMMER_REFS_LOCKED) (Own 1)
     else if lv AND NOT HAMMER_REFS_FLAGS = 1 then
       if lv AND HAMMER_REFS_LOCKED = 0 then Cas No_Pre (lv - 1 OR HAMMER_REFS_LOCKED) (Own 1)
       else Cas Interlock (lv OR HAMMER_REFS_WANTED) Sleep
     else if \<not> 0 \<le> sint (lv - 1) then Kpanic ''(int)nlv >= 0''
     else Cas No_Pre (lv - 1) (Return 0))"

definition hammer_rel_interlock_done :: "u32 \<Rightarrow> refs_op attempt" where
  "hammer_rel_interlock_done lv =
    (let nlv = lv AND NOT (HAMMER_REFS_LOCKED OR HAMMER_REFS_WANTED);
         nlv = (if lv AND NOT HAMMER_REFS_FLAGS = 0 then nlv AND NOT HAMMER_REFS_CHECK else nlv)
     in Cas No_Pre nlv (if lv AND HAMMER_REFS_WANTED \<noteq> 0 then Wake 0 else Return 0))"

definition hammer_get_interlock :: "u32 \<Rightarrow> refs_op attempt" where
  "hammer_get_interlock lv =
    (if lv AND HAMMER_REFS_LOCKED \<noteq> 0 then Cas Interlock (lv OR HAMMER_REFS_WANTED) Sleep
     else Cas No_Pre (lv OR HAMMER_REFS_LOCKED) (Own (if lv AND HAMMER_REFS_CHECK \<noteq> 0 then 1 else 0)))"

definition hammer_try_interlock_norefs :: "u32 \<Rightarrow> refs_op attempt" where
  "hammer_try_interlock_norefs lv =
    (if lv = 0 then Cas No_Pre (lv OR HAMMER_REFS_LOCKED) (Own 1) else Now 0)"

definition hammer_put_interlock :: "int \<Rightarrow> u32 \<Rightarrow> refs_op attempt" where
  "hammer_put_interlock error lv =
    (if lv AND HAMMER_REFS_LOCKED = 0 then Kpanic ''lv & HAMMER_REFS_LOCKED''
     else
       let nlv = lv AND NOT (HAMMER_REFS_LOCKED OR HAMMER_REFS_WANTED);
           nlv = (if nlv AND NOT HAMMER_REFS_FLAGS = 0 \<or> error = 0 then nlv AND NOT HAMMER_REFS_CHECK
                  else nlv OR HAMMER_REFS_CHECK)
       in Cas No_Pre nlv (if lv AND HAMMER_REFS_WANTED \<noteq> 0 then Wake 0 else Return 0))"

fun refs_body :: "refs_op \<Rightarrow> bool \<Rightarrow> u32 \<Rightarrow> refs_op attempt" where
  "refs_body Ref own lv = hammer_ref lv"
| "refs_body Rel own lv = hammer_rel lv"
| "refs_body Ref_Interlock own lv = hammer_ref_interlock lv"
| "refs_body Ref_Interlock_Wait own lv = hammer_ref_interlock_wait lv"
| "refs_body Ref_Interlock_True own lv = hammer_ref_interlock_true lv"
| "refs_body Ref_Interlock_Done own lv = hammer_ref_interlock_done lv"
| "refs_body (Rel_Interlock locked) own lv = hammer_rel_interlock locked lv"
| "refs_body Rel_Interlock_Done own lv = hammer_rel_interlock_done lv"
| "refs_body Get_Interlock own lv = hammer_get_interlock lv"
| "refs_body Try_Interlock_Norefs own lv = hammer_try_interlock_norefs lv"
| "refs_body (Put_Interlock error) own lv = hammer_put_interlock error lv"

section \<open>Who holds references and the interlock\<close>

type_synonym rholds = "nat \<Rightarrow> nat \<times> bool"

definition rc :: "rholds \<Rightarrow> nat \<Rightarrow> nat" where "rc g t = fst (g t)"
definition il :: "rholds \<Rightarrow> nat \<Rightarrow> bool" where "il g t = snd (g t)"

definition is_own :: "'op after \<Rightarrow> bool" where "is_own a \<longleftrightarrow> (case a of Own r \<Rightarrow> True | _ \<Rightarrow> False)"

fun refs_upd :: "refs_op \<Rightarrow> nat \<Rightarrow> u32 \<Rightarrow> refs_op after \<Rightarrow> rholds \<Rightarrow> rholds" where
  "refs_upd op t lv Sleep g = g"
| "refs_upd Ref t lv a g = g(t := (rc g t + 1, il g t))"
| "refs_upd Rel t lv a g = g(t := (rc g t - 1, il g t))"
| "refs_upd Ref_Interlock t lv a g = g(t := (rc g t + 1, is_own a))"
| "refs_upd Ref_Interlock_Wait t lv a g = g(t := (rc g t, is_own a))"
| "refs_upd Ref_Interlock_True t lv a g = g(t := (rc g t + 1, True))"
| "refs_upd Ref_Interlock_Done t lv a g = g(t := (rc g t, False))"
| "refs_upd (Rel_Interlock locked) t lv a g = g(t := (rc g t - 1, locked \<or> is_own a))"
| "refs_upd Rel_Interlock_Done t lv a g = g(t := (rc g t, False))"
| "refs_upd Get_Interlock t lv a g = g(t := (rc g t, True))"
| "refs_upd Try_Interlock_Norefs t lv a g = g(t := (rc g t, True))"
| "refs_upd (Put_Interlock error) t lv a g = g(t := (rc g t, False))"

text \<open>
  The rules of use: a thread drops only references it has, at most \<open>R\<close> of them; it takes the interlock only
  when it does not have it, and gives it back only when it has it.  \<open>Ref_Interlock_Wait\<close> is
  the second loop of \<open>hammer_ref_interlock\<close> and not a routine to call: there the reference is already counted.
\<close>

fun refs_pre :: "nat \<Rightarrow> refs_op \<Rightarrow> nat \<Rightarrow> rholds \<Rightarrow> bool" where
  "refs_pre R Ref t g = (rc g t < R)"
| "refs_pre R Rel t g = (0 < rc g t)"
| "refs_pre R Ref_Interlock t g = (rc g t < R \<and> \<not> il g t)"
| "refs_pre R Ref_Interlock_Wait t g = (0 < rc g t \<and> \<not> il g t)"
| "refs_pre R Ref_Interlock_True t g = (rc g t < R \<and> \<not> il g t)"
| "refs_pre R (Rel_Interlock locked) t g = (0 < rc g t \<and> (il g t \<longleftrightarrow> locked))"
| "refs_pre R Get_Interlock t g = (\<not> il g t)"
| "refs_pre R Try_Interlock_Norefs t g = (\<not> il g t)"
| "refs_pre R _ t g = il g t"

definition refs_usable :: "nat \<Rightarrow> nat \<Rightarrow> bool" where
  "refs_usable R N \<longleftrightarrow> N * R + 1 < 2 ^ 28"

definition refs_code :: "nat \<Rightarrow> nat \<Rightarrow> (refs_op, rholds) cas_code" where
  "refs_code R N =
    \<lparr>cc_entry = (\<lambda>op own lv. True), cc_clear = (\<lambda>op. False), cc_body = refs_body, cc_upd = refs_upd,
     cc_can = (\<lambda>op t g. refs_usable R N \<and> op \<noteq> Ref_Interlock_Wait \<and> refs_pre R op t g)\<rparr>"

definition no_refs :: rholds where "no_refs = (\<lambda>_. (0, False))"

text \<open>The tests of the header file.\<close>

definition hammer_isactive :: "u32 \<Rightarrow> u32" where "hammer_isactive refs = refs AND NOT HAMMER_REFS_FLAGS"
definition hammer_oneref :: "u32 \<Rightarrow> bool" where "hammer_oneref refs \<longleftrightarrow> refs AND NOT HAMMER_REFS_FLAGS = 1"
definition hammer_norefs :: "u32 \<Rightarrow> bool" where "hammer_norefs refs \<longleftrightarrow> refs AND NOT HAMMER_REFS_FLAGS = 0"
definition hammer_norefsorlock :: "u32 \<Rightarrow> bool" where "hammer_norefsorlock refs \<longleftrightarrow> refs = 0"
definition hammer_refsorlock :: "u32 \<Rightarrow> bool" where "hammer_refsorlock refs \<longleftrightarrow> refs \<noteq> 0"

section \<open>The word\<close>

named_theorems refs_word \<open>the reference routines on a well-formed word\<close>

definition rword :: "nat \<Rightarrow> bool \<Rightarrow> bool \<Rightarrow> bool \<Rightarrow> u32" where
  "rword n l w c = lword (n + (if c then 2 ^ 28 else 0)) l w"

lemma bit_CHECK: "bit HAMMER_REFS_CHECK i \<longleftrightarrow> i = 28"
proof -
  have c: "HAMMER_REFS_CHECK = push_bit 28 1" by (simp add: HAMMER_REFS_CHECK_def push_bit_eq_mult)
  show ?thesis unfolding c bit_flag by simp
qed

lemma refs_flags: "HAMMER_REFS_LOCKED = HAMMER_LOCKF_EXCLUSIVE" "HAMMER_REFS_WANTED = HAMMER_LOCKF_WANTED"
  by (simp_all add: HAMMER_REFS_LOCKED_def HAMMER_REFS_WANTED_def HAMMER_LOCKF_EXCLUSIVE_def HAMMER_LOCKF_WANTED_def)

lemma bit_LOCKED: "bit HAMMER_REFS_LOCKED i \<longleftrightarrow> i = 30" and bit_REFS_WANTED: "bit HAMMER_REFS_WANTED i \<longleftrightarrow> i = 29"
  by (simp_all add: refs_flags bit_EXCLUSIVE bit_WANTED)

lemma bit_add_pow: assumes "(n :: nat) < 2 ^ k" shows "bit (n + 2 ^ k) i \<longleftrightarrow> bit n i \<or> i = k"
proof -
  have "\<not> bit n i \<or> \<not> bit (2 ^ k :: nat) i" for i
    using bit_nat_below [OF assms, of i] by (auto simp: bit_exp_iff)
  then have "n + 2 ^ k = n OR 2 ^ k" by (rule disjunctive_add)
  then show ?thesis by (auto simp: bit_or_iff bit_exp_iff)
qed

lemma bit_rword:
  assumes "n < 2 ^ 28"
  shows "bit (rword n l w c) i \<longleftrightarrow> bit n i \<or> (l \<and> i = 30) \<or> (w \<and> i = 29) \<or> (c \<and> i = 28)"
proof -
  have "n + (if c then 2 ^ 28 else 0) < 2 ^ 29" using assms by simp
  from bit_lword [OF this] show ?thesis using bit_add_pow [OF assms, of i] by (cases c) (auto simp: rword_def)
qed

lemma rword_eq_iff:
  assumes "n < 2 ^ 28" "m < 2 ^ 28"
  shows "rword n l w c = rword m l' w' c' \<longleftrightarrow> n = m \<and> l = l' \<and> w = w' \<and> c = c'"
proof -
  have "n + (if c then 2 ^ 28 else 0) < 2 ^ 29" "m + (if c' then 2 ^ 28 else 0) < 2 ^ 29" using assms by auto
  from lword_eq_iff [OF this] show ?thesis using assms by (cases c; cases c') (auto simp: rword_def)
qed

lemma rword_inc: "n + 1 < 2 ^ 28 \<Longrightarrow> rword n l w c + 1 = rword (n + 1) l w c"
  unfolding rword_def by (subst lword_inc) auto

lemma rword_dec: "0 < n \<Longrightarrow> n < 2 ^ 28 \<Longrightarrow> rword n l w c - 1 = rword (n - 1) l w c"
  unfolding rword_def by (subst lword_dec) auto

lemma rword_flags:
  assumes n: "n < 2 ^ 28"
  shows "rword n l w c AND HAMMER_REFS_LOCKED = 0 \<longleftrightarrow> \<not> l"
    and "rword n l w c AND HAMMER_REFS_WANTED = 0 \<longleftrightarrow> \<not> w"
    and "rword n l w c AND HAMMER_REFS_CHECK = 0 \<longleftrightarrow> \<not> c"
  using bit_nat_below [OF n]
  by (auto simp: and_flag_eq_0 [OF bit_LOCKED] and_flag_eq_0 [OF bit_REFS_WANTED] and_flag_eq_0 [OF bit_CHECK] bit_rword [OF n])

lemma rword_set:
  assumes n: "n < 2 ^ 28"
  shows "rword n l w c OR HAMMER_REFS_LOCKED = rword n True w c"
    and "rword n l w c OR HAMMER_REFS_WANTED = rword n l True c"
    and "rword n l w c OR HAMMER_REFS_CHECK = rword n l w True"
  by (rule bit_eqI; auto simp: bit_or_iff bit_rword [OF n] bit_LOCKED bit_REFS_WANTED bit_CHECK)+

lemma rword_clear:
  assumes n: "n < 2 ^ 28"
  shows "rword n l w c AND NOT HAMMER_REFS_CHECK = rword n l w False"
    and "rword n l w c AND NOT (HAMMER_REFS_LOCKED OR HAMMER_REFS_WANTED) = rword n False False c"
    and "rword n l w c AND NOT HAMMER_REFS_FLAGS = rword n False False False"
proof -
  note b = bit_and_iff bit_not_iff bit_or_iff bit_rword [OF n] bit_LOCKED bit_REFS_WANTED bit_CHECK HAMMER_REFS_FLAGS_def
  show "rword n l w c AND NOT HAMMER_REFS_CHECK = rword n l w False"
    by (rule bit_eqI) (use bit_nat_below [OF n] in \<open>auto simp: b\<close>)
  show "rword n l w c AND NOT (HAMMER_REFS_LOCKED OR HAMMER_REFS_WANTED) = rword n False False c"
    by (rule bit_eqI) (use bit_nat_below [OF n] in \<open>auto simp: b\<close>)
  show "rword n l w c AND NOT HAMMER_REFS_FLAGS = rword n False False False"
    by (rule bit_eqI) (use bit_nat_below [OF n] in \<open>auto simp: b\<close>)
qed

lemma rword_numerals: "0 = rword 0 False False False" "1 = rword 1 False False False"
  "1 OR HAMMER_REFS_LOCKED OR HAMMER_REFS_CHECK = rword 1 True False True"
  "0 OR HAMMER_REFS_LOCKED = rword 0 True False False"
proof -
  show z: "0 = rword 0 False False False" and o: "1 = rword 1 False False False" by (simp_all add: rword_def lword_def)
  show "1 OR HAMMER_REFS_LOCKED OR HAMMER_REFS_CHECK = rword 1 True False True"
    unfolding o or.assoc [symmetric] by (simp add: rword_set)
  show "0 OR HAMMER_REFS_LOCKED = rword 0 True False False"
    unfolding z using rword_set(1) [of 0 False False False] by simp
qed

lemma rword_sint:
  assumes n: "n < 2 ^ 28" shows "0 \<le> sint (rword n l w c)" and "0 < sint (rword n l w c) \<longleftrightarrow> rword n l w c \<noteq> 0"
proof -
  have "\<not> bit (rword n l w c) 31" using bit_nat_below [OF n, of 31] by (simp add: bit_rword [OF n])
  then show nn: "0 \<le> sint (rword n l w c)" by (simp add: sint_uint signed_take_bit_nonnegative_iff bit_uint_iff)
  then show "0 < sint (rword n l w c) \<longleftrightarrow> rword n l w c \<noteq> 0" by (simp add: less_le) (metis signed_0 signed_eq_0_iff)
qed

end
