(* ===== verification/Hammer_Refs_Inv.thy ===== *)
theory Hammer_Refs_Inv
  imports Hammer_Refs
begin

text \<open>
  The invariant of the reference count and its interlock under arbitrary interleavings, and the interpretation of
  the compare-and-set protocol on the routines.
\<close>

unbundle bit_operations_syntax

section \<open>The routines on a well-formed word\<close>

lemma rword_eq_0: "n < 2 ^ 28 \<Longrightarrow> rword n l w c = 0 \<longleftrightarrow> n = 0 \<and> \<not> l \<and> \<not> w \<and> \<not> c"
  using rword_eq_iff [of n 0] by (simp add: rword_numerals(1))

lemma rword_eq_1: "n < 2 ^ 28 \<Longrightarrow> rword n l w c = 1 \<longleftrightarrow> n = 1 \<and> \<not> l \<and> \<not> w \<and> \<not> c"
  using rword_eq_iff [of n 1] by (simp add: rword_numerals(2))

lemma ref_rword [refs_word]:
  assumes n: "n + 1 < 2 ^ 28"
  shows "hammer_ref (rword n l w c) = Cas No_Pre (rword (n + 1) l w (c \<or> n = 0)) (Return 0)"
proof -
  have n0: "n < 2 ^ 28" using n by simp
  show ?thesis
    unfolding hammer_ref_def rword_clear(3) [OF n0] rword_inc [OF n] Let_def rword_sint(2) [OF n]
      rword_eq_0 [OF n] rword_eq_0 [OF n0] rword_set [OF n] by simp
qed

lemma rel_rword [refs_word]:
  assumes n: "0 < n" "n < 2 ^ 28"
  shows "hammer_rel (rword n l w c) = Cas No_Pre (rword (n - 1) l w (c \<and> n \<noteq> 1)) (Return 0)"
proof -
  have n1: "n - 1 < 2 ^ 28" using n by simp
  show ?thesis
    unfolding hammer_rel_def rword_clear(3) [OF n(2)] rword_dec [OF n] rword_clear(1) [OF n1] rword_sint(2) [OF n(2)]
      rword_eq_0 [OF n(2)] rword_eq_1 [OF n(2)] using n by simp
qed

lemma ref_interlock_rword [refs_word]:
  assumes n: "n + 1 < 2 ^ 28"
  shows "hammer_ref_interlock (rword n l w c) =
    (if n = 0 \<and> \<not> l \<and> \<not> w \<and> \<not> c then Cas No_Pre (rword 1 True False True) (Own 1)
     else if \<not> c \<and> n \<noteq> 0 then Cas No_Pre (rword (n + 1) l w False) (Return 0)
     else if l then Cas No_Pre (rword (n + 1) l w True) (Goto Ref_Interlock_Wait)
     else Cas No_Pre (rword (n + 1) True w True) (Own 1))"
proof -
  have n0: "n < 2 ^ 28" using n by simp
  show ?thesis
    unfolding hammer_ref_interlock_def rword_clear(3) [OF n0] rword_inc [OF n] Let_def rword_eq_0 [OF n0] rword_set(3) [OF n]
      rword_numerals(3) using rword_flags [OF n0] rword_flags [OF n] rword_set [OF n]
    by (auto simp: if_distrib [of "\<lambda>x. x AND HAMMER_REFS_CHECK"] if_distrib [of "\<lambda>x. x OR HAMMER_REFS_LOCKED"])
qed

lemma ref_interlock_wait_rword [refs_word]:
  assumes n: "n < 2 ^ 28"
  shows "hammer_ref_interlock_wait (rword n l w c) =
    (if \<not> c then Now 0 else if l then Cas Interlock (rword n l True c) Sleep else Cas No_Pre (rword n True w c) (Own 1))"
  unfolding hammer_ref_interlock_wait_def rword_flags [OF n] rword_set [OF n] by simp

lemma ref_interlock_true_rword [refs_word]:
  assumes n: "n < 2 ^ 28"
  shows "hammer_ref_interlock_true (rword n l w c) =
    (if n = 0 \<and> \<not> l \<and> \<not> w \<and> \<not> c then Cas No_Pre (rword 1 True False True) (Own 1)
     else Kpanic ''hammer_ref_interlock_true: bad lock'')"
  unfolding hammer_ref_interlock_true_def rword_eq_0 [OF n] rword_numerals(3) by simp

lemma ref_interlock_done_rword [refs_word]:
  assumes n: "n < 2 ^ 28"
  shows "hammer_ref_interlock_done (rword n l w c) =
    Cas No_Pre (rword n False False False) (if w then Wake 0 else Return 0)"
  unfolding hammer_ref_interlock_done_def rword_flags [OF n] rword_clear [OF n] by simp

lemma rel_interlock_rword [refs_word]:
  assumes n: "0 < n" "n < 2 ^ 28"
  shows "hammer_rel_interlock locked (rword n l w c) =
    (if locked then Cas No_Pre (rword (n - 1) l w (c \<and> n \<noteq> 1)) (Return 1)
     else if n = 1 then if l then Cas Interlock (rword n l True c) Sleep else Cas No_Pre (rword 0 True w c) (Own 1)
     else Cas No_Pre (rword (n - 1) l w c) (Return 0))"
proof -
  have n1: "n - 1 < 2 ^ 28" using n by simp
  show ?thesis
    unfolding hammer_rel_interlock_def rel_rword [OF n] rword_clear(3) [OF n(2)] rword_dec [OF n] rword_eq_1 [OF n(2)]
      rword_numerals(4) rword_flags [OF n(2)] rword_set [OF n(2)] rword_set [OF n1] using n rword_sint(1) [OF n1] by auto
qed

lemma rel_interlock_done_rword [refs_word]:
  assumes n: "n < 2 ^ 28"
  shows "hammer_rel_interlock_done (rword n l w c) =
    Cas No_Pre (rword n False False (c \<and> n \<noteq> 0)) (if w then Wake 0 else Return 0)"
  unfolding hammer_rel_interlock_done_def Let_def rword_clear [OF n] rword_eq_0 [OF n] rword_flags [OF n] by simp

lemma get_interlock_rword [refs_word]:
  assumes n: "n < 2 ^ 28"
  shows "hammer_get_interlock (rword n l w c) =
    (if l then Cas Interlock (rword n l True c) Sleep else Cas No_Pre (rword n True w c) (Own (if c then 1 else 0)))"
  unfolding hammer_get_interlock_def rword_set [OF n] rword_flags [OF n] by simp

lemma try_interlock_rword [refs_word]:
  assumes n: "n < 2 ^ 28"
  shows "hammer_try_interlock_norefs (rword n l w c) =
    (if n = 0 \<and> \<not> l \<and> \<not> w \<and> \<not> c then Cas No_Pre (rword 0 True False False) (Own 1) else Now 0)"
  unfolding hammer_try_interlock_norefs_def rword_set [OF n] rword_eq_0 [OF n] by auto

lemma put_interlock_rword [refs_word]:
  assumes n: "n < 2 ^ 28"
  shows "hammer_put_interlock e (rword n l w c) =
    (if \<not> l then Kpanic ''lv & HAMMER_REFS_LOCKED''
     else Cas No_Pre (rword n False False (n \<noteq> 0 \<and> e \<noteq> 0)) (if w then Wake 0 else Return 0))"
  unfolding hammer_put_interlock_def Let_def rword_clear [OF n] rword_set [OF n] rword_eq_0 [OF n] rword_flags [OF n] by simp

section \<open>The invariant\<close>

definition refs_total :: "nat \<Rightarrow> rholds \<Rightarrow> nat" where
  "refs_total N g = (\<Sum>t<N. rc g t)"

definition locked :: "nat \<Rightarrow> rholds \<Rightarrow> bool" where
  "locked N g \<longleftrightarrow> (\<exists>t < N. il g t)"

definition refs_global :: "nat \<Rightarrow> nat \<Rightarrow> u32 \<Rightarrow> rholds \<Rightarrow> bool" where
  "refs_global R N v g \<longleftrightarrow>
     (\<exists>w c. v = rword (refs_total N g) (locked N g) w c \<and> (w \<longrightarrow> locked N g) \<and> (c \<longrightarrow> 0 < refs_total N g \<or> locked N g)) \<and>
     (\<forall>t < N. rc g t \<le> R) \<and> (\<forall>t < N. \<forall>t' < N. il g t \<longrightarrow> il g t' \<longrightarrow> t = t')"

definition refs_seen :: "nat \<Rightarrow> nat \<Rightarrow> u32 \<Rightarrow> rholds \<Rightarrow> bool" where
  "refs_seen M t lv g \<longleftrightarrow>
     (\<exists>n l w c. lv = rword n l w c \<and> n \<le> M \<and> rc g t \<le> n \<and> (il g t \<longrightarrow> l))"

fun refs_local :: "nat \<Rightarrow> nat \<Rightarrow> nat \<Rightarrow> refs_op pc \<Rightarrow> rholds \<Rightarrow> bool" where
  "refs_local R M t (Entry op) g = refs_pre R op t g"
| "refs_local R M t (Check op lv) g = refs_pre R op t g"
| "refs_local R M t (Clear op) g = False"
| "refs_local R M t (Loop op) g = refs_pre R op t g"
| "refs_local R M t (Test op lv) g = (refs_pre R op t g \<and> refs_seen M t lv g)"
| "refs_local R M t (Pre op lv p nlv a) g = (refs_pre R op t g \<and> refs_seen M t lv g \<and> refs_body op True lv = Cas p nlv a)"
| "refs_local R M t (Comp op lv nlv a) g =
    (refs_pre R op t g \<and> refs_seen M t lv g \<and> (\<exists>p. refs_body op True lv = Cas p nlv a))"
| "refs_local R M t (Sleeping op) g = (refs_pre R op t g \<and> \<not> il g t)"
| "refs_local R M t (Panicked op) g = (op = Ref_Interlock_True)"
| "refs_local R M t _ g = True"

lemma refs_upd_simps [simp]:
  "rc (g(t := x)) t' = (if t' = t then fst x else rc g t')" "il (g(t := x)) t' = (if t' = t then snd x else il g t')"
  by (simp_all add: rc_def il_def)

lemma refs_total_upd: "t < N \<Longrightarrow> refs_total N (g(t := (r, i))) + rc g t = refs_total N g + r"
  by (simp add: refs_total_def sum.remove [of "{..<N}" t])

lemma refs_total_ge: "t < N \<Longrightarrow> rc g t \<le> refs_total N g"
  unfolding refs_total_def by (rule member_le_sum) auto

lemma refs_total_le: "\<forall>t < N. rc g t \<le> R \<Longrightarrow> refs_total N g \<le> N * R"
  unfolding refs_total_def using sum_bounded_above [of "{..<N}" "rc g" R] by simp

lemma refs_upd_other [simp]: "t' \<noteq> t \<Longrightarrow> refs_upd op t lv a g t' = g t'"
  by (cases "(op, t, lv, a, g)" rule: refs_upd.cases) auto

lemma refs_local_frame:
  assumes "g' t = g t" shows "refs_local R M t p g' \<longleftrightarrow> refs_local R M t p g"
proof -
  have e: "rc g' t = rc g t" "il g' t = il g t" using assms by (simp_all add: rc_def il_def)
  have "refs_pre R op t g' = refs_pre R op t g" for op by (cases op) (simp_all add: e)
  then show ?thesis by (cases p) (simp_all add: e refs_seen_def)
qed

text \<open>A change of the holds of one thread: the interlock stays as it is, is taken when free, or is given back.\<close>

lemma refs_global_upd:
  assumes G: "refs_global R N v g" and t: "t < N" and r: "r \<le> R" "n + rc g t = refs_total N g + r"
    and i: "i = il g t \<and> l = locked N g \<or> \<not> locked N g \<and> i \<and> l \<or> il g t \<and> \<not> i \<and> \<not> l"
    and wc: "w \<longrightarrow> l" "c \<longrightarrow> 0 < n \<or> l"
  shows "refs_global R N (rword n l w c) (g(t := (r, i)))"
proof -
  let ?g = "g(t := (r, i))"
  have uniq: "\<And>t t'. t < N \<Longrightarrow> t' < N \<Longrightarrow> il g t \<Longrightarrow> il g t' \<Longrightarrow> t = t'" using G by (simp add: refs_global_def)
  have "refs_total N ?g = n" using refs_total_upd [OF t, of g r i] r(2) by simp
  moreover have "locked N ?g \<longleftrightarrow> i \<or> (\<exists>t' < N. t' \<noteq> t \<and> il g t')" using t by (auto simp: locked_def)
  then have "locked N ?g = l" using i t uniq unfolding locked_def by metis
  moreover have "\<forall>t < N. \<forall>t' < N. il ?g t \<longrightarrow> il ?g t' \<longrightarrow> t = t'" using i t uniq by (auto simp: locked_def)
  moreover have "\<forall>t < N. rc ?g t \<le> R" using G r(1) by (simp add: refs_global_def)
  ultimately show ?thesis using wc unfolding refs_global_def by blast
qed

lemma refs_globalE:
  assumes "refs_global R N v g" "N * R < 2 ^ 28"
  obtains w c where "v = rword (refs_total N g) (locked N g) w c" "w \<longrightarrow> locked N g"
    "c \<longrightarrow> 0 < refs_total N g \<or> locked N g" "refs_total N g < 2 ^ 28"
proof -
  have "refs_total N g \<le> N * R" using assms(1) by (intro refs_total_le) (simp add: refs_global_def)
  then have "refs_total N g < 2 ^ 28" using assms(2) by linarith
  then show ?thesis using assms(1) that by (auto simp: refs_global_def)
qed

lemma refs_seen_current:
  assumes "refs_global R N v g" "t < N" shows "refs_seen (N * R) t v g"
  using assms refs_total_ge [OF assms(2), of g] refs_total_le [of N g R] unfolding refs_seen_def refs_global_def locked_def
  by blast

definition rcomp_ok :: "nat \<Rightarrow> nat \<Rightarrow> nat \<Rightarrow> refs_op \<Rightarrow> u32 \<Rightarrow> u32 \<Rightarrow> refs_op after \<Rightarrow> rholds \<Rightarrow> bool" where
  "rcomp_ok R N t op v nlv a g \<longleftrightarrow>
     refs_global R N nlv (refs_upd op t v a g) \<and> refs_local R (N * R) t (after_pc op a) (refs_upd op t v a g)"

lemma rcomp_upd:
  assumes "refs_upd op t v a g = g(t := (r, i))" "nlv = rword n l w c"
    and "refs_local R (N * R) t (after_pc op a) (g(t := (r, i)))"
    and "refs_global R N v g" "t < N" "r \<le> R" "n + rc g t = refs_total N g + r"
    and "i = il g t \<and> l = locked N g \<or> \<not> locked N g \<and> i \<and> l \<or> il g t \<and> \<not> i \<and> \<not> l"
    and "w \<longrightarrow> l" "c \<longrightarrow> 0 < n \<or> l"
  shows "rcomp_ok R N t op v nlv a g"
  unfolding rcomp_ok_def assms(1,2) using refs_global_upd [OF assms(4-)] assms(3) by blast

lemma rcomp_sleep:
  assumes "refs_global R N v g" "locked N g" "v = rword (refs_total N g) (locked N g) w c"
    "refs_total N g < 2 ^ 28" "refs_pre R op t g" "\<not> il g t"
  shows "rcomp_ok R N t op v (rword (refs_total N g) (locked N g) True c) Sleep g"
proof -
  obtain w' c' where v': "v = rword (refs_total N g) (locked N g) w' c'" "c' \<longrightarrow> 0 < refs_total N g \<or> locked N g"
    using assms(1) by (auto simp: refs_global_def)
  then have "c = c'" using assms(3,4) rword_eq_iff by metis
  then show ?thesis using assms v' by (auto simp: rcomp_ok_def refs_global_def)
qed

text \<open>What a thread that runs can use in its successful compare-and-set.\<close>

definition refs_at :: "nat \<Rightarrow> nat \<Rightarrow> nat \<Rightarrow> u32 \<Rightarrow> rholds \<Rightarrow> bool \<Rightarrow> bool \<Rightarrow> bool" where
  "refs_at R N t v g w c \<longleftrightarrow>
     refs_global R N v g \<and> t < N \<and> v = rword (refs_total N g) (locked N g) w c \<and> (w \<longrightarrow> locked N g) \<and>
     (c \<longrightarrow> 0 < refs_total N g \<or> locked N g) \<and> refs_total N g + 1 < 2 ^ 28 \<and> rc g t \<le> R \<and> rc g t \<le> refs_total N g"

lemma refs_atD:
  assumes "refs_at R N t v g w c"
  shows "refs_global R N v g" "t < N" "v = rword (refs_total N g) (locked N g) w c" "w \<longrightarrow> locked N g"
    "c \<longrightarrow> 0 < refs_total N g \<or> locked N g" "refs_total N g + 1 < 2 ^ 28" "refs_total N g < 2 ^ 28"
    "rc g t \<le> R" "rc g t \<le> refs_total N g"
  using assms unfolding refs_at_def by linarith+

lemma comp_ref:
  assumes "refs_at R N t v g w c" and pre: "refs_pre R Ref t g"
    and b: "refs_body Ref True v = Cas p nlv a"
  shows "rcomp_ok R N t Ref v nlv a g"
proof -
  let ?n = "refs_total N g" and ?l = "locked N g" and ?r = "rc g t"
  note G = refs_atD(1) [OF assms(1)] and t = refs_atD(2) [OF assms(1)] and v = refs_atD(3) [OF assms(1)]
    and w = refs_atD(4) [OF assms(1)] and c = refs_atD(5) [OF assms(1)] and n1 = refs_atD(6) [OF assms(1)]
    and n = refs_atD(7) [OF assms(1)] and R = refs_atD(8) [OF assms(1)] and ge = refs_atD(9) [OF assms(1)]
  have a: "nlv = rword (?n + 1) ?l w (c \<or> ?n = 0)" "a = Return 0" using b n1 by (simp_all add: v refs_word)
  show ?thesis using a pre w by (intro rcomp_upd [OF _ a(1) _ G t, where r = "?r + 1" and i = "il g t"]) simp_all
qed

lemma comp_rel:
  assumes "refs_at R N t v g w c" and pre: "refs_pre R Rel t g"
    and b: "refs_body Rel True v = Cas p nlv a"
  shows "rcomp_ok R N t Rel v nlv a g"
proof -
  let ?n = "refs_total N g" and ?l = "locked N g" and ?r = "rc g t"
  note G = refs_atD(1) [OF assms(1)] and t = refs_atD(2) [OF assms(1)] and v = refs_atD(3) [OF assms(1)]
    and w = refs_atD(4) [OF assms(1)] and c = refs_atD(5) [OF assms(1)] and n1 = refs_atD(6) [OF assms(1)]
    and n = refs_atD(7) [OF assms(1)] and R = refs_atD(8) [OF assms(1)] and ge = refs_atD(9) [OF assms(1)]
  have a: "nlv = rword (?n - 1) ?l w (c \<and> ?n \<noteq> 1)" "a = Return 0" using b n pre ge by (auto simp: v refs_word)
  show ?thesis using a pre w R ge c by (intro rcomp_upd [OF _ a(1) _ G t, where r = "?r - 1" and i = "il g t"]) auto
qed

lemma comp_ref_interlock:
  assumes "refs_at R N t v g w c" and pre: "refs_pre R Ref_Interlock t g"
    and b: "refs_body Ref_Interlock True v = Cas p nlv a"
  shows "rcomp_ok R N t Ref_Interlock v nlv a g"
proof -
  let ?n = "refs_total N g" and ?l = "locked N g" and ?r = "rc g t"
  note G = refs_atD(1) [OF assms(1)] and t = refs_atD(2) [OF assms(1)] and v = refs_atD(3) [OF assms(1)]
    and w = refs_atD(4) [OF assms(1)] and c = refs_atD(5) [OF assms(1)] and n1 = refs_atD(6) [OF assms(1)]
    and n = refs_atD(7) [OF assms(1)] and R = refs_atD(8) [OF assms(1)] and ge = refs_atD(9) [OF assms(1)]
  consider "nlv = rword (?n + 1) True w True" "a = Own 1" "\<not> ?l"
    | "nlv = rword (?n + 1) ?l w False" "a = Return 0"
    | "nlv = rword (?n + 1) ?l w True" "a = Goto Ref_Interlock_Wait" "?l"
    using b n1 by (auto simp: v refs_word split: if_splits)
  then show ?thesis
  proof cases
    case 1
    then show ?thesis using pre
      by (intro rcomp_upd [OF _ 1(1) _ G t, where r = "?r + 1" and i = True]) (simp_all add: is_own_def)
  next
    case 2
    then show ?thesis using pre w
      by (intro rcomp_upd [OF _ 2(1) _ G t, where r = "?r + 1" and i = False]) (simp_all add: is_own_def)
  next
    case 3
    then show ?thesis using pre w
      by (intro rcomp_upd [OF _ 3(1) _ G t, where r = "?r + 1" and i = False]) (simp_all add: is_own_def)
  qed
qed

lemma comp_ref_interlock_wait:
  assumes "refs_at R N t v g w c" and pre: "refs_pre R Ref_Interlock_Wait t g"
    and b: "refs_body Ref_Interlock_Wait True v = Cas p nlv a"
  shows "rcomp_ok R N t Ref_Interlock_Wait v nlv a g"
proof -
  let ?n = "refs_total N g" and ?l = "locked N g" and ?r = "rc g t"
  note G = refs_atD(1) [OF assms(1)] and t = refs_atD(2) [OF assms(1)] and v = refs_atD(3) [OF assms(1)]
    and w = refs_atD(4) [OF assms(1)] and c = refs_atD(5) [OF assms(1)] and n1 = refs_atD(6) [OF assms(1)]
    and n = refs_atD(7) [OF assms(1)] and R = refs_atD(8) [OF assms(1)] and ge = refs_atD(9) [OF assms(1)]
  note slp = rcomp_sleep [OF G _ v n pre]
  consider "nlv = rword ?n ?l True c" "a = Sleep" "?l" | "nlv = rword ?n True w c" "a = Own 1" "\<not> ?l"
    using b n by (auto simp: v refs_word split: if_splits)
  then show ?thesis
  proof cases
    case 1
    then show ?thesis using slp pre by simp
  next
    case 2
    then show ?thesis using pre R c
      by (intro rcomp_upd [OF _ 2(1) _ G t, where r = ?r and i = True]) (simp_all add: is_own_def)
  qed
qed

lemma comp_ref_interlock_true:
  assumes "refs_at R N t v g w c" and pre: "refs_pre R Ref_Interlock_True t g"
    and b: "refs_body Ref_Interlock_True True v = Cas p nlv a"
  shows "rcomp_ok R N t Ref_Interlock_True v nlv a g"
proof -
  let ?n = "refs_total N g" and ?l = "locked N g" and ?r = "rc g t"
  note G = refs_atD(1) [OF assms(1)] and t = refs_atD(2) [OF assms(1)] and v = refs_atD(3) [OF assms(1)]
    and w = refs_atD(4) [OF assms(1)] and c = refs_atD(5) [OF assms(1)] and n1 = refs_atD(6) [OF assms(1)]
    and n = refs_atD(7) [OF assms(1)] and R = refs_atD(8) [OF assms(1)] and ge = refs_atD(9) [OF assms(1)]
  have a: "nlv = rword (?n + 1) True False True" "a = Own 1" "\<not> ?l"
    using b n by (auto simp: v refs_word split: if_splits)
  show ?thesis using a pre by (intro rcomp_upd [OF _ a(1) _ G t, where r = "?r + 1" and i = True]) simp_all
qed

lemma comp_ref_interlock_done:
  assumes "refs_at R N t v g w c" and pre: "refs_pre R Ref_Interlock_Done t g"
    and b: "refs_body Ref_Interlock_Done True v = Cas p nlv a"
  shows "rcomp_ok R N t Ref_Interlock_Done v nlv a g"
proof -
  let ?n = "refs_total N g" and ?l = "locked N g" and ?r = "rc g t"
  note G = refs_atD(1) [OF assms(1)] and t = refs_atD(2) [OF assms(1)] and v = refs_atD(3) [OF assms(1)]
    and w = refs_atD(4) [OF assms(1)] and c = refs_atD(5) [OF assms(1)] and n1 = refs_atD(6) [OF assms(1)]
    and n = refs_atD(7) [OF assms(1)] and R = refs_atD(8) [OF assms(1)] and ge = refs_atD(9) [OF assms(1)]
  have a: "nlv = rword ?n False False False" "a = (if w then Wake 0 else Return 0)"
    using b n by (simp_all add: v refs_word)
  show ?thesis using a pre R by (intro rcomp_upd [OF _ a(1) _ G t, where r = ?r and i = False]) simp_all
qed

lemma comp_rel_interlock:
  assumes "refs_at R N t v g w c" and pre: "refs_pre R (Rel_Interlock k) t g"
    and b: "refs_body (Rel_Interlock k) True v = Cas p nlv a"
  shows "rcomp_ok R N t (Rel_Interlock k) v nlv a g"
proof -
  let ?n = "refs_total N g" and ?l = "locked N g" and ?r = "rc g t"
  note G = refs_atD(1) [OF assms(1)] and t = refs_atD(2) [OF assms(1)] and v = refs_atD(3) [OF assms(1)]
    and w = refs_atD(4) [OF assms(1)] and c = refs_atD(5) [OF assms(1)] and n1 = refs_atD(6) [OF assms(1)]
    and n = refs_atD(7) [OF assms(1)] and R = refs_atD(8) [OF assms(1)] and ge = refs_atD(9) [OF assms(1)]
  note slp = rcomp_sleep [OF G _ v n pre]
  have pos: "0 < ?n" using pre ge by simp
  consider "k" "nlv = rword (?n - 1) ?l w (c \<and> ?n \<noteq> 1)" "a = Return 1"
    | "\<not> k" "nlv = rword ?n ?l True c" "a = Sleep" "?l"
    | "\<not> k" "nlv = rword (?n - 1) True w c" "a = Own 1" "\<not> ?l"
    | "\<not> k" "nlv = rword (?n - 1) ?l w c" "a = Return 0" "?n \<noteq> 1"
    using b n pos by (auto simp: v refs_word split: if_splits)
  then show ?thesis
  proof cases
    case 1
    then show ?thesis using pre w R ge c
      by (intro rcomp_upd [OF _ 1(2) _ G t, where r = "?r - 1" and i = True]) auto
  next
    case 2
    then show ?thesis using slp pre by simp
  next
    case 3
    then show ?thesis using pre R ge
      by (intro rcomp_upd [OF _ 3(2) _ G t, where r = "?r - 1" and i = True]) (auto simp: is_own_def)
  next
    case 4
    then show ?thesis using pre w R ge pos
      by (intro rcomp_upd [OF _ 4(2) _ G t, where r = "?r - 1" and i = False]) (auto simp: is_own_def)
  qed
qed

lemma comp_rel_interlock_done:
  assumes "refs_at R N t v g w c" and pre: "refs_pre R Rel_Interlock_Done t g"
    and b: "refs_body Rel_Interlock_Done True v = Cas p nlv a"
  shows "rcomp_ok R N t Rel_Interlock_Done v nlv a g"
proof -
  let ?n = "refs_total N g" and ?l = "locked N g" and ?r = "rc g t"
  note G = refs_atD(1) [OF assms(1)] and t = refs_atD(2) [OF assms(1)] and v = refs_atD(3) [OF assms(1)]
    and w = refs_atD(4) [OF assms(1)] and c = refs_atD(5) [OF assms(1)] and n1 = refs_atD(6) [OF assms(1)]
    and n = refs_atD(7) [OF assms(1)] and R = refs_atD(8) [OF assms(1)] and ge = refs_atD(9) [OF assms(1)]
  have a: "nlv = rword ?n False False (c \<and> ?n \<noteq> 0)" "a = (if w then Wake 0 else Return 0)"
    using b n by (simp_all add: v refs_word)
  show ?thesis using a pre R by (intro rcomp_upd [OF _ a(1) _ G t, where r = ?r and i = False]) simp_all
qed

lemma comp_get_interlock:
  assumes "refs_at R N t v g w c" and pre: "refs_pre R Get_Interlock t g"
    and b: "refs_body Get_Interlock True v = Cas p nlv a"
  shows "rcomp_ok R N t Get_Interlock v nlv a g"
proof -
  let ?n = "refs_total N g" and ?l = "locked N g" and ?r = "rc g t"
  note G = refs_atD(1) [OF assms(1)] and t = refs_atD(2) [OF assms(1)] and v = refs_atD(3) [OF assms(1)]
    and w = refs_atD(4) [OF assms(1)] and c = refs_atD(5) [OF assms(1)] and n1 = refs_atD(6) [OF assms(1)]
    and n = refs_atD(7) [OF assms(1)] and R = refs_atD(8) [OF assms(1)] and ge = refs_atD(9) [OF assms(1)]
  note slp = rcomp_sleep [OF G _ v n pre]
  consider "nlv = rword ?n ?l True c" "a = Sleep" "?l"
    | "nlv = rword ?n True w c" "a = Own (if c then 1 else 0)" "\<not> ?l"
    using b n by (auto simp: v refs_word split: if_splits)
  then show ?thesis
  proof cases
    case 1
    then show ?thesis using slp pre by simp
  next
    case 2
    then show ?thesis using pre R by (intro rcomp_upd [OF _ 2(1) _ G t, where r = ?r and i = True]) simp_all
  qed
qed

lemma comp_try_interlock_norefs:
  assumes "refs_at R N t v g w c" and pre: "refs_pre R Try_Interlock_Norefs t g"
    and b: "refs_body Try_Interlock_Norefs True v = Cas p nlv a"
  shows "rcomp_ok R N t Try_Interlock_Norefs v nlv a g"
proof -
  let ?n = "refs_total N g" and ?l = "locked N g" and ?r = "rc g t"
  note G = refs_atD(1) [OF assms(1)] and t = refs_atD(2) [OF assms(1)] and v = refs_atD(3) [OF assms(1)]
    and w = refs_atD(4) [OF assms(1)] and c = refs_atD(5) [OF assms(1)] and n1 = refs_atD(6) [OF assms(1)]
    and n = refs_atD(7) [OF assms(1)] and R = refs_atD(8) [OF assms(1)] and ge = refs_atD(9) [OF assms(1)]
  have a: "nlv = rword ?n True False False" "a = Own 1" "\<not> ?l"
    using b n by (auto simp: v refs_word split: if_splits)
  show ?thesis using a pre R by (intro rcomp_upd [OF _ a(1) _ G t, where r = ?r and i = True]) simp_all
qed

lemma comp_put_interlock:
  assumes "refs_at R N t v g w c" and pre: "refs_pre R (Put_Interlock e) t g"
    and b: "refs_body (Put_Interlock e) True v = Cas p nlv a"
  shows "rcomp_ok R N t (Put_Interlock e) v nlv a g"
proof -
  let ?n = "refs_total N g" and ?l = "locked N g" and ?r = "rc g t"
  note G = refs_atD(1) [OF assms(1)] and t = refs_atD(2) [OF assms(1)] and v = refs_atD(3) [OF assms(1)]
    and w = refs_atD(4) [OF assms(1)] and c = refs_atD(5) [OF assms(1)] and n1 = refs_atD(6) [OF assms(1)]
    and n = refs_atD(7) [OF assms(1)] and R = refs_atD(8) [OF assms(1)] and ge = refs_atD(9) [OF assms(1)]
  have a: "nlv = rword ?n False False (?n \<noteq> 0 \<and> e \<noteq> 0)" "a = (if w then Wake 0 else Return 0)"
    using b n by (auto simp: v refs_word split: if_splits)
  show ?thesis using a pre R by (intro rcomp_upd [OF _ a(1) _ G t, where r = ?r and i = False]) simp_all
qed

lemma refs_comp:
  assumes NR: "N * R + 1 < 2 ^ 28" and t: "t < N" and G: "refs_global R N v g"
    and L: "refs_local R (N * R) t (Comp op v nlv a) g"
  shows "rcomp_ok R N t op v nlv a g"
proof -
  obtain p where pre: "refs_pre R op t g" and b: "refs_body op True v = Cas p nlv a" using L by auto
  have "N * R < 2 ^ 28" using NR by simp
  then obtain w c where v: "v = rword (refs_total N g) (locked N g) w c" "w \<longrightarrow> locked N g"
    "c \<longrightarrow> 0 < refs_total N g \<or> locked N g" using refs_globalE [OF G] by metis
  have "rc g t \<le> R" using G t by (auto simp: refs_global_def)
  moreover have "refs_total N g + 1 < 2 ^ 28" using refs_total_le [of N g R] G NR by (simp add: refs_global_def)
  ultimately have at: "refs_at R N t v g w c" using v G t refs_total_ge [OF t, of g] by (simp add: refs_at_def)
  show ?thesis
  proof (cases op)
    case Ref
    then show ?thesis using comp_ref [OF at] pre b by blast
  next
    case Rel
    then show ?thesis using comp_rel [OF at] pre b by blast
  next
    case Ref_Interlock
    then show ?thesis using comp_ref_interlock [OF at] pre b by blast
  next
    case Ref_Interlock_Wait
    then show ?thesis using comp_ref_interlock_wait [OF at] pre b by blast
  next
    case Ref_Interlock_True
    then show ?thesis using comp_ref_interlock_true [OF at] pre b by blast
  next
    case Ref_Interlock_Done
    then show ?thesis using comp_ref_interlock_done [OF at] pre b by blast
  next
    case (Rel_Interlock k)
    then show ?thesis using comp_rel_interlock [OF at] pre b by blast
  next
    case Rel_Interlock_Done
    then show ?thesis using comp_rel_interlock_done [OF at] pre b by blast
  next
    case Get_Interlock
    then show ?thesis using comp_get_interlock [OF at] pre b by blast
  next
    case Try_Interlock_Norefs
    then show ?thesis using comp_try_interlock_norefs [OF at] pre b by blast
  next
    case (Put_Interlock e)
    then show ?thesis using comp_put_interlock [OF at] pre b by blast
  qed
qed

section \<open>The decisions\<close>

lemma refs_body_own: "refs_body op own lv = refs_body op own' lv"
  by (cases op) simp_all

lemma refs_seenE:
  assumes "refs_seen M t lv g" "M + 1 < 2 ^ 28"
  obtains n l w c where "lv = rword n l w c" "n + 1 < 2 ^ 28" "n < 2 ^ 28" "rc g t \<le> n" "il g t \<longrightarrow> l"
proof -
  obtain n l w c where "lv = rword n l w c" "n \<le> M" "rc g t \<le> n" "il g t \<longrightarrow> l"
    using assms(1) unfolding refs_seen_def by blast
  then show ?thesis using assms(2) by (intro that) auto
qed

text \<open>Only \<open>hammer_ref_interlock_true\<close> can panic: it insists on an unreferenced structure.\<close>

lemma refs_body_safe:
  assumes M: "M + 1 < 2 ^ 28" and pre: "refs_pre R op t g" and seen: "refs_seen M t lv g"
    and b: "refs_body op own lv = Kpanic m"
  shows "op = Ref_Interlock_True"
proof -
  obtain n l w c where lv: "lv = rword n l w c" "n + 1 < 2 ^ 28" "n < 2 ^ 28" "rc g t \<le> n" "il g t \<longrightarrow> l"
    using refs_seenE [OF seen M] .
  show ?thesis using pre b lv(2-) by (cases op) (auto simp: lv(1) refs_word split: if_splits)
qed

lemma refs_wanted:
  assumes M: "M + 1 < 2 ^ 28" and L: "refs_local R M t (Comp op v nlv a) g"
  shows "a = Sleep \<Longrightarrow> nlv AND HAMMER_REFS_WANTED \<noteq> 0"
    and "v AND HAMMER_REFS_WANTED \<noteq> 0 \<Longrightarrow> nlv AND HAMMER_REFS_WANTED = 0 \<Longrightarrow> \<exists>r. a = Wake r"
proof -
  obtain p where pre: "refs_pre R op t g" and seen: "refs_seen M t v g"
    and b: "refs_body op True v = Cas p nlv a" using L by auto
  obtain n l w c where lv: "v = rword n l w c" "n + 1 < 2 ^ 28" "n < 2 ^ 28" "rc g t \<le> n"
    using refs_seenE [OF seen M] .
  note w = rword_flags(2)
  show "a = Sleep \<Longrightarrow> nlv AND HAMMER_REFS_WANTED \<noteq> 0"
    using b pre lv(2-) by (cases op) (auto simp: lv(1) refs_word w split: if_splits)
  show "v AND HAMMER_REFS_WANTED \<noteq> 0 \<Longrightarrow> nlv AND HAMMER_REFS_WANTED = 0 \<Longrightarrow> \<exists>r. a = Wake r"
    using b pre lv(2-) by (cases op) (auto simp: lv(1) refs_word w split: if_splits)
qed

section \<open>The protocol\<close>

definition refs_inv :: "nat \<Rightarrow> nat \<Rightarrow> nat \<Rightarrow> refs_op pc \<Rightarrow> nat option \<Rightarrow> rholds \<Rightarrow> bool" where
  "refs_inv R N t p ow g \<longleftrightarrow> refs_local R (N * R) t p g \<and> ((\<exists>r. p = Idle r) \<or> refs_usable R N)"

lemma refs_code_simps [simp]:
  "cc_entry (refs_code R N) op own lv" "cc_body (refs_code R N) = refs_body" "cc_upd (refs_code R N) = refs_upd"
  "\<not> cc_clear (refs_code R N) op"
  "cc_can (refs_code R N) op t g \<longleftrightarrow> refs_usable R N \<and> op \<noteq> Ref_Interlock_Wait \<and> refs_pre R op t g"
  by (simp_all add: refs_code_def)

lemma refs_step_own:
  assumes t: "t < N" and inv: "inv_upto (\<lambda>v ow g. refs_global R N v g) (refs_inv R N) N s"
    and st: "cas_step (refs_code R N) t s = Some s'"
  shows "refs_global R N (cs_val s') (cs_ghost s') \<and> refs_inv R N t (cs_pc s' t) (cs_owner s') (cs_ghost s')"
proof -
  let ?g = "cs_ghost s" and ?M = "N * R"
  have G: "refs_global R N (cs_val s) ?g" and L: "refs_local R ?M t (cs_pc s t) ?g"
    using inv t by (auto simp: inv_upto_def refs_inv_def)
  have u: "refs_usable R N" using inv t st by (auto simp: inv_upto_def refs_inv_def cas_step_def)
  then have M: "?M + 1 < 2 ^ 28" by (simp add: refs_usable_def)
  note seen = refs_seen_current [OF G t]
  show ?thesis
  proof (cases "cs_pc s t")
    case (Test op lv)
    have "refs_local R ?M t (attempt_pc op lv (refs_body op True lv)) ?g"
      using refs_body_safe [OF M] L by (cases "refs_body op True lv") (auto simp: Test)
    then show ?thesis
      using st G u refs_body_own [of op "cs_owner s = Some t" lv True] by (auto simp: Test cas_step_def refs_inv_def)
  next
    case (Comp op lv nlv a)
    then show ?thesis
      using st G L refs_comp [OF M t, of lv ?g op nlv a] u
      by (auto simp: cas_step_def refs_inv_def rcomp_ok_def split: if_splits)
  qed (use st G L u seen in \<open>auto simp: cas_step_def refs_inv_def split: if_splits\<close>)
qed

interpretation rf: cas_protocol "refs_code R N" no_refs N "\<lambda>v ow g. refs_global R N v g" "refs_inv R N"
  HAMMER_REFS_WANTED for R N
proof unfold_locales
  show "refs_global R N 0 no_refs"
    using rword_numerals(1) unfolding refs_global_def
    by (auto simp: refs_total_def locked_def no_refs_def rc_def il_def)
next
  fix t assume "t < N"
  show "refs_inv R N t (Idle 0) None no_refs" by (simp add: refs_inv_def)
next
  fix t v ow g r op
  assume "refs_inv R N t (Idle r) ow g" "cc_can (refs_code R N) op t g"
  then show "refs_inv R N t (Entry op) ow g" by (simp add: refs_inv_def)
next
  fix t s s' assume "t < N" "inv_upto (\<lambda>v ow g. refs_global R N v g) (refs_inv R N) N s"
    "cas_step (refs_code R N) t s = Some s'"
  then show "refs_global R N (cs_val s') (cs_ghost s') \<and> refs_inv R N t (cs_pc s' t) (cs_owner s') (cs_ghost s')"
    by (rule refs_step_own)
next
  fix t s s' t' assume a: "inv_upto (\<lambda>v ow g. refs_global R N v g) (refs_inv R N) N s"
    "cas_step (refs_code R N) t s = Some s'" "t' < N" "t' \<noteq> t"
  have "cs_ghost s' t' = cs_ghost s t'"
    using a(2,4) by (auto simp: cas_step_def split: pc.splits if_splits)
  then show "refs_inv R N t' (cs_pc s t') (cs_owner s') (cs_ghost s')"
    using a(1,3) refs_local_frame [of "cs_ghost s'" t' "cs_ghost s"] by (simp add: refs_inv_def inv_upto_def)
next
  fix t op v nlv ow g assume "refs_inv R N t (Comp op v nlv Sleep) ow g"
  then show "nlv AND HAMMER_REFS_WANTED \<noteq> 0" using refs_wanted(1) [of "N * R"] unfolding refs_inv_def refs_usable_def by blast
next
  fix t op v nlv a ow g assume "refs_inv R N t (Comp op v nlv a) ow g"
    "v AND HAMMER_REFS_WANTED \<noteq> 0" "nlv AND HAMMER_REFS_WANTED = 0"
  then show "\<exists>r. a = Wake r" using refs_wanted(2) [of "N * R"] unfolding refs_inv_def refs_usable_def by blast
qed

definition refs_rank :: "refs_op \<Rightarrow> nat" where
  "refs_rank op = (if op = Ref_Interlock then 1 else 0)"

lemmas refs_bodies = hammer_ref_def hammer_rel_def hammer_ref_interlock_def hammer_ref_interlock_wait_def
  hammer_ref_interlock_true_def hammer_ref_interlock_done_def hammer_rel_interlock_def hammer_rel_interlock_done_def
  hammer_get_interlock_def hammer_try_interlock_norefs_def hammer_put_interlock_def

interpretation rfl: cas_loops "refs_code R N" refs_rank for R N
proof unfold_locales
  fix op own lv p nlv op'
  show "cc_body (refs_code R N) op own lv = Cas p nlv Sleep \<Longrightarrow> p = Interlock"
    by (cases op) (auto simp: refs_bodies Let_def split: if_splits)
  show "cc_body (refs_code R N) op own lv = Cas p nlv (Goto op') \<Longrightarrow> refs_rank op' < refs_rank op"
    by (cases op) (auto simp: refs_bodies refs_rank_def Let_def split: if_splits)
  show "refs_rank op \<le> 1" by (simp add: refs_rank_def)
qed

text \<open>A thread sleeps only while another one, awake, has the interlock or is about to wake it up.\<close>

lemma refs_progress:
  assumes reach: "cas_reach (refs_code R N) no_refs N s" and t: "cs_pc s t = Sleeping op" "t \<in> cs_wait s"
  shows "\<exists>u < N. (\<forall>op. cs_pc s u \<noteq> Sleeping op) \<and> (il (cs_ghost s) u \<or> (\<exists>r. cs_pc s u = Waking r))"
proof -
  let ?g = "cs_ghost s"
  note inv = rf.reach_inv [OF reach]
  have tN: "t < N" using running_thread [OF inv t(1)] by simp
  then have u: "N * R < 2 ^ 28" using inv t(1) by (auto simp: inv_upto_def refs_inv_def refs_usable_def)
  have asleep: "\<not> il ?g x" if "x < N" "cs_pc s x = Sleeping op" for x op
    using inv that by (auto simp: inv_upto_def refs_inv_def)
  from rf.no_lost_wakeup [OF reach t] show ?thesis
  proof
    assume w: "cs_val s AND HAMMER_REFS_WANTED \<noteq> 0"
    have "refs_global R N (cs_val s) ?g" using inv by (simp add: inv_upto_def)
    from refs_globalE [OF this u] obtain w c where "cs_val s = rword (refs_total N ?g) (locked N ?g) w c"
      "w \<longrightarrow> locked N ?g" "refs_total N ?g < 2 ^ 28" .
    then have "locked N ?g" using w by (auto simp: rword_flags)
    then obtain x where "x < N" "il ?g x" by (auto simp: locked_def)
    then show ?thesis using asleep by (intro exI [of _ x]) auto
  next
    assume "\<exists>t' < N. \<exists>r. cs_pc s t' = Waking r"
    then show ?thesis by force
  qed
qed

end
