(* ===== verification/Kern_Endian.thy ===== *)
theory Kern_Endian
  imports Kern_Ctype
begin

text \<open>
  Integers in byte streams (\<open>sys/sys/endian.h\<close>).  A stream is a byte array; the routines read and write at an
  offset, byte by byte in the order of the code.  Values are natural numbers below the power of their width.
\<close>

unbundle bit_operations_syntax

section \<open>The code\<close>

definition be16dec :: "byte list \<Rightarrow> nat \<Rightarrow> nat kres" where
  "be16dec m p = rbind (rd m p) (\<lambda>b0. rbind (rd m (p + 1)) (\<lambda>b1. Inr (push_bit 8 b0 OR b1)))"

definition be32dec :: "byte list \<Rightarrow> nat \<Rightarrow> nat kres" where
  "be32dec m p =
     rbind (rd m p) (\<lambda>b0. rbind (rd m (p + 1)) (\<lambda>b1. rbind (rd m (p + 2)) (\<lambda>b2. rbind (rd m (p + 3)) (\<lambda>b3.
       Inr (push_bit 24 b0 OR push_bit 16 b1 OR push_bit 8 b2 OR b3)))))"

definition be64dec :: "byte list \<Rightarrow> nat \<Rightarrow> nat kres" where
  "be64dec m p = rbind (be32dec m p) (\<lambda>h. rbind (be32dec m (p + 4)) (\<lambda>l. Inr (push_bit 32 h OR l)))"

definition le16dec :: "byte list \<Rightarrow> nat \<Rightarrow> nat kres" where
  "le16dec m p = rbind (rd m (p + 1)) (\<lambda>b1. rbind (rd m p) (\<lambda>b0. Inr (push_bit 8 b1 OR b0)))"

definition le32dec :: "byte list \<Rightarrow> nat \<Rightarrow> nat kres" where
  "le32dec m p =
     rbind (rd m (p + 3)) (\<lambda>b3. rbind (rd m (p + 2)) (\<lambda>b2. rbind (rd m (p + 1)) (\<lambda>b1. rbind (rd m p) (\<lambda>b0.
       Inr (push_bit 24 b3 OR push_bit 16 b2 OR push_bit 8 b1 OR b0)))))"

definition le64dec :: "byte list \<Rightarrow> nat \<Rightarrow> nat kres" where
  "le64dec m p = rbind (le32dec m (p + 4)) (\<lambda>h. rbind (le32dec m p) (\<lambda>l. Inr (push_bit 32 h OR l)))"

definition be16enc :: "byte list \<Rightarrow> nat \<Rightarrow> nat \<Rightarrow> byte list kres" where
  "be16enc m p u = rbind (wr m p (drop_bit 8 u AND 0xff)) (\<lambda>m. wr m (p + 1) (u AND 0xff))"

definition be32enc :: "byte list \<Rightarrow> nat \<Rightarrow> nat \<Rightarrow> byte list kres" where
  "be32enc m p u =
     rbind (wr m p (drop_bit 24 u AND 0xff)) (\<lambda>m. rbind (wr m (p + 1) (drop_bit 16 u AND 0xff)) (\<lambda>m.
     rbind (wr m (p + 2) (drop_bit 8 u AND 0xff)) (\<lambda>m. wr m (p + 3) (u AND 0xff))))"

definition be64enc :: "byte list \<Rightarrow> nat \<Rightarrow> nat \<Rightarrow> byte list kres" where
  "be64enc m p u = rbind (be32enc m p (drop_bit 32 u)) (\<lambda>m. be32enc m (p + 4) (u AND 0xffffffff))"

definition le16enc :: "byte list \<Rightarrow> nat \<Rightarrow> nat \<Rightarrow> byte list kres" where
  "le16enc m p u = rbind (wr m p (u AND 0xff)) (\<lambda>m. wr m (p + 1) (drop_bit 8 u AND 0xff))"

definition le32enc :: "byte list \<Rightarrow> nat \<Rightarrow> nat \<Rightarrow> byte list kres" where
  "le32enc m p u =
     rbind (wr m p (u AND 0xff)) (\<lambda>m. rbind (wr m (p + 1) (drop_bit 8 u AND 0xff)) (\<lambda>m.
     rbind (wr m (p + 2) (drop_bit 16 u AND 0xff)) (\<lambda>m. wr m (p + 3) (drop_bit 24 u AND 0xff))))"

definition le64enc :: "byte list \<Rightarrow> nat \<Rightarrow> nat \<Rightarrow> byte list kres" where
  "le64enc m p u = rbind (le32enc m p (u AND 0xffffffff)) (\<lambda>m. le32enc m (p + 4) (drop_bit 32 u))"

section \<open>Digits of a number\<close>

lemma and_ff: "u AND 0xff = u mod 256" "u AND 0xffffffff = u mod 2 ^ 32" for u :: nat
proof -
  have m: "(0xff :: nat) = mask 8" "(0xffffffff :: nat) = mask 32" by (simp_all add: mask_eq_exp_minus_1)
  show "u AND 0xff = u mod 256" "u AND 0xffffffff = u mod 2 ^ 32"
    unfolding m take_bit_eq_mask [symmetric] by (simp_all add: take_bit_eq_mod)
qed

lemma or_digits: "b < 2 ^ k \<Longrightarrow> push_bit k a OR b = a * 2 ^ k + b" for a b :: nat
proof -
  assume b: "b < 2 ^ k"
  have "\<not> bit (push_bit k a) i \<or> \<not> bit b i" for i
    using b by (auto simp: bit_push_bit_iff) (metis bit_take_bit_iff linorder_not_le take_bit_nat_eq_self)
  then have "push_bit k a + b = push_bit k a OR b" by (rule disjunctive_add)
  then show ?thesis by (simp add: push_bit_eq_mult)
qed

lemma or4: "b < 2 ^ 8 \<Longrightarrow> c < 2 ^ 8 \<Longrightarrow> d < 2 ^ 8 \<Longrightarrow>
  push_bit 24 a OR push_bit 16 b OR push_bit 8 c OR d = ((a * 2 ^ 8 + b) * 2 ^ 8 + c) * 2 ^ 8 + d" for a b c d :: nat
proof -
  assume b: "b < 2 ^ 8" "c < 2 ^ 8" "d < 2 ^ 8"
  have "push_bit 8 c OR d = c * 2 ^ 8 + d" using b(3) by (rule or_digits)
  moreover have "c * 2 ^ 8 + d < 2 ^ 16" using b(2,3) by simp
  then have "push_bit 16 b OR (c * 2 ^ 8 + d) = b * 2 ^ 16 + (c * 2 ^ 8 + d)" by (rule or_digits)
  moreover have "b * 2 ^ 16 + (c * 2 ^ 8 + d) < 2 ^ 24" using b by simp
  then have "push_bit 24 a OR (b * 2 ^ 16 + (c * 2 ^ 8 + d)) = a * 2 ^ 24 + (b * 2 ^ 16 + (c * 2 ^ 8 + d))"
    by (rule or_digits)
  ultimately show ?thesis by simp
qed

lemma join4: "u < 2 ^ 32 \<Longrightarrow>
    ((u div 2 ^ 24 mod 256 * 2 ^ 8 + u div 2 ^ 16 mod 256) * 2 ^ 8 + u div 2 ^ 8 mod 256) * 2 ^ 8 + u mod 256 = u" for u :: nat
proof -
  assume "u < 2 ^ 32"
  then have "u div 2 ^ 24 mod 256 = u div 2 ^ 24" by simp
  moreover have "u div 2 ^ 24 = u div 2 ^ 8 div 2 ^ 8 div 2 ^ 8" "u div 2 ^ 16 = u div 2 ^ 8 div 2 ^ 8"
    by (simp_all add: div_mult2_eq)
  ultimately show ?thesis by simp
qed

section \<open>Round trips\<close>

lemma enc16:
  assumes "p + 1 < length m"
  shows "be16enc m p u = Inr (m[p := u div 2 ^ 8 mod 256, p + 1 := u mod 256])"
    and "le16enc m p u = Inr (m[p := u mod 256, p + 1 := u div 2 ^ 8 mod 256])"
  using assms by (simp_all add: be16enc_def le16enc_def and_ff drop_bit_eq_div)

lemma enc32:
  assumes "p + 3 < length m"
  shows "be32enc m p u =
      Inr (m[p := u div 2 ^ 24 mod 256, p + 1 := u div 2 ^ 16 mod 256, p + 2 := u div 2 ^ 8 mod 256, p + 3 := u mod 256])"
    and "le32enc m p u =
      Inr (m[p := u mod 256, p + 1 := u div 2 ^ 8 mod 256, p + 2 := u div 2 ^ 16 mod 256, p + 3 := u div 2 ^ 24 mod 256])"
  using assms by (simp_all add: be32enc_def le32enc_def and_ff drop_bit_eq_div)

lemma dec16:
  assumes "p + 1 < length m" "m ! p < 256" "m ! (p + 1) < 256"
  shows "be16dec m p = Inr (m ! p * 2 ^ 8 + m ! (p + 1))" and "le16dec m p = Inr (m ! (p + 1) * 2 ^ 8 + m ! p)"
  using assms or_digits [of "m ! (p + 1)" 8 "m ! p"] or_digits [of "m ! p" 8 "m ! (p + 1)"]
  by (simp_all add: be16dec_def le16dec_def)

lemma dec32:
  assumes "p + 3 < length m" "m ! p < 256" "m ! (p + 1) < 256" "m ! (p + 2) < 256" "m ! (p + 3) < 256"
  shows "be32dec m p = Inr (((m ! p * 2 ^ 8 + m ! (p + 1)) * 2 ^ 8 + m ! (p + 2)) * 2 ^ 8 + m ! (p + 3))"
    and "le32dec m p = Inr (((m ! (p + 3) * 2 ^ 8 + m ! (p + 2)) * 2 ^ 8 + m ! (p + 1)) * 2 ^ 8 + m ! p)"
  using assms or4 [of "m ! (p + 1)" "m ! (p + 2)" "m ! (p + 3)" "m ! p"] or4 [of "m ! (p + 2)" "m ! (p + 1)" "m ! p" "m ! (p + 3)"]
  by (simp_all add: be32dec_def le32dec_def)

lemma endian16_roundtrip:
  assumes "p + 1 < length m" "u < 2 ^ 16"
  shows "rbind (be16enc m p u) (\<lambda>m. be16dec m p) = Inr u" and "rbind (le16enc m p u) (\<lambda>m. le16dec m p) = Inr u"
  using assms by (simp_all add: enc16 dec16)

lemma endian32_roundtrip:
  assumes "p + 3 < length m" "u < 2 ^ 32"
  shows "rbind (be32enc m p u) (\<lambda>m. be32dec m p) = Inr u" and "rbind (le32enc m p u) (\<lambda>m. le32dec m p) = Inr u"
  using assms join4 [OF assms(2)] by (simp_all add: enc32 dec32)

end
