(* ===== verification/Hammer_Misc.thy ===== *)
theory Hammer_Misc
  imports Kern_Endian Crc32_Spec Strto Kvprintf
begin

text \<open>
  The conversion and checksum routines of \<open>sys/vfs/hammer/hammer_subs.c\<close>: object types, ids and times, block
  sizes, the hash of directory entries, the parser of transaction ids, and the checksums of the
  on-disk structures.  The platform is x86-64: an on-disk structure is its image as a byte array, and a store into a
  32-bit field writes its bytes in little-endian order.
\<close>

unbundle bit_operations_syntax

section \<open>Ids and times\<close>

definition hammer_to_unix_xid :: "byte list \<Rightarrow> nat kres" where
  "hammer_to_unix_xid uuid = le32dec uuid (10 + 2)"

definition hammer_guid_to_uuid :: "nat \<Rightarrow> byte list kres" where
  "hammer_guid_to_uuid guid = le32enc (replicate 16 0) (10 + 2) guid"

definition hammer_time_to_timespec :: "nat \<Rightarrow> timespec" where
  "hammer_time_to_timespec xtime =
     \<lparr>tv_sec = swrap 64 (int (xtime div 1000000)), tv_nsec = int (xtime mod 1000000) * 1000\<rparr>"

definition hammer_timespec_to_time :: "timespec \<Rightarrow> nat" where
  "hammer_timespec_to_time ts =
     nat ((cdiv (tv_nsec ts) 1000 mod 2 ^ 32 + tv_sec ts mod 2 ^ 64 * 1000000) mod 2 ^ 64)"

section \<open>Object types\<close>

datatype vtype = VNON | VREG | VDIR | VBLK | VCHR | VLNK | VSOCK | VFIFO | VBAD | VDATABASE | VINT

abbreviation (input) HAMMER_OBJTYPE_UNKNOWN :: nat where "HAMMER_OBJTYPE_UNKNOWN \<equiv> 0"
abbreviation (input) HAMMER_OBJTYPE_DIRECTORY :: nat where "HAMMER_OBJTYPE_DIRECTORY \<equiv> 1"
abbreviation (input) HAMMER_OBJTYPE_REGFILE :: nat where "HAMMER_OBJTYPE_REGFILE \<equiv> 2"
abbreviation (input) HAMMER_OBJTYPE_DBFILE :: nat where "HAMMER_OBJTYPE_DBFILE \<equiv> 3"
abbreviation (input) HAMMER_OBJTYPE_FIFO :: nat where "HAMMER_OBJTYPE_FIFO \<equiv> 4"
abbreviation (input) HAMMER_OBJTYPE_CDEV :: nat where "HAMMER_OBJTYPE_CDEV \<equiv> 5"
abbreviation (input) HAMMER_OBJTYPE_BDEV :: nat where "HAMMER_OBJTYPE_BDEV \<equiv> 6"
abbreviation (input) HAMMER_OBJTYPE_SOFTLINK :: nat where "HAMMER_OBJTYPE_SOFTLINK \<equiv> 7"
abbreviation (input) HAMMER_OBJTYPE_SOCKET :: nat where "HAMMER_OBJTYPE_SOCKET \<equiv> 9"

definition hammer_get_vnode_type :: "nat \<Rightarrow> vtype" where
  "hammer_get_vnode_type obj_type =
    (if obj_type = HAMMER_OBJTYPE_DIRECTORY then VDIR
     else if obj_type = HAMMER_OBJTYPE_REGFILE then VREG
     else if obj_type = HAMMER_OBJTYPE_DBFILE then VDATABASE
     else if obj_type = HAMMER_OBJTYPE_FIFO then VFIFO
     else if obj_type = HAMMER_OBJTYPE_SOCKET then VSOCK
     else if obj_type = HAMMER_OBJTYPE_CDEV then VCHR
     else if obj_type = HAMMER_OBJTYPE_BDEV then VBLK
     else if obj_type = HAMMER_OBJTYPE_SOFTLINK then VLNK
     else VBAD)"

definition hammer_get_dtype :: "nat \<Rightarrow> nat" where
  "hammer_get_dtype obj_type =
    (if obj_type = HAMMER_OBJTYPE_DIRECTORY then 4
     else if obj_type = HAMMER_OBJTYPE_REGFILE then 8
     else if obj_type = HAMMER_OBJTYPE_DBFILE then 15
     else if obj_type = HAMMER_OBJTYPE_FIFO then 1
     else if obj_type = HAMMER_OBJTYPE_SOCKET then 12
     else if obj_type = HAMMER_OBJTYPE_CDEV then 2
     else if obj_type = HAMMER_OBJTYPE_BDEV then 6
     else if obj_type = HAMMER_OBJTYPE_SOFTLINK then 10
     else 0)"

fun hammer_get_obj_type :: "vtype \<Rightarrow> nat" where
  "hammer_get_obj_type VDIR = HAMMER_OBJTYPE_DIRECTORY"
| "hammer_get_obj_type VREG = HAMMER_OBJTYPE_REGFILE"
| "hammer_get_obj_type VDATABASE = HAMMER_OBJTYPE_DBFILE"
| "hammer_get_obj_type VFIFO = HAMMER_OBJTYPE_FIFO"
| "hammer_get_obj_type VSOCK = HAMMER_OBJTYPE_SOCKET"
| "hammer_get_obj_type VCHR = HAMMER_OBJTYPE_CDEV"
| "hammer_get_obj_type VBLK = HAMMER_OBJTYPE_BDEV"
| "hammer_get_obj_type VLNK = HAMMER_OBJTYPE_SOFTLINK"
| "hammer_get_obj_type _ = HAMMER_OBJTYPE_UNKNOWN"

definition hammer_nohistory :: "u32 \<Rightarrow> u32 \<Rightarrow> nat" where
  "hammer_nohistory hflags uflags =
    (if hflags AND 0x00000001 \<noteq> 0 then 2
     else if uflags AND (0x00400000 OR 0x00000040) \<noteq> 0 then 2
     else 0)"

section \<open>Block sizes\<close>

abbreviation (input) HAMMER_BUFSIZE :: int where "HAMMER_BUFSIZE \<equiv> 16384"
abbreviation (input) HAMMER_XBUFSIZE :: int where "HAMMER_XBUFSIZE \<equiv> 65536"
abbreviation (input) HAMMER_XDEMARC :: int where "HAMMER_XDEMARC \<equiv> 1024 * 1024"

definition hammer_blocksize :: "int \<Rightarrow> int" where
  "hammer_blocksize file_offset = (if file_offset < HAMMER_XDEMARC then HAMMER_BUFSIZE else HAMMER_XBUFSIZE)"

definition hammer_blockoff :: "int \<Rightarrow> int" where
  "hammer_blockoff file_offset =
    (if file_offset < HAMMER_XDEMARC then swrap 32 file_offset AND (HAMMER_BUFSIZE - 1)
     else swrap 32 file_offset AND (HAMMER_XBUFSIZE - 1))"

definition hammer_blockdemarc :: "int \<Rightarrow> int \<Rightarrow> int kres" where
  "hammer_blockdemarc file_offset1 file_offset2 =
    (if file_offset1 < HAMMER_XDEMARC then
       if file_offset2 \<le> HAMMER_XDEMARC then Inr file_offset2 else Inr HAMMER_XDEMARC
     else Inl (Panic ''hammer_blockdemarc: illegal range''))"

section \<open>The hash of a directory entry\<close>

definition namekey_special :: "byte \<Rightarrow> bool" where
  "namekey_special c \<longleftrightarrow> c = 46 \<or> c = 45 \<or> c = 95 \<or> c = 126"

fun namekey_loop :: "byte list \<Rightarrow> nat \<Rightarrow> nat \<Rightarrow> u32 \<Rightarrow> nat \<Rightarrow> (u32 \<times> nat) kres" where
  "namekey_loop aname i j crcx 0 = Inr (crcx, j)"
| "namekey_loop aname i j crcx (Suc k) =
     rbind (rd aname i) (\<lambda>c.
     if namekey_special c then
       rbind (if i \<noteq> j then rbind (crc32 (drop j aname) (i - j)) (\<lambda>v. Inr (crcx + v)) else Inr crcx) (\<lambda>crcx.
         namekey_loop aname (i + 1) (i + 1) crcx k)
     else namekey_loop aname (i + 1) j crcx k)"

definition hammer_directory_namekey :: "nat \<Rightarrow> byte list \<Rightarrow> nat \<Rightarrow> (64 word \<times> u32) kres" where
  "hammer_directory_namekey cap_flags aname len =
    (if cap_flags AND 3 = 0 then
       rbind (crc32 aname len) (\<lambda>c.
         let key = push_bit 32 (ucast (c AND 0x7FFFFFFF)) in
         Inr (if key = 0 then key OR 0x100000000 else key, 0xFFFFFFFF))
     else if cap_flags AND 3 = 1 then
       rbind (namekey_loop aname 0 0 0 len) (\<lambda>(crcx, j).
       rbind (if len \<noteq> j then rbind (crc32 (drop j aname) (len - j)) (\<lambda>v. Inr (crcx + v)) else Inr crcx) (\<lambda>crcx.
       let key = push_bit 32 (ucast (crcx AND 0x7FFFFFFF)) in
       rbind (crc32 aname len) (\<lambda>c.
         let c = c XOR push_bit 16 c;
             key = key OR ucast (c AND 0xFFFF0000)
         in Inr (if key AND 0xFFFFFFFF00000000 = 0 then key OR 0x100000000 else key, 0x00FFFFFF))))
     else Inl (Panic ''hammer_directory_namekey: bad algorithm''))"

section \<open>Transaction ids\<close>

text \<open>\<^term>\<open>None\<close> is the return of \<open>EINVAL\<close>; a success gives \<open>*ispfsp\<close>, \<open>*tidp\<close> and \<open>*localizationp\<close>.\<close>

definition hammer_str_to_tid :: "byte list \<Rightarrow> u32 \<Rightarrow> (bool \<times> nat \<times> u32) option kres" where
  "hammer_str_to_tid str localization =
     rbind (strtouq str 0) (\<lambda>(tid, n).
     rbind (if n = 2 then rbind (rd str 0) (\<lambda>a. rbind (rd str 1) (\<lambda>b. Inr (a = 45 \<and> b = 49))) else Inr False) (\<lambda>ok1.
     rbind (if ok1 then Inr True
            else if n = 18 then rbind (rd str 0) (\<lambda>a. rbind (rd str 1) (\<lambda>b. Inr (a = 48 \<and> b OR 0x20 = 120)))
            else Inr False) (\<lambda>ok.
     if \<not> ok then Inr None
     else
       rbind (rd str n) (\<lambda>c.
       rbind (if c = 58 then
                rbind (strtoul 64 (drop (n + 1) str) 10) (\<lambda>(v, e).
                  Inr (if 1 + e \<noteq> 6 then None else Some (of_nat (push_bit 16 v), n + 1 + e, True)))
              else Inr (Some (localization, n, False))) (\<lambda>r.
       case r of
         None \<Rightarrow> Inr None
       | Some (localization, p, ispfs) \<Rightarrow>
           rbind (rd str p) (\<lambda>c. Inr (if c \<noteq> 0 then None else Some (ispfs, tid, localization))))))))"

section \<open>Checksums of on-disk structures\<close>

text \<open>Offsets and sizes follow from the declarations in \<open>hammer_disk.h\<close> and \<open>hammer_btree.h\<close>.\<close>

abbreviation (input) HAMMER_BLOCKMAP_CRCSIZE :: nat where "HAMMER_BLOCKMAP_CRCSIZE \<equiv> 36"
abbreviation (input) HAMMER_VOL_CRCSIZE1 :: nat where "HAMMER_VOL_CRCSIZE1 \<equiv> 156"
abbreviation (input) HAMMER_VOL_CRCSIZE2 :: nat where "HAMMER_VOL_CRCSIZE2 \<equiv> 1928 - 156 - 4"
abbreviation (input) HAMMER_BTREE_CRCSIZE :: nat where "HAMMER_BTREE_CRCSIZE \<equiv> 4096 - 4"
abbreviation (input) HAMMER_INODE_SIZE :: nat where "HAMMER_INODE_SIZE \<equiv> 128"
abbreviation (input) HAMMER_INODE_CRCSIZE :: nat where "HAMMER_INODE_CRCSIZE \<equiv> 112"

definition hammer_crc_set_blockmap :: "byte list \<Rightarrow> byte list kres" where
  "hammer_crc_set_blockmap blockmap =
     rbind (crc32 blockmap HAMMER_BLOCKMAP_CRCSIZE) (\<lambda>crc. le32enc blockmap HAMMER_BLOCKMAP_CRCSIZE (unat crc))"

definition hammer_crc_set_volume :: "byte list \<Rightarrow> byte list kres" where
  "hammer_crc_set_volume ondisk =
     rbind (crc32 ondisk HAMMER_VOL_CRCSIZE1) (\<lambda>c1.
     rbind (crc32 (drop (HAMMER_VOL_CRCSIZE1 + 4) ondisk) HAMMER_VOL_CRCSIZE2) (\<lambda>c2.
       le32enc ondisk HAMMER_VOL_CRCSIZE1 (unat (c1 XOR c2))))"

definition hammer_crc_test_blockmap :: "byte list \<Rightarrow> bool kres" where
  "hammer_crc_test_blockmap blockmap =
     rbind (crc32 blockmap HAMMER_BLOCKMAP_CRCSIZE) (\<lambda>crc.
     rbind (le32dec blockmap HAMMER_BLOCKMAP_CRCSIZE) (\<lambda>entry_crc. Inr (entry_crc = unat crc)))"

definition hammer_crc_test_volume :: "byte list \<Rightarrow> bool kres" where
  "hammer_crc_test_volume ondisk =
     rbind (crc32 ondisk HAMMER_VOL_CRCSIZE1) (\<lambda>c1.
     rbind (crc32 (drop (HAMMER_VOL_CRCSIZE1 + 4) ondisk) HAMMER_VOL_CRCSIZE2) (\<lambda>c2.
     rbind (le32dec ondisk HAMMER_VOL_CRCSIZE1) (\<lambda>vol_crc. Inr (vol_crc = unat (c1 XOR c2)))))"

definition hammer_crc_test_btree :: "byte list \<Rightarrow> bool kres" where
  "hammer_crc_test_btree ondisk =
     rbind (crc32 (drop 4 ondisk) HAMMER_BTREE_CRCSIZE) (\<lambda>c.
     rbind (le32dec ondisk 0) (\<lambda>crc. Inr (crc = unat c)))"

record leaf_elm =
  rec_type :: nat
  data_len :: int
  data_crc :: u32

abbreviation (input) HAMMER_RECTYPE_INODE :: nat where "HAMMER_RECTYPE_INODE \<equiv> 1"

definition hammer_crc_test_leaf :: "byte list \<Rightarrow> leaf_elm \<Rightarrow> bool kres" where
  "hammer_crc_test_leaf data leaf =
    (if data_len leaf = 0 then Inr (data_crc leaf = 0)
     else if rec_type leaf = HAMMER_RECTYPE_INODE then
       if data_len leaf \<noteq> int HAMMER_INODE_SIZE then Inr False
       else rbind (crc32 data HAMMER_INODE_CRCSIZE) (\<lambda>crc. Inr (data_crc leaf = crc))
     else rbind (crc32 data (nat (data_len leaf mod 2 ^ 64))) (\<lambda>crc. Inr (data_crc leaf = crc)))"

definition hammer_crc_set_leaf :: "byte list \<Rightarrow> leaf_elm \<Rightarrow> leaf_elm kres" where
  "hammer_crc_set_leaf data leaf =
    (if data_len leaf = 0 then Inr (leaf\<lparr>data_crc := 0\<rparr>)
     else if rec_type leaf = HAMMER_RECTYPE_INODE then
       if data_len leaf \<noteq> int HAMMER_INODE_SIZE then Inl (Panic ''leaf->data_len == sizeof(struct hammer_inode_data)'')
       else rbind (crc32 data HAMMER_INODE_CRCSIZE) (\<lambda>crc. Inr (leaf\<lparr>data_crc := crc\<rparr>))
     else rbind (crc32 data (nat (data_len leaf mod 2 ^ 64))) (\<lambda>crc. Inr (leaf\<lparr>data_crc := crc\<rparr>)))"

definition hammer_fsid_to_udev :: "byte list \<Rightarrow> u32 kres" where
  "hammer_fsid_to_udev uuid = crc32 uuid 16"

end
