(* ===== verification/Hammer_Misc_Spec.thy ===== *)
theory Hammer_Misc_Spec
  imports Hammer_Misc Kvprintf_Spec
begin

text \<open>What the conversion, hash, parser and checksum routines of HAMMER compute.\<close>

unbundle bit_operations_syntax

section \<open>The directory hash\<close>

definition crc_of :: "byte list \<Rightarrow> u32" where
  "crc_of bs = NOT (crc_ref crc32_poly (- 1) bs)"

lemma crc32_crc_of:
  "\<forall>b \<in> set buf. b < 256 \<Longrightarrow> j + n \<le> length buf \<Longrightarrow> crc32 (drop j buf) n = Inr (crc_of (take n (drop j buf)))"
  unfolding crc_of_def by (rule crc32_spec(1)) (auto dest: in_set_dropD)

text \<open>The parts of a name between special characters, without the empty ones.\<close>

function segments :: "byte list \<Rightarrow> byte list list" where
  "segments xs =
    (if xs = [] then []
     else let s = takeWhile (\<lambda>c. \<not> namekey_special c) xs
          in (if s = [] then [] else [s]) @ segments (drop (length s + 1) xs))"
  by pat_completeness auto
termination
  by (relation "measure length") auto

declare segments.simps [simp del]

lemma segments_Nil [simp]: "segments [] = []"
  by (simp add: segments.simps)

lemma segments_special:
  assumes "\<forall>x \<in> set s. \<not> namekey_special x" "namekey_special c"
  shows "segments (s @ c # r) = (if s = [] then [] else [s]) @ segments r"
  using assms by (subst segments.simps) (simp add: takeWhile_append takeWhile_eq_all_conv [THEN iffD2])

lemma segments_plain:
  assumes "\<forall>x \<in> set s. \<not> namekey_special x" shows "segments s = (if s = [] then [] else [s])"
  using assms by (subst segments.simps) (simp add: takeWhile_eq_all_conv [THEN iffD2])

text \<open>A special character separates: \<open>name.ext\<close> has the segments of the name and of the extension.\<close>

lemma segments_append: "namekey_special c \<Longrightarrow> segments (a @ c # b) = segments a @ segments b"
proof (induction a rule: segments.induct)
  case (1 a)
  let ?s = "takeWhile (\<lambda>c. \<not> namekey_special c) a"
  show ?case
  proof (cases "\<exists>x \<in> set a. namekey_special x")
    case False
    then show ?thesis using segments_special [of a c b] segments_plain [of a] 1(2) by simp
  next
    case True
    then obtain d r where a: "a = ?s @ d # r" "namekey_special d"
      by (metis takeWhile_dropWhile_id dropWhile_eq_Cons_conv dropWhile_eq_Nil_conv neq_Nil_conv)
    have s: "\<forall>x \<in> set ?s. \<not> namekey_special x" by (auto dest: set_takeWhileD)
    have "drop (length ?s + 1) (?s @ d # r) = r" by simp
    then have "drop (length ?s + 1) a = r" using a(1) by simp
    moreover have "a \<noteq> []" using True by auto
    ultimately have IH: "segments (r @ c # b) = segments r @ segments b" using 1(1) [OF _ refl 1(2)] by simp
    have "segments (a @ c # b) = segments (?s @ d # (r @ c # b))" using a(1) by (metis append.assoc append_Cons)
    also have "\<dots> = (if ?s = [] then [] else [?s]) @ segments (r @ c # b)" by (rule segments_special [OF s a(2)])
    also have "\<dots> = segments (?s @ d # r) @ segments b" by (simp add: IH segments_special [OF s a(2)])
    finally show ?thesis using a(1) by simp
  qed
qed

definition seg_sum :: "byte list \<Rightarrow> u32" where
  "seg_sum bs = sum_list (map crc_of (segments bs))"

lemma namekey_loop_spec:
  assumes bytes: "\<forall>b \<in> set buf. b < 256" and len: "len \<le> length buf"
  shows "i + k = len \<Longrightarrow> j \<le> i \<Longrightarrow> (\<forall>x \<in> set (take (i - j) (drop j buf)). \<not> namekey_special x) \<Longrightarrow>
    \<exists>x' j'. namekey_loop buf i j x k = Inr (x', j') \<and> j' \<le> len \<and>
      x' + (if len \<noteq> j' then crc_of (take (len - j') (drop j' buf)) else 0) = x + seg_sum (drop j (take len buf))"
proof (induction k arbitrary: i j x)
  case 0
  then have "take (i - j) (drop j buf) = drop j (take len buf)" by (simp add: take_drop)
  then show ?case using 0 segments_plain [of "drop j (take len buf)"] len
    by (auto simp: seg_sum_def take_drop)
next
  case (Suc k)
  let ?s = "take (i - j) (drop j buf)" and ?c = "buf ! i"
  have i: "i < len" "i < length buf" using Suc.prems(1) len by auto
  have split: "drop j (take len buf) = ?s @ ?c # drop (i + 1) (take len buf)"
  proof -
    have "drop j (take len buf) = take (i - j) (drop j (take len buf)) @ drop (i - j) (drop j (take len buf))"
      by (rule append_take_drop_id [symmetric])
    also have "take (i - j) (drop j (take len buf)) = ?s" using i Suc.prems(2) by (simp add: take_drop min_def)
    also have "drop (i - j) (drop j (take len buf)) = drop i (take len buf)" using Suc.prems(2) by simp
    also have "\<dots> = ?c # drop (i + 1) (take len buf)" using i len by (simp add: Cons_nth_drop_Suc [symmetric])
    finally show ?thesis .
  qed
  show ?case
  proof (cases "namekey_special ?c")
    case True
    let ?y = "if i \<noteq> j then x + crc_of ?s else x"
    have seg: "seg_sum (drop j (take len buf)) = (if i \<noteq> j then crc_of ?s else 0) + seg_sum (drop (i + 1) (take len buf))"
      unfolding split seg_sum_def segments_special [OF Suc.prems(3) True] using i Suc.prems(2) by (auto simp: len)
    have "namekey_loop buf i j x (Suc k) = namekey_loop buf (i + 1) (i + 1) ?y k"
      using True i Suc.prems(2) by (simp add: crc32_crc_of [OF bytes])
    moreover have "\<exists>x' j'. namekey_loop buf (i + 1) (i + 1) ?y k = Inr (x', j') \<and> j' \<le> len \<and>
        x' + (if len \<noteq> j' then crc_of (take (len - j') (drop j' buf)) else 0) = ?y + seg_sum (drop (i + 1) (take len buf))"
      by (rule Suc.IH) (use Suc.prems(1) in auto)
    moreover have "?y + seg_sum (drop (i + 1) (take len buf)) = x + seg_sum (drop j (take len buf))"
      by (simp add: seg add.assoc)
    ultimately show ?thesis by metis
  next
    case False
    have "take (i + 1 - j) (drop j buf) = ?s @ [?c]"
      using i Suc.prems(2) take_Suc_conv_app_nth [of "i - j" "drop j buf"] by (simp add: Suc_diff_le)
    then have "\<exists>x' j'. namekey_loop buf (i + 1) j x k = Inr (x', j') \<and> j' \<le> len \<and>
        x' + (if len \<noteq> j' then crc_of (take (len - j') (drop j' buf)) else 0) = x + seg_sum (drop j (take len buf))"
      using Suc.prems False by (intro Suc.IH) auto
    then show ?thesis using False i by simp
  qed
qed

text \<open>A key has a non-zero 31-bit part on top and the rest below.\<close>

definition name_key :: "u32 \<Rightarrow> u32 \<Rightarrow> 64 word" where
  "name_key h l = push_bit 32 (ucast (if h AND 0x7FFFFFFF = 0 then 1 else h AND 0x7FFFFFFF)) OR ucast (l AND 0xFFFF0000)"

lemma bit_nat_top: "(n :: nat) < 2 ^ k \<Longrightarrow> \<not> bit n k"
  by (auto simp: bit_iff_odd)

lemma push_32_eq_0: "push_bit 32 (ucast (h :: u32) :: 64 word) = 0 \<longleftrightarrow> h = 0"
proof
  assume z: "push_bit 32 (ucast h :: 64 word) = 0"
  show "h = 0"
  proof (rule bit_eqI)
    fix n assume "possible_bit TYPE(32 word) n"
    then have "n < 32" by simp
    then have "bit (push_bit 32 (ucast h :: 64 word)) (n + 32) = bit h n" by (simp add: bit_simps)
    then show "bit h n = bit 0 n" using z by simp
  qed
qed simp

lemma key_high: "(push_bit 32 (ucast h) OR ucast (l :: u32) :: 64 word) AND 0xFFFFFFFF00000000 = push_bit 32 (ucast (h :: u32))"
proof -
  have m: "(0xFFFFFFFF00000000 :: 64 word) = NOT (mask 32)" by (simp add: mask_eq_exp_minus_1)
  show ?thesis unfolding m by (rule bit_eqI) (auto simp: bit_simps dest: bit_imp_le_length)
qed

lemma key_one: "(0x100000000 :: 64 word) = push_bit 32 (ucast (1 :: u32))"
  by (simp add: push_bit_eq_mult)

lemma namekey_spec:
  assumes b: "\<forall>b \<in> set buf. b < 256" and len: "len \<le> length buf"
  shows "cap AND 3 = 0 \<Longrightarrow> hammer_directory_namekey cap buf len = Inr (name_key (crc_of (take len buf)) 0, 0xFFFFFFFF)"
    and "cap AND 3 = 1 \<Longrightarrow> hammer_directory_namekey cap buf len =
      Inr (let c = crc_of (take len buf) in name_key (seg_sum (take len buf)) (c XOR push_bit 16 c), 0x00FFFFFF)"
proof -
  have c: "crc32 buf len = Inr (crc_of (take len buf))" using crc32_crc_of [OF b, of 0 len] len by simp
  show "hammer_directory_namekey cap buf len = Inr (name_key (crc_of (take len buf)) 0, 0xFFFFFFFF)" if "cap AND 3 = 0"
    using that unfolding hammer_directory_namekey_def c rbind_Inr Let_def key_one push_32_eq_0 name_key_def by simp
  assume a: "cap AND 3 = 1"
  obtain x j where l: "namekey_loop buf 0 0 0 len = Inr (x, j)" "j \<le> len"
    "x + (if len \<noteq> j then crc_of (take (len - j) (drop j buf)) else 0) = seg_sum (take len buf)"
    using namekey_loop_spec [OF b len, of 0 len 0 0] by auto
  have "(if len \<noteq> j then rbind (crc32 (drop j buf) (len - j)) (\<lambda>v. Inr (x + v)) else Inr x) = (Inr (seg_sum (take len buf)) :: u32 kres)"
    using l crc32_crc_of [OF b, of j "len - j"] len by auto
  then show "hammer_directory_namekey cap buf len =
      Inr (let c = crc_of (take len buf) in name_key (seg_sum (take len buf)) (c XOR push_bit 16 c), 0x00FFFFFF)"
    using a unfolding hammer_directory_namekey_def l(1) c rbind_Inr prod.case Let_def key_high push_32_eq_0 key_one name_key_def
    by (simp add: or.commute)
qed

lemma name_key_bits: "0 < sint (name_key h l)" "2 ^ 32 \<le> unat (name_key h l)" "take_bit 16 (name_key h l) = 0"
  "l = 0 \<Longrightarrow> take_bit 32 (name_key h l) = 0"
proof -
  define u where "u = (if h AND 0x7FFFFFFF = 0 then 1 else h AND 0x7FFFFFFF)"
  have m: "(0x7FFFFFFF :: u32) = mask 31" and m16: "(0xFFFF0000 :: u32) = NOT (mask 16)"
    by (simp_all add: mask_eq_exp_minus_1)
  have k: "name_key h l = push_bit 32 (ucast u) OR ucast (l AND NOT (mask 16))" by (simp only: name_key_def u_def m16)
  have "u \<noteq> 0" and top: "\<not> bit u 31" unfolding u_def m by (auto simp: bit_simps)
  then obtain n where n: "bit u n" "n < 32" using bit_imp_le_length [of u] by (auto simp: bit_eq_iff)
  have "bit (name_key h l) (n + 32)" unfolding k using n by (simp add: bit_simps)
  then have "\<not> unat (name_key h l) < 2 ^ (n + 32)"
    using bit_nat_top [of "unat (name_key h l)" "n + 32"] by (auto simp: bit_unsigned_iff)
  then show ge: "2 ^ 32 \<le> unat (name_key h l)" by (meson le_trans linorder_not_le power_increasing le_add2 one_le_numeral)
  have "\<not> bit (name_key h l) 63" unfolding k using top by (simp add: bit_simps)
  then have "sint (name_key h l) = int (unat (name_key h l))"
    using unsigned_less [of "name_key h l", where ?'a = int]
    by (simp add: take_bit_int_eq_self_iff sint_uint signed_take_bit_eq_take_bit_minus bit_uint_iff)
  moreover have "0 < unat (name_key h l)" by (rule less_le_trans [OF _ ge]) simp
  ultimately show "0 < sint (name_key h l)" by (simp only: of_nat_0_less_iff)
  show "take_bit 16 (name_key h l) = 0" unfolding k by (rule bit_eqI) (auto simp: bit_simps)
  show "l = 0 \<Longrightarrow> take_bit 32 (name_key h l) = 0" unfolding k by (rule bit_eqI) (auto simp: bit_simps)
qed

section \<open>The parser of transaction ids\<close>

lemma asc_small: "d < 36 \<Longrightarrow> asc upper d \<noteq> 0 \<and> asc upper d \<noteq> 58"
  using asc_digit [of d upper] by (auto simp: strto_digit_def ctype_defs isascii_iff)

lemma takeWhile_asc:
  assumes "\<forall>d \<in> set ds. d < b" "b \<le> 36" "\<not> vdigit (int b) (hd (r @ [0]))"
  shows "takeWhile (vdigit (int b)) (map (asc upper) ds @ r) = map (asc upper) ds"
proof -
  have "\<forall>x \<in> set (map (asc upper) ds). vdigit (int b) x"
    using assms(1,2) asc_digit [of _ upper] by (auto simp: vdigit_def)
  then show ?thesis using assms(3) by (cases r) (auto simp: takeWhile_append)
qed

lemma digits_asc: "\<forall>d \<in> set ds. d < 36 \<Longrightarrow> map (the \<circ> strto_digit) (map (asc upper) ds) = ds"
  using asc_digit [of _ upper] by (induction ds) auto

lemma not_vdigit: "\<not> vdigit b 58" "\<not> vdigit b 0"
  by (simp_all add: vdigit_def strto_digit_def ctype_defs isascii_iff)

lemma numval_bound: "\<forall>d \<in> set ds. d < b \<Longrightarrow> numval b ds < b ^ length ds"
proof (induction ds rule: rev_induct)
  case (snoc d ds)
  have "numval b (ds @ [d]) = numval b ds * b + d" by (simp add: numval_def)
  also have "\<dots> < (numval b ds + 1) * b" using snoc.prems by simp
  also have "\<dots> \<le> b ^ length ds * b" using snoc by (intro mult_le_mono1) simp
  finally show ?case by (simp add: mult.commute)
qed (simp add: numval_def)

lemma ref_hex:
  assumes "\<forall>d \<in> set ds. d < 16" "\<not> vdigit 16 (hd (r @ [0]))"
  shows "strto_ref (48 # 120 # map (asc upper) ds @ r) 0 = (False, numval 16 ds, length ds, 2)"
proof -
  let ?t = "48 # 120 # map (asc upper) ds @ r"
  have "dropWhile isspace ?t = ?t" "ref_sign ?t = (False, ?t)" "ref_base 0 ?t = (16, map (asc upper) ds @ r)"
    by (simp_all add: isspace_def ref_sign_def ref_base_def)
  moreover have "\<forall>d \<in> set ds. d < 36" using assms(1) by auto
  note digits_asc [OF this, of upper]
  ultimately show ?thesis using takeWhile_asc [of ds 16 r upper] assms by (simp add: strto_ref_def)
qed

lemma ref_dec:
  assumes "\<forall>d \<in> set ds. d < 10"
  shows "strto_ref (map (asc False) ds) 10 = (False, numval 10 ds, length ds, 0)"
proof -
  have "\<not> isspace (asc False d)" "asc False d \<noteq> 45" "asc False d \<noteq> 43" if "d < 10" for d
    using asc_digit [of d False] that by auto
  then have "dropWhile isspace (map (asc False) ds) = map (asc False) ds" "ref_sign (map (asc False) ds) = (False, map (asc False) ds)"
    using assms by (cases ds; auto simp: ref_sign_def)+
  moreover have "ref_base 10 (map (asc False) ds) = (10, map (asc False) ds)" by (simp add: ref_base_def)
  moreover have "\<forall>d \<in> set ds. d < 36" using assms(1) by auto
  note digits_asc [OF this, of False]
  moreover have tw: "takeWhile (vdigit 10) (map (asc False) ds) = map (asc False) ds"
    using takeWhile_asc [of ds 10 "[]" False] assms by (simp add: not_vdigit)
  ultimately show ?thesis by (simp add: strto_ref_def tw)
qed

text \<open>The two documented forms of an id, and the two without and with a PFS number.\<close>

lemma str_to_tid_spec:
  assumes ds: "length ds = 16" "\<forall>d \<in> set ds. d < 16" and es: "length es = 5" "\<forall>d \<in> set es. d < 10"
  shows "cstr str 0 (48 # 120 # map (asc upper) ds) \<Longrightarrow>
      hammer_str_to_tid str loc = Inr (Some (False, numval 16 ds, loc))"
    and "cstr str 0 (48 # 120 # map (asc upper) ds @ 58 # map (asc False) es) \<Longrightarrow>
      hammer_str_to_tid str loc = Inr (Some (True, numval 16 ds, of_nat (numval 10 es * 2 ^ 16)))"
proof -
  have v: "numval 16 ds < 2 ^ 64" using numval_bound [OF ds(2)] by (simp add: ds(1) flip: power_mult)
  show "hammer_str_to_tid str loc = Inr (Some (False, numval 16 ds, loc))"
    if c: "cstr str 0 (48 # 120 # map (asc upper) ds)"
  proof -
    have q: "strtouq str 0 = Inr (numval 16 ds, 18)"
      using strtouq_spec [OF c _ _ ref_hex [OF ds(2), of "[]" upper, unfolded append_Nil2]] v ds(1) by (simp add: not_vdigit)
    have r: "rd str 0 = Inr 48" "rd str 1 = Inr 120" "rd str 18 = Inr 0"
      using cstr_rd [OF c, of 0] cstr_rd [OF c, of 1] cstr_rd [OF c, of 18] ds(1) by (simp_all add: nth_append)
    show ?thesis unfolding hammer_str_to_tid_def q by (simp add: r r(2) [unfolded One_nat_def])
  qed
  show "hammer_str_to_tid str loc = Inr (Some (True, numval 16 ds, of_nat (numval 10 es * 2 ^ 16)))"
    if c: "cstr str 0 (48 # 120 # map (asc upper) ds @ 58 # map (asc False) es)"
  proof -
    have q: "strtouq str 0 = Inr (numval 16 ds, 18)"
      using strtouq_spec [OF c _ _ ref_hex [OF ds(2)]] v ds(1) by (simp add: not_vdigit)
    have r: "rd str 0 = Inr 48" "rd str 1 = Inr 120" "rd str 18 = Inr 58" "rd str 24 = Inr 0"
      using cstr_rd [OF c, of 0] cstr_rd [OF c, of 1] cstr_rd [OF c, of 18] cstr_rd [OF c, of 24] ds(1) es(1)
      by (simp_all add: nth_append)
    have "cstr (drop 19 str) 0 (map (asc False) es)"
      using cstr_append [of str 0 "48 # 120 # map (asc upper) ds @ [58]" "map (asc False) es"] c ds(1)
      by (simp add: cstr_drop)
    from strtoul_spec [OF this _ _ _ ref_dec [OF es(2)], of 64] numval_bound [OF es(2)] es(1)
    have u: "strtoul 64 (drop 19 str) 10 = Inr (numval 10 es, 5)" by simp
    show ?thesis unfolding hammer_str_to_tid_def q by (simp add: r r(2) [unfolded One_nat_def] u push_bit_eq_mult)
  qed
qed

section \<open>Checksums\<close>

lemma bytes_update: "\<forall>b \<in> set m. b < 256 \<Longrightarrow> x < 256 \<Longrightarrow> \<forall>b \<in> set (m[i := x]). b < (256 :: nat)"
  using set_update_subset_insert [of m i x] by auto

text \<open>A 32-bit field of an image, written and read back; the rest of the image stays.\<close>

lemma le32_field:
  assumes p: "p + 4 \<le> length m" and u: "u < 2 ^ 32" and b: "\<forall>b \<in> set m. b < 256"
  obtains m' where "le32enc m p u = Inr m'" "le32dec m' p = Inr u" "length m' = length m" "take p m' = take p m"
    "drop (p + 4) m' = drop (p + 4) m" "\<forall>b \<in> set m'. b < 256"
proof -
  let ?m = "m[p := u mod 256, p + 1 := u div 2 ^ 8 mod 256, p + 2 := u div 2 ^ 16 mod 256, p + 3 := u div 2 ^ 24 mod 256]"
  have p3: "p + 3 < length m" using p by simp
  have e: "le32enc m p u = Inr ?m" by (rule enc32(2) [OF p3])
  have d: "le32dec ?m p = Inr u" using endian32_roundtrip(2) [OF p3 u] unfolding e by simp
  have bs: "\<forall>b \<in> set ?m. b < 256" by (rule bytes_update [OF bytes_update [OF bytes_update [OF bytes_update [OF b]]]]) simp_all
  show ?thesis by (rule that [OF e d _ _ _ bs]) simp_all
qed

lemma le32dec_update: "i < p \<or> p + 3 < i \<Longrightarrow> le32dec (m[i := x]) p = le32dec m p"
  by (auto simp: le32dec_def rd_def)

lemma unat_same: "unat (c :: u32) = unat d \<longleftrightarrow> c = d"
  by (simp add: word_unat_eq_iff)

lemma crc32_take:
  assumes "take n m = take n m'" "n \<le> length m" "n \<le> length m'" "\<forall>b \<in> set m. b < 256" "\<forall>b \<in> set m'. b < 256"
  shows "crc32 m n = crc32 m' n"
  using crc32_spec(1) [OF assms(4,2)] crc32_spec(1) [OF assms(5,3)] assms(1) by simp

lemma crc32_ok: "\<forall>b \<in> set m. b < 256 \<Longrightarrow> n \<le> length m \<Longrightarrow> \<exists>c. crc32 m n = Inr c"
  using crc32_spec(1) by blast

lemma crc32_differs:
  assumes "\<forall>b \<in> set m. b < 256" "i < n" "n \<le> length m" "b < 256" "b \<noteq> m ! i" "crc32 m n = Inr c"
  obtains c' where "crc32 (m[i := b]) n = Inr c'" "c' \<noteq> c"
proof -
  obtain c' where "crc32 (m[i := b]) n = Inr c'" using crc32_ok [OF bytes_update [OF assms(1,4)]] assms(3) by fastforce
  with crc32_update [OF assms(1-5)] assms(6) show ?thesis by (intro that) auto
qed

lemma blockmap_crc:
  assumes b: "\<forall>b \<in> set m. b < 256" and len: "length m = 40"
  obtains m' where "hammer_crc_set_blockmap m = Inr m'" "hammer_crc_test_blockmap m' = Inr True" "take 36 m' = take 36 m"
    "\<forall>i b. i < 36 \<and> b < 256 \<and> b \<noteq> m' ! i \<longrightarrow> hammer_crc_test_blockmap (m'[i := b]) = Inr False"
proof -
  obtain c where c: "crc32 m 36 = Inr c" using crc32_ok [OF b] len by fastforce
  obtain m' where m': "le32enc m 36 (unat c) = Inr m'" "le32dec m' 36 = Inr (unat c)" "length m' = length m"
    "take 36 m' = take 36 m" "\<forall>b \<in> set m'. b < 256"
    using le32_field [of 36 m "unat c"] len b unsigned_less [of c, where ?'a = nat] by auto
  have c': "crc32 m' 36 = Inr c" using crc32_take [OF m'(4)] m'(3,5) len b c by simp
  have "hammer_crc_test_blockmap (m'[i := x]) = Inr False" if i: "i < 36" "x < 256" "x \<noteq> m' ! i" for i x
  proof -
    obtain d where "crc32 (m'[i := x]) 36 = Inr d" "d \<noteq> c" using crc32_differs [OF m'(5) i(1) _ i(2,3) c'] m'(3) len by auto
    then show ?thesis using m'(2) i(1) by (auto simp: hammer_crc_test_blockmap_def le32dec_update unat_same)
  qed
  then show ?thesis
    using m' c c' by (intro that [of m']) (simp_all add: hammer_crc_set_blockmap_def hammer_crc_test_blockmap_def)
qed

lemma volume_crc:
  assumes b: "\<forall>b \<in> set m. b < 256" and len: "length m = 1928"
  obtains m' where "hammer_crc_set_volume m = Inr m'" "hammer_crc_test_volume m' = Inr True"
    "take 156 m' = take 156 m" "drop 160 m' = drop 160 m"
    "\<forall>i b. i < 1928 \<and> (i < 156 \<or> 160 \<le> i) \<and> b < 256 \<and> b \<noteq> m' ! i \<longrightarrow> hammer_crc_test_volume (m'[i := b]) = Inr False"
proof -
  have bd: "\<forall>b \<in> set (drop 160 m). b < 256" using b by (auto dest: in_set_dropD)
  obtain c1 where c1: "crc32 m 156 = Inr c1" using crc32_ok [OF b] len by fastforce
  obtain c2 where c2: "crc32 (drop 160 m) 1768 = Inr c2" using crc32_ok [OF bd] len by fastforce
  obtain m' where m': "le32enc m 156 (unat (c1 XOR c2)) = Inr m'" "le32dec m' 156 = Inr (unat (c1 XOR c2))"
    "length m' = length m" "take 156 m' = take 156 m" "drop 160 m' = drop 160 m" "\<forall>b \<in> set m'. b < 256"
    using le32_field [of 156 m "unat (c1 XOR c2)"] len b unsigned_less [of "c1 XOR c2", where ?'a = nat] by auto
  have c1': "crc32 m' 156 = Inr c1" using crc32_take [OF m'(4)] m'(3,6) len b c1 by simp
  have c2': "crc32 (drop 160 m') 1768 = Inr c2" using c2 m'(5) by simp
  have "hammer_crc_test_volume (m'[i := x]) = Inr False"
    if i: "i < 1928" "i < 156 \<or> 160 \<le> i" "x < 256" "x \<noteq> m' ! i" for i x
  proof (cases "i < 156")
    case True
    obtain d where "crc32 (m'[i := x]) 156 = Inr d" "d \<noteq> c1"
      using crc32_differs [OF m'(6) True _ i(3,4) c1'] m'(3) len by auto
    then show ?thesis using m'(2) True c2' by (auto simp: hammer_crc_test_volume_def le32dec_update unat_same xor_cancel)
  next
    case False
    then have i160: "160 \<le> i" "i - 160 < 1768" using i by auto
    have bd': "\<forall>b \<in> set (drop 160 m'). b < 256" using m'(6) by (auto dest: in_set_dropD)
    have "x \<noteq> drop 160 m' ! (i - 160)" using i(4) i160 m'(3) len by simp
    then obtain d where "crc32 ((drop 160 m')[i - 160 := x]) 1768 = Inr d" "d \<noteq> c2"
      using crc32_differs [OF bd' i160(2) _ i(3) _ c2'] m'(3) len by auto
    moreover have "drop 160 (m'[i := x]) = (drop 160 m')[i - 160 := x]" using i160(1) by (simp add: drop_update_swap)
    moreover have "crc32 (m'[i := x]) 156 = Inr c1"
      using crc32_take [of 156 "m'[i := x]" m'] bytes_update [OF m'(6) i(3)] m'(3,6) len c1' i160(1) by simp
    ultimately show ?thesis using m'(2) i160(1)
      by (auto simp: hammer_crc_test_volume_def le32dec_update unat_same xor.commute [of c1] xor_cancel)
  qed
  then show ?thesis
    using m' c1 c2 c1' c2' by (intro that [of m']) (simp_all add: hammer_crc_set_volume_def hammer_crc_test_volume_def)
qed

text \<open>The checksum of an inode leaves out its last two fields, the times.\<close>

lemma leaf_crc:
  assumes b: "\<forall>b \<in> set data. b < 256" and len: "data_len leaf = int (length data)" "length data < 2 ^ 31"
    and ino: "rec_type leaf = 1 \<longrightarrow> length data = 128 \<or> data = []"
  obtains leaf' where "hammer_crc_set_leaf data leaf = Inr leaf'" "hammer_crc_test_leaf data leaf' = Inr True"
    "leaf' = leaf\<lparr>data_crc := data_crc leaf'\<rparr>"
    "\<forall>i b. i < (if rec_type leaf = 1 then 112 else length data) \<and> i < length data \<and> b < 256 \<and> b \<noteq> data ! i \<longrightarrow>
       hammer_crc_test_leaf (data[i := b]) leaf' = Inr False"
    "\<forall>i b. rec_type leaf = 1 \<and> 112 \<le> i \<and> b < 256 \<longrightarrow> hammer_crc_test_leaf (data[i := b]) leaf' = Inr True"
proof (cases "data = []")
  case True
  then show ?thesis using len that [of "leaf\<lparr>data_crc := 0\<rparr>"]
    by (simp add: hammer_crc_set_leaf_def hammer_crc_test_leaf_def)
next
  case False
  let ?n = "if rec_type leaf = 1 then 112 else length data"
  have n: "?n \<le> length data" using ino False by auto
  obtain c where c: "crc32 data ?n = Inr c" using crc32_ok [OF b n] by blast
  let ?leaf = "leaf\<lparr>data_crc := c\<rparr>"
  have test: "hammer_crc_test_leaf d ?leaf = rbind (crc32 d ?n) (\<lambda>crc. Inr (c = crc))" for d
    using len ino False by (auto simp: hammer_crc_test_leaf_def)
  have "hammer_crc_set_leaf data leaf = Inr ?leaf" using c len ino False by (auto simp: hammer_crc_set_leaf_def)
  moreover have "hammer_crc_test_leaf (data[i := x]) ?leaf = Inr False"
    if i: "i < ?n" "x < 256" "x \<noteq> data ! i" for i x
    unfolding test by (rule crc32_differs [OF b i(1) n i(2,3) c]) auto
  moreover have "crc32 (data[i := x]) ?n = Inr c" if "rec_type leaf = 1" "112 \<le> i" "x < 256" for i x
    using crc32_take [of 112 "data[i := x]" data] bytes_update [OF b that(3)] b that n c by auto
  ultimately show ?thesis using c test by (intro that [of ?leaf]) auto
qed

section \<open>Conversions\<close>

lemma xid_roundtrip:
  assumes "guid < 2 ^ 32" shows "rbind (hammer_guid_to_uuid guid) hammer_to_unix_xid = Inr guid"
proof -
  have "rbind (le32enc (replicate 16 0) 12 guid) (\<lambda>m. le32dec m 12) = Inr guid"
    by (rule endian32_roundtrip(2)) (use assms in simp_all)
  then show ?thesis by (simp add: hammer_guid_to_uuid_def hammer_to_unix_xid_def [abs_def])
qed

lemma time_roundtrip:
  assumes "x < 2 ^ 64" shows "hammer_timespec_to_time (hammer_time_to_timespec x) = x"
proof -
  have d: "x div 1000000 < 2 ^ 63" using assms by (simp add: less_mult_imp_div_less)
  then have s: "swrap 64 (int (x div 1000000)) = int (x div 1000000)" unfolding swrap_def by simp
  have n: "cdiv (int (x mod 1000000) * 1000) 1000 = int (x mod 1000000)" by simp
  have "int (x mod 1000000) mod 2 ^ 32 = int (x mod 1000000)"
    by (rule mod_pos_pos_trivial) (simp_all add: less_trans [OF pos_mod_bound])
  moreover have "int (x div 1000000) mod 2 ^ 64 = int (x div 1000000)" using d by (intro mod_pos_pos_trivial) simp_all
  moreover have "int (x mod 1000000) + int (x div 1000000) * 1000000 = int x"
    using mod_div_mult_eq [of x 1000000] by (metis of_nat_add of_nat_mult of_nat_numeral)
  moreover have "int x mod 2 ^ 64 = int x" using assms by (intro mod_pos_pos_trivial) simp_all
  ultimately show ?thesis
    unfolding hammer_timespec_to_time_def hammer_time_to_timespec_def timespec.simps s n by simp
qed

lemma obj_type_roundtrip:
  "hammer_get_obj_type v \<noteq> HAMMER_OBJTYPE_UNKNOWN \<Longrightarrow> hammer_get_vnode_type (hammer_get_obj_type v) = v"
  "hammer_get_vnode_type o1 \<noteq> VBAD \<Longrightarrow> hammer_get_obj_type (hammer_get_vnode_type o1) = o1"
  by (cases v; simp add: hammer_get_vnode_type_def) (simp add: hammer_get_vnode_type_def split: if_splits)

lemma blockoff_mod: "hammer_blockoff off = off mod hammer_blocksize off"
proof -
  have m: "(HAMMER_BUFSIZE - 1 :: int) = mask 14" "(HAMMER_XBUFSIZE - 1 :: int) = mask 16" by (simp_all add: mask_eq_exp_minus_1)
  have w: "swrap 32 off mod 2 ^ k = off mod 2 ^ k" if k: "k \<le> 31" for k
  proof -
    have "(2::int) ^ k dvd 2 ^ 32" "(2::int) ^ k dvd 2 ^ 31" by (rule le_imp_power_dvd; use k in simp)+
    then have "((off + 2 ^ 31) mod 2 ^ 32 - 2 ^ 31) mod 2 ^ k = off mod 2 ^ k"
      by (metis add_diff_cancel_right' mod_diff_left_eq mod_mod_cancel)
    then show ?thesis by (simp add: swrap_def)
  qed
  show ?thesis
    unfolding hammer_blockoff_def hammer_blocksize_def m take_bit_eq_mask [symmetric] take_bit_eq_mod using w [of 14] w [of 16] by simp
qed

end
