(* ===== verification/Hammer_Props.thy ===== *)
theory Hammer_Props
  imports Hammer_Lock_Inv Hammer_Refs_Inv Hammer_Misc_Spec
begin

text \<open>The properties of the HAMMER support routines.\<close>

unbundle bit_operations_syntax

section \<open>The shared/exclusive lock\<close>

text \<open>C2. Whatever the interleaving of \<open>N\<close> threads that use the lock by its rules, nobody panics, an exclusive
  holder is alone, the lock word counts the holds and has \<open>EXCLUSIVE\<close> set exactly when they are exclusive, and
  \<open>lowner\<close> names the exclusive holder whenever that thread is outside the lock routines.\<close>

theorem hammer_lock_exclusion:
  assumes "cas_reach (lock_code refs R N) no_holds N s" "lock_usable refs R N"
  shows "(\<forall>t op. cs_pc s t \<noteq> Panicked op) \<and>
    (\<forall>t < N. 0 < exh (cs_ghost s) t \<longrightarrow> shh (cs_ghost s) t = 0 \<and>
      (\<forall>t' < N. t' \<noteq> t \<longrightarrow> exh (cs_ghost s) t' = 0 \<and> shh (cs_ghost s) t' = 0)) \<and>
    unat (cs_val s AND NOT (HAMMER_LOCKF_EXCLUSIVE OR HAMMER_LOCKF_WANTED)) =
      (\<Sum>t<N. exh (cs_ghost s) t + shh (cs_ghost s) t) \<and>
    (cs_val s AND HAMMER_LOCKF_EXCLUSIVE \<noteq> 0 \<longleftrightarrow> (\<exists>t < N. 0 < exh (cs_ghost s) t)) \<and>
    (\<forall>t < N. \<forall>r. cs_pc s t = Idle r \<and> 0 < exh (cs_ghost s) t \<longrightarrow> cs_owner s = Some t)"
proof -
  let ?g = "cs_ghost s"
  note inv = lk.reach_inv [OF assms(1)]
  have G: "lock_global R N (cs_val s) (cs_owner s) ?g" using inv by (simp add: inv_upto_def)
  have L: "lock_local R (N * R) t (cs_pc s t) (cs_owner s) ?g" if "t < N" for t
    using inv that by (simp add: inv_upto_def lock_inv_def)
  have "N * R < 2 ^ 29" using assms(2) by (simp add: lock_usable_def)
  from lock_globalE [OF G this] obtain w where v: "cs_val s = lword (holds_total N ?g) (\<exists>t < N. 0 < exh ?g t) w"
    and n: "holds_total N ?g < 2 ^ 29" and ex: "exclusive N ?g" .
  have idle: "\<exists>r. cs_pc s t = Idle r" if "\<not> t < N" for t using inv that by (simp add: inv_upto_def)
  have "cs_pc s t \<noteq> Panicked op" for t op using L [of t] idle [of t] by (cases "t < N") auto
  moreover have "unat (cs_val s AND NOT (HAMMER_LOCKF_EXCLUSIVE OR HAMMER_LOCKF_WANTED)) = holds_total N ?g"
    unfolding v lword_clear [OF n] by (rule lword_plain [OF n])
  moreover have "cs_val s AND HAMMER_LOCKF_EXCLUSIVE \<noteq> 0 \<longleftrightarrow> (\<exists>t < N. 0 < exh ?g t)"
    unfolding v lword_flags(1) [OF n] by blast
  moreover have "cs_owner s = Some t" if "t < N" "cs_pc s t = Idle r" "0 < exh ?g t" for t r
    using L [OF that(1)] that by simp
  ultimately show ?thesis using ex unfolding exclusive_def holds_total_def by blast
qed

text \<open>A run of two threads: thread 0 takes the lock exclusively, thread 1 wants it and goes to sleep.\<close>

lemma usable_1: "lock_usable 1 4 2"
  by (simp add: lock_usable_def)

lemma sleep_run:
  "cas_run (lock_code 1 4 2) 2
     [Call 0 Lock_Ex, Run 0, Run 0, Run 0, Run 0, Run 0, Run 0,
      Call 1 Lock_Ex, Run 1, Run 1, Run 1, Run 1, Run 1, Run 1] (cas_init no_holds) =
   Some \<lparr>cs_val = 0x60000001, cs_owner = Some 0, cs_wait = {1},
     cs_pc = (\<lambda>_. Idle 0)(1 := Sleeping Lock_Ex), cs_ghost = no_holds(0 := (1, 0))\<rparr>"
  by (simp add: cas_step_def goto_def usable_1 hammer_lock_ex_ident_def cas_init_def
      HAMMER_LOCKF_EXCLUSIVE_def HAMMER_LOCKF_WANTED_def no_holds_def exh_def shh_def)
    (simp add: fun_eq_iff)

lemmas sleep_reach = cas_run_reach [OF sleep_run cas_reach.start]

theorem hammer_lock_exclusion_witness:
  "\<exists>s. cas_reach (lock_code 1 4 2) no_holds 2 s \<and> 0 < exh (cs_ghost s) 0 \<and> exh (cs_ghost s) 1 = 0 \<and>
     (\<forall>t op. cs_pc s t \<noteq> Panicked op)"
  using hammer_lock_exclusion [OF sleep_reach usable_1] sleep_reach
  by (intro exI conjI) (assumption, simp_all add: exh_def no_holds_def)

section \<open>References and their interlock\<close>

text \<open>C4. Whatever the interleaving of \<open>N\<close> threads that use the references by their rules, at most one thread has
  the interlock, and \<open>LOCKED\<close> is set exactly when somebody has it; the word counts the references; a word
  without references and interlock is zero, so that \<open>CHECK\<close> is never found set there; and nobody panics but in
  \<open>hammer_ref_interlock_true\<close>, which insists on an unreferenced structure.\<close>

theorem hammer_refs_interlocked:
  assumes "cas_reach (refs_code R N) no_refs N s" "refs_usable R N"
  shows "(\<forall>t < N. \<forall>t' < N. il (cs_ghost s) t \<and> il (cs_ghost s) t' \<longrightarrow> t = t') \<and>
    (cs_val s AND HAMMER_REFS_LOCKED \<noteq> 0 \<longleftrightarrow> (\<exists>t < N. il (cs_ghost s) t)) \<and>
    unat (hammer_isactive (cs_val s)) = (\<Sum>t<N. rc (cs_ghost s) t) \<and>
    (hammer_norefs (cs_val s) \<and> cs_val s AND HAMMER_REFS_LOCKED = 0 \<longrightarrow> hammer_norefsorlock (cs_val s)) \<and>
    (\<forall>t op. cs_pc s t = Panicked op \<longrightarrow> op = Ref_Interlock_True)"
proof -
  let ?g = "cs_ghost s"
  note inv = rf.reach_inv [OF assms(1)]
  have G: "refs_global R N (cs_val s) ?g" using inv by (simp add: inv_upto_def)
  have "N * R < 2 ^ 28" using assms(2) by (simp add: refs_usable_def)
  from refs_globalE [OF G this] obtain w c where v: "cs_val s = rword (refs_total N ?g) (locked N ?g) w c"
    and w: "w \<longrightarrow> locked N ?g" and c: "c \<longrightarrow> 0 < refs_total N ?g \<or> locked N ?g" and n: "refs_total N ?g < 2 ^ 28" .
  have idle: "\<exists>r. cs_pc s t = Idle r" if "\<not> t < N" for t using inv that by (simp add: inv_upto_def)
  have L: "refs_local R (N * R) t (cs_pc s t) ?g" if "t < N" for t
    using inv that by (simp add: inv_upto_def refs_inv_def)
  have "op = Ref_Interlock_True" if "cs_pc s t = Panicked op" for t op
    using L [of t] idle [of t] that by (cases "t < N") auto
  moreover have "cs_val s AND HAMMER_REFS_LOCKED \<noteq> 0 \<longleftrightarrow> locked N ?g" unfolding v rword_flags [OF n] by blast
  moreover have "unat (hammer_isactive (cs_val s)) = refs_total N ?g"
    unfolding v hammer_isactive_def rword_clear [OF n] using n by (simp add: rword_def lword_plain)
  moreover have "hammer_norefs (cs_val s) \<Longrightarrow> \<not> locked N ?g \<Longrightarrow> hammer_norefsorlock (cs_val s)"
    using w c unfolding v hammer_norefs_def hammer_norefsorlock_def rword_clear [OF n] rword_eq_0 [OF n] by simp
  ultimately show ?thesis using G unfolding locked_def refs_total_def refs_global_def by blast
qed

text \<open>Thread 0 references the structure and gets the interlock; thread 1 references it and sleeps.\<close>

lemma refs_usable_1: "refs_usable 4 2"
  by (simp add: refs_usable_def)

lemma refs_run:
  "cas_run (refs_code 4 2) 2
     [Call 0 Ref_Interlock, Run 0, Run 0, Run 0, Run 0, Run 0, Run 0,
      Call 1 Ref_Interlock, Run 1, Run 1, Run 1, Run 1, Run 1, Run 1, Run 1, Run 1, Run 1] (cas_init no_refs) =
   Some \<lparr>cs_val = 0x70000002, cs_owner = Some 0, cs_wait = {1},
     cs_pc = (\<lambda>_. Idle 0)(0 := Idle 1, 1 := Sleeping Ref_Interlock_Wait), cs_ghost = no_refs(0 := (1, True), 1 := (1, False))\<rparr>"
  by (simp add: cas_step_def goto_def refs_usable_1 hammer_ref_interlock_def hammer_ref_interlock_wait_def cas_init_def is_own_def
      HAMMER_REFS_LOCKED_def HAMMER_REFS_WANTED_def HAMMER_REFS_CHECK_def HAMMER_REFS_FLAGS_def no_refs_def rc_def il_def)

lemmas refs_reach = cas_run_reach [OF refs_run cas_reach.start]

theorem hammer_refs_interlocked_witness:
  "\<exists>s. cas_reach (refs_code 4 2) no_refs 2 s \<and> il (cs_ghost s) 0 \<and> \<not> il (cs_ghost s) 1 \<and>
     cs_val s AND HAMMER_REFS_LOCKED \<noteq> 0"
  using hammer_refs_interlocked [OF refs_reach refs_usable_1] refs_reach
  by (intro exI conjI) (assumption, auto simp: il_def no_refs_def)

section \<open>Progress\<close>

text \<open>C10. No wakeup is lost.  While a thread sleeps for the lock, some thread that is not asleep holds the lock or is about
  to call \<open>wakeup\<close>; while a thread sleeps for the interlock of the references, some thread that is not
  asleep has the interlock or is about to call \<open>wakeup\<close>.\<close>

theorem hammer_sleepers_are_woken:
  assumes "cas_reach (lock_code refs R N) no_holds N s" "cs_pc s t = Sleeping op" "t \<in> cs_wait s"
    and "cas_reach (refs_code R' N') no_refs N' s'" "cs_pc s' t' = Sleeping op'" "t' \<in> cs_wait s'"
  shows "(\<exists>u < N. (\<forall>op. cs_pc s u \<noteq> Sleeping op) \<and>
      (0 < exh (cs_ghost s) u + shh (cs_ghost s) u \<or> (\<exists>r. cs_pc s u = Waking r))) \<and>
    (\<exists>u < N'. (\<forall>op. cs_pc s' u \<noteq> Sleeping op) \<and> (il (cs_ghost s') u \<or> (\<exists>r. cs_pc s' u = Waking r)))"
  using lock_progress [OF assms(1-3)] refs_progress [OF assms(4-6)] by blast

theorem hammer_sleepers_are_woken_witness:
  "\<exists>s s'. cas_reach (lock_code 1 4 2) no_holds 2 s \<and> cs_pc s 1 = Sleeping Lock_Ex \<and>
     cas_reach (refs_code 4 2) no_refs 2 s' \<and> cs_pc s' 1 = Sleeping Ref_Interlock_Wait \<and>
     (\<exists>u < 2. \<forall>op. cs_pc s u \<noteq> Sleeping op) \<and> (\<exists>u < 2. \<forall>op. cs_pc s' u \<noteq> Sleeping op)"
proof -
  obtain s s' where s: "cas_reach (lock_code 1 4 2) no_holds 2 s" "cs_pc s 1 = Sleeping Lock_Ex" "1 \<in> cs_wait s"
    "cas_reach (refs_code 4 2) no_refs 2 s'" "cs_pc s' 1 = Sleeping Ref_Interlock_Wait" "1 \<in> cs_wait s'"
    using sleep_reach refs_reach by fastforce
  show ?thesis using hammer_sleepers_are_woken [OF s] s by blast
qed

text \<open>C11. Every routine of the lock and of the references ends when it is not disturbed: from any state, a
  thread that runs alone stops within 14 steps; it has returned, sleeps in the queue or has panicked.\<close>

theorem hammer_loops_terminate:
  "cas_step (lock_code refs R N) t (solo (lock_code refs R N) 14 t s) = None \<and>
   cas_step (refs_code R N) t (solo (refs_code R N) 14 t s') = None"
  using lkl.solo_stops rfl.solo_stops by blast

section \<open>Checksums, hashes and conversions\<close>

text \<open>C30. A checksum that was set is accepted, for blockmap entries, volume headers and leaf data; after a change of any
  one covered byte it is rejected.  Of an inode the two time stamps at the end are not covered: they may change.\<close>

theorem hammer_crc_set_then_test:
  assumes "\<forall>b \<in> set bm \<union> set vol \<union> set data. b < 256" "length bm = 40" "length vol = 1928"
    and "data_len leaf = int (length data)" "length data < 2 ^ 31" "rec_type leaf = 1 \<longrightarrow> length data = 128"
  shows "\<exists>bm' vol' leaf'.
    hammer_crc_set_blockmap bm = Inr bm' \<and> hammer_crc_test_blockmap bm' = Inr True \<and> take 36 bm' = take 36 bm \<and>
    (\<forall>i b. i < 36 \<and> b < 256 \<and> b \<noteq> bm' ! i \<longrightarrow> hammer_crc_test_blockmap (bm'[i := b]) = Inr False) \<and>
    hammer_crc_set_volume vol = Inr vol' \<and> hammer_crc_test_volume vol' = Inr True \<and>
    take 156 vol' = take 156 vol \<and> drop 160 vol' = drop 160 vol \<and>
    (\<forall>i b. i < 1928 \<and> (i < 156 \<or> 160 \<le> i) \<and> b < 256 \<and> b \<noteq> vol' ! i \<longrightarrow>
      hammer_crc_test_volume (vol'[i := b]) = Inr False) \<and>
    hammer_crc_set_leaf data leaf = Inr leaf' \<and> hammer_crc_test_leaf data leaf' = Inr True \<and>
    (\<forall>i b. i < (if rec_type leaf = 1 then 112 else length data) \<and> b < 256 \<and> b \<noteq> data ! i \<longrightarrow>
      hammer_crc_test_leaf (data[i := b]) leaf' = Inr False) \<and>
    (\<forall>i b. rec_type leaf = 1 \<and> 112 \<le> i \<and> b < 256 \<longrightarrow> hammer_crc_test_leaf (data[i := b]) leaf' = Inr True)"
proof -
  have b: "\<forall>b \<in> set bm. b < 256" "\<forall>b \<in> set vol. b < 256" "\<forall>b \<in> set data. b < 256" using assms(1) by auto
  obtain bm' where 1: "hammer_crc_set_blockmap bm = Inr bm'" "hammer_crc_test_blockmap bm' = Inr True"
    "take 36 bm' = take 36 bm"
    "\<forall>i b. i < 36 \<and> b < 256 \<and> b \<noteq> bm' ! i \<longrightarrow> hammer_crc_test_blockmap (bm'[i := b]) = Inr False"
    using blockmap_crc [OF b(1) assms(2)] .
  obtain vol' where 2: "hammer_crc_set_volume vol = Inr vol'" "hammer_crc_test_volume vol' = Inr True"
    "take 156 vol' = take 156 vol" "drop 160 vol' = drop 160 vol"
    "\<forall>i b. i < 1928 \<and> (i < 156 \<or> 160 \<le> i) \<and> b < 256 \<and> b \<noteq> vol' ! i \<longrightarrow>
      hammer_crc_test_volume (vol'[i := b]) = Inr False"
    using volume_crc [OF b(2) assms(3)] .
  have ino: "rec_type leaf = 1 \<longrightarrow> length data = 128 \<or> data = []" using assms(6) by blast
  obtain leaf' where 3: "hammer_crc_set_leaf data leaf = Inr leaf'" "hammer_crc_test_leaf data leaf' = Inr True"
    "\<forall>i b. i < (if rec_type leaf = 1 then 112 else length data) \<and> i < length data \<and> b < 256 \<and> b \<noteq> data ! i \<longrightarrow>
      hammer_crc_test_leaf (data[i := b]) leaf' = Inr False"
    "\<forall>i b. rec_type leaf = 1 \<and> 112 \<le> i \<and> b < 256 \<longrightarrow> hammer_crc_test_leaf (data[i := b]) leaf' = Inr True"
    using leaf_crc [OF b(3) assms(4,5) ino] .
  have "i < length data" if "i < (if rec_type leaf = 1 then 112 else length data)" for i
    using that assms(6) by (auto split: if_splits)
  with 3(3) have 4: "\<forall>i b. i < (if rec_type leaf = 1 then 112 else length data) \<and> b < 256 \<and> b \<noteq> data ! i \<longrightarrow>
      hammer_crc_test_leaf (data[i := b]) leaf' = Inr False" by blast
  show ?thesis by (rule exI [of _ bm'], rule exI [of _ vol'], rule exI [of _ leaf']) (intro conjI 1 2 3(1,2,4) 4)
qed

theorem hammer_crc_set_then_test_witness:
  "\<exists>bm' vol' leaf'. hammer_crc_set_blockmap (replicate 40 7) = Inr bm' \<and> hammer_crc_test_blockmap bm' = Inr True \<and>
    hammer_crc_set_volume (replicate 1928 9) = Inr vol' \<and> hammer_crc_test_volume vol' = Inr True \<and>
    hammer_crc_test_volume (vol'[200 := if vol' ! 200 = 0 then 1 else 0]) = Inr False \<and>
    hammer_crc_set_leaf [1, 2, 3] \<lparr>rec_type = 2, data_len = 3, data_crc = 0\<rparr> = Inr leaf' \<and>
    hammer_crc_test_leaf [1, 2, 3] leaf' = Inr True"
proof -
  have "\<forall>b \<in> set (replicate 40 7) \<union> set (replicate 1928 9) \<union> set [1, 2, 3]. b < (256 :: nat)" by auto
  note t = hammer_crc_set_then_test [OF this length_replicate length_replicate, of "\<lparr>rec_type = 2, data_len = 3, data_crc = 0\<rparr>"]
  have "data_len \<lparr>rec_type = 2, data_len = 3, data_crc = 0\<rparr> = int (length [1, 2, 3 :: nat])" "length [1, 2, 3 :: nat] < 2 ^ 31"
    "rec_type \<lparr>rec_type = 2, data_len = 3, data_crc = 0\<rparr> = 1 \<longrightarrow> length [1, 2, 3 :: nat] = 128" by simp_all
  from t [OF this] obtain bm' vol' leaf' where
    w: "hammer_crc_set_blockmap (replicate 40 7) = Inr bm'" "hammer_crc_test_blockmap bm' = Inr True"
    "hammer_crc_set_volume (replicate 1928 9) = Inr vol'" "hammer_crc_test_volume vol' = Inr True"
    "\<forall>i b. i < 1928 \<and> (i < 156 \<or> 160 \<le> i) \<and> b < 256 \<and> b \<noteq> vol' ! i \<longrightarrow> hammer_crc_test_volume (vol'[i := b]) = Inr False"
    "hammer_crc_set_leaf [1, 2, 3] \<lparr>rec_type = 2, data_len = 3, data_crc = 0\<rparr> = Inr leaf'"
    "hammer_crc_test_leaf [1, 2, 3] leaf' = Inr True" by (elim exE conjE) (rule that, assumption+)
  have "hammer_crc_test_volume (vol'[200 := if vol' ! 200 = 0 then 1 else 0]) = Inr False"
    using w(5) [rule_format, of 200 "if vol' ! 200 = 0 then 1 else 0"] by (simp split: if_splits)
  then show ?thesis using w by blast
qed





text \<open>C33. Conversions come back: a 64-bit time in microseconds through a \<open>timespec\<close>, a user id through a uuid, the
  types of objects and of vnodes (unless unknown), and the offset in a block is the remainder of the file offset
  by its block size.\<close>

theorem hammer_conversions:
  assumes "xtime < 2 ^ 64" "guid < 2 ^ 32"
  shows "hammer_timespec_to_time (hammer_time_to_timespec xtime) = xtime \<and>
    rbind (hammer_guid_to_uuid guid) hammer_to_unix_xid = Inr guid \<and>
    (hammer_get_obj_type v = 0 \<or> hammer_get_vnode_type (hammer_get_obj_type v) = v) \<and>
    (hammer_get_vnode_type ot = VBAD \<or> hammer_get_obj_type (hammer_get_vnode_type ot) = ot) \<and>
    (hammer_get_dtype ot = 0 \<longleftrightarrow> hammer_get_vnode_type ot = VBAD) \<and>
    hammer_blockoff off = off mod hammer_blocksize off"
proof -
  have "hammer_get_dtype ot = 0 \<longleftrightarrow> hammer_get_vnode_type ot = VBAD"
    by (simp add: hammer_get_dtype_def hammer_get_vnode_type_def)
  then show ?thesis
    using time_roundtrip [OF assms(1)] xid_roundtrip [OF assms(2)] obj_type_roundtrip(1) [of v] obj_type_roundtrip(2) [of ot]
      blockoff_mod [of off] by blast
qed

theorem hammer_conversions_witness:
  "hammer_timespec_to_time (hammer_time_to_timespec 1500000) = 1500000 \<and>
   rbind (hammer_guid_to_uuid 1001) hammer_to_unix_xid = Inr 1001"
  using hammer_conversions [of 1500000 1001] by simp

end
