(* ===== verification/Scanf.thy ===== *)
theory Scanf
  imports Kvprintf Strto
begin

text \<open>
  The formatted input of the kernel, \<open>sys/kern/subr_scanf.c\<close>: \<open>kvsscanf\<close>, its integer scanner and the scan
  sets of \<open>__sccl\<close>.  The input and the format are byte arrays with checked accesses; a pointer into them is an
  offset.  What the call stores through its variable arguments is returned as a list, in the order of the
  arguments: a number with the width of its object, a pointer, or a character buffer.
\<close>

section \<open>Arguments and state\<close>

text \<open>An argument points to an object for a number, or to a character buffer with its contents.\<close>

datatype sarg = SObj | SBuf "byte list"

datatype sval = RInt nat int | RPtr nat | RBuf "byte list"

definition sa_obj :: "sarg list \<Rightarrow> sarg list kres" where
  "sa_obj ap = (case ap of SObj # r \<Rightarrow> Inr r | _ \<Rightarrow> Inl Bad_Arg)"

definition sa_buf :: "sarg list \<Rightarrow> (byte list \<times> sarg list) kres" where
  "sa_buf ap = (case ap of SBuf b # r \<Rightarrow> Inr (b, r) | _ \<Rightarrow> Inl Bad_Arg)"

text \<open>The flags of a directive; \<open>ccfn\<close> is the conversion function, \<open>None\<close> the null pointer.\<close>

datatype ccfntype = Strtoq | Strtouq

record scflags =
  sc_long :: bool
  sc_short :: bool
  sc_suppress :: bool
  sc_pointer :: bool
  sc_noskip :: bool
  sc_quad :: bool
  sc_pfxok :: bool

definition sc_noflags :: scflags where
  "sc_noflags = \<lparr>sc_long = False, sc_short = False, sc_suppress = False, sc_pointer = False, sc_noskip = False,
     sc_quad = False, sc_pfxok = False\<rparr>"

record scst =
  sc_inp :: nat
  sc_inr :: int
  sc_nassigned :: nat
  sc_nconversions :: nat
  sc_nread :: int
  sc_base :: nat
  sc_ccfn :: "ccfntype option"
  sc_tab :: "byte list"
  sc_ap :: "sarg list"
  sc_out :: "sval list"

section \<open>Scan sets\<close>

text \<open>\<open>do { tab[++c] = v; } while (c < n)\<close>\<close>

function sccl_range :: "byte list \<Rightarrow> nat \<Rightarrow> nat \<Rightarrow> byte \<Rightarrow> byte list kres" where
  "sccl_range tab c n v =
     rbind (wr tab (c + 1) v) (\<lambda>tab. if c + 1 < n then sccl_range tab (c + 1) n v else Inr tab)"
  by pat_completeness auto
termination
  by (relation "measure (\<lambda>(tab, c, n, v). n - c)") auto

text \<open>From \<open>doswitch\<close> on, after the character \<open>c\<close> was taken; \<open>i\<close> is \<open>fmt\<close>.\<close>

function sccl_switch :: "byte list \<Rightarrow> nat \<Rightarrow> byte list \<Rightarrow> nat \<Rightarrow> byte \<Rightarrow> (byte list \<times> nat) kres" where
  "sccl_switch fmt i tab c v =
     rbind (rd fmt i) (\<lambda>n.
       if n = 0 then Inr (tab, i)
       else if n = 45 then
         rbind (rd fmt (i + 1)) (\<lambda>n.
           if n = 93 \<or> n < c then rbind (wr tab 45 v) (\<lambda>tab. sccl_switch fmt (i + 1) tab 45 v)
           else rbind (sccl_range tab c n v) (\<lambda>tab. sccl_switch fmt (i + 2) tab n v))
       else if n = 93 then Inr (tab, i + 1)
       else rbind (wr tab n v) (\<lambda>tab. sccl_switch fmt (i + 1) tab n v))"
  by pat_completeness auto
termination
  by (relation "measure (\<lambda>(fmt, i, tab, c, v). length fmt - i)") (auto simp: rd_def split: if_splits)

declare sccl_range.simps [simp del] sccl_switch.simps [simp del]

definition sccl :: "byte list \<Rightarrow> nat \<Rightarrow> (byte list \<times> nat) kres" where
  "sccl fmt i =
     rbind (rd fmt i) (\<lambda>c.
     rbind (if c = 94 then rbind (rd fmt (i + 1)) (\<lambda>c. Inr (1, c, i + 2)) else Inr (0, c, i + 1)) (\<lambda>(v, c, i).
       let tab = replicate 256 v
       in if c = 0 then Inr (tab, i - 1)
          else rbind (wr tab c (1 - v)) (\<lambda>tab. sccl_switch fmt i tab c (1 - v))))"

section \<open>Loops over the input\<close>

text \<open>\<open>while (inr > 0 && isspace( *inp)) nread++, inr--, inp++\<close>\<close>

function sc_space :: "byte list \<Rightarrow> nat \<Rightarrow> int \<Rightarrow> int \<Rightarrow> (nat \<times> int \<times> int) kres" where
  "sc_space ibuf inp inr nread =
     (if 0 < inr then
        rbind (rd ibuf inp) (\<lambda>c.
          if isspace c then sc_space ibuf (inp + 1) (inr - 1) (nread + 1) else Inr (inp, inr, nread))
      else Inr (inp, inr, nread))"
  by pat_completeness auto
termination
  by (relation "measure (\<lambda>(ibuf, inp, inr, nread). length ibuf - inp)") (auto simp: rd_def split: if_splits)

text \<open>The white space before a conversion; the flag says that the input ended in it.\<close>

function sc_blank :: "byte list \<Rightarrow> nat \<Rightarrow> int \<Rightarrow> int \<Rightarrow> (bool \<times> nat \<times> int \<times> int) kres" where
  "sc_blank ibuf inp inr nread =
     rbind (rd ibuf inp) (\<lambda>c.
       if isspace c then
         if 0 < inr - 1 then sc_blank ibuf (inp + 1) (inr - 1) (nread + 1) else Inr (True, inp, inr - 1, nread + 1)
       else Inr (False, inp, inr, nread))"
  by pat_completeness auto
termination
  by (relation "measure (\<lambda>(ibuf, inp, inr, nread). length ibuf - inp)") (auto simp: rd_def split: if_splits)

text \<open>The loops of \<open>%[\<close> and \<open>%s\<close>, that take characters while \<open>P\<close> holds.\<close>

function sc_take :: "(byte \<Rightarrow> bool) \<Rightarrow> byte list \<Rightarrow> nat \<Rightarrow> int \<Rightarrow> nat \<Rightarrow> (byte list \<times> nat \<times> int) kres" where
  "sc_take P ibuf inp inr width =
     rbind (rd ibuf inp) (\<lambda>c.
       if \<not> P c then Inr ([], inp, inr)
       else if width - 1 = 0 \<or> inr - 1 \<le> 0 then Inr ([c], inp + 1, inr - 1)
       else rbind (sc_take P ibuf (inp + 1) (inr - 1) (width - 1)) (\<lambda>(r, inp, inr). Inr (c # r, inp, inr)))"
  by pat_completeness auto
termination
  by (relation "measure (\<lambda>(P, ibuf, inp, inr, width). length ibuf - inp)") (auto simp: rd_def split: if_splits)

declare sc_space.simps [simp del] sc_blank.simps [simp del] sc_take.simps [simp del]

section \<open>Integers\<close>

text \<open>The flags that change while a number is scanned: \<open>SIGNOK\<close>, \<open>NDIGITS\<close>, \<open>PFXOK\<close> and \<open>NZDIGITS\<close>.\<close>

record scint =
  si_signok :: bool
  si_ndigits :: bool
  si_pfxok :: bool
  si_nzdigits :: bool

definition basefix :: "nat \<Rightarrow> nat" where
  "basefix base = [10, 1, 2, 3, 4, 5, 6, 7, 8, 9, 10, 11, 12, 13, 14, 15, 16] ! base"

definition si_digit :: "scint \<Rightarrow> scint" where
  "si_digit fl = fl\<lparr>si_signok := False, si_pfxok := False, si_ndigits := False\<rparr>"

text \<open>The inner \<open>switch\<close> for the character \<open>c\<close> when \<open>k\<close> characters are in the buffer; \<open>None\<close> ends the number.\<close>

definition si_accept :: "nat \<Rightarrow> byte \<Rightarrow> nat \<Rightarrow> scint \<Rightarrow> (nat \<times> scint) option" where
  "si_accept k c base fl =
     (if c = 48 then
        let (base, fl) = (if base = 0 then (8, fl\<lparr>si_pfxok := True\<rparr>) else (base, fl))
        in Some (base, if si_nzdigits fl then fl\<lparr>si_signok := False, si_nzdigits := False, si_ndigits := False\<rparr>
                       else si_digit fl)
      else if 49 \<le> c \<and> c \<le> 55 then Some (basefix base, si_digit fl)
      else if c = 56 \<or> c = 57 then (if basefix base \<le> 8 then None else Some (basefix base, si_digit fl))
      else if 65 \<le> c \<and> c \<le> 70 \<or> 97 \<le> c \<and> c \<le> 102 then (if base \<le> 10 then None else Some (base, si_digit fl))
      else if c = 43 \<or> c = 45 then (if si_signok fl then Some (base, fl\<lparr>si_signok := False\<rparr>) else None)
      else if c = 120 \<or> c = 88 then (if si_pfxok fl \<and> k = 1 then Some (16, fl\<lparr>si_pfxok := False\<rparr>) else None)
      else None)"

text \<open>
  The loop for \<open>width\<close> more characters; \<open>acc\<close> is what the buffer holds.  At the end of the input \<open>inp\<close> stays on
  the last character.
\<close>

fun si_scan :: "byte list \<Rightarrow> nat \<Rightarrow> nat \<Rightarrow> int \<Rightarrow> nat \<Rightarrow> scint \<Rightarrow> byte list
    \<Rightarrow> (byte list \<times> nat \<times> int \<times> nat \<times> scint) kres" where
  "si_scan ibuf 0 inp inr base fl acc = Inr (acc, inp, inr, base, fl)"
| "si_scan ibuf (Suc w) inp inr base fl acc =
     rbind (rd ibuf inp) (\<lambda>c.
       case si_accept (length acc) c base fl of
         None \<Rightarrow> Inr (acc, inp, inr, base, fl)
       | Some (base, fl) \<Rightarrow>
           if 0 < inr - 1 then si_scan ibuf w (inp + 1) (inr - 1) base fl (acc @ [c])
           else Inr (acc @ [c], inp, inr - 1, base, fl))"

definition sc_ccfn_call :: "ccfntype option \<Rightarrow> byte list \<Rightarrow> nat \<Rightarrow> int kres" where
  "sc_ccfn_call f buf base =
     (case f of
        None \<Rightarrow> Inl Bad_Access
      | Some Strtoq \<Rightarrow> rbind (strtoq buf (int base)) (\<lambda>(v, _). Inr (v mod 2 ^ 64))
      | Some Strtouq \<Rightarrow> rbind (strtouq buf (int base)) (\<lambda>(v, _). Inr (int v)))"

definition sc_store :: "scflags \<Rightarrow> int \<Rightarrow> sval" where
  "sc_store fl v =
     (if sc_pointer fl then RPtr (nat (v mod 2 ^ 64))
      else let w = (if sc_short fl then 16 else if sc_long fl then 64 else if sc_quad fl then 64 else 32)
           in RInt w (swrap w v))"

section \<open>Conversions\<close>

text \<open>What a step does: it goes on (\<open>Next\<close>), reads more of the directive (\<open>More\<close>), or ends the call (\<open>Ret\<close>).\<close>

datatype scstep = Next nat scst | More nat nat scflags scst | Ret int scst

definition input_failure :: "scst \<Rightarrow> scstep kres" where
  "input_failure st = Inr (Ret (if sc_nconversions st \<noteq> 0 then int (sc_nassigned st) else - 1) st)"

definition match_failure :: "scst \<Rightarrow> scstep kres" where
  "match_failure st = Inr (Ret (int (sc_nassigned st)) st)"

abbreviation (input) sc_assigned :: "sval \<Rightarrow> scst \<Rightarrow> scst" where
  "sc_assigned v st \<equiv> st\<lparr>sc_nassigned := sc_nassigned st + 1, sc_out := sc_out st @ [v]\<rparr>"

definition sc_char :: "byte list \<Rightarrow> nat \<Rightarrow> nat \<Rightarrow> scflags \<Rightarrow> scst \<Rightarrow> scstep kres" where
  "sc_char ibuf i width fl st =
     (let width = (if width = 0 then 1 else width); st1 = st\<lparr>sc_nconversions := sc_nconversions st + 1\<rparr>
      in if sc_suppress fl then
           (if sc_inr st < int width then
              Inr (Next i (st1\<lparr>sc_inp := sc_inp st + nat (sc_inr st), sc_nread := sc_nread st + sc_inr st\<rparr>))
            else
              Inr (Next i (st1\<lparr>sc_inp := sc_inp st + width, sc_inr := sc_inr st - int width,
                               sc_nread := sc_nread st + int width\<rparr>)))
         else
           rbind (sa_buf (sc_ap st)) (\<lambda>(dst, ap).
           if length ibuf < sc_inp st + width \<or> length dst < width then Inl Bad_Access
           else Inr (Next i (sc_assigned (RBuf (take width (drop (sc_inp st) ibuf) @ drop width dst))
                  (st1\<lparr>sc_ap := ap, sc_inp := sc_inp st + width, sc_inr := swrap 32 (sc_inr st - int width),
                       sc_nread := swrap 32 (sc_nread st + int width)\<rparr>)))))"

definition sc_string :: "(byte \<Rightarrow> bool) \<Rightarrow> bool \<Rightarrow> byte list \<Rightarrow> nat \<Rightarrow> nat \<Rightarrow> scflags \<Rightarrow> scst \<Rightarrow> scstep kres" where
  "sc_string P nonempty ibuf i width fl st =
     (let width = (if width = 0 then 2 ^ 64 - 1 else width)
      in rbind (if sc_suppress fl then Inr ([], sc_ap st) else sa_buf (sc_ap st)) (\<lambda>(dst, ap).
         rbind (sc_take P ibuf (sc_inp st) (sc_inr st) width) (\<lambda>(s, inp, inr).
         let st1 = st\<lparr>sc_inp := inp, sc_inr := inr, sc_ap := ap\<rparr>;
             st2 = st1\<lparr>sc_nread := sc_nread st + int (length s), sc_nconversions := sc_nconversions st + 1\<rparr>
         in if nonempty \<and> s = [] then match_failure st1
            else if sc_suppress fl then Inr (Next i st2)
            else rbind (kv_store dst 0 (s @ [0])) (\<lambda>dst. Inr (Next i (sc_assigned (RBuf dst) st2))))))"

definition sc_int :: "byte list \<Rightarrow> nat \<Rightarrow> nat \<Rightarrow> scflags \<Rightarrow> scst \<Rightarrow> scstep kres" where
  "sc_int ibuf i width fl st =
     (let width = (if width = 0 \<or> 31 < width then 31 else width);
          f0 = \<lparr>si_signok = True, si_ndigits = True, si_pfxok = sc_pfxok fl, si_nzdigits = True\<rparr>
      in rbind (si_scan ibuf width (sc_inp st) (sc_inr st) (sc_base st) f0 []) (\<lambda>(acc, inp, inr, base, f).
         let st = st\<lparr>sc_inp := inp, sc_inr := inr, sc_base := base\<rparr>
         in if si_ndigits f then match_failure st
            else let x = (last acc = 120 \<or> last acc = 88);
                     p = (if x then butlast acc else acc);
                     st = (if x then st\<lparr>sc_inp := sc_inp st - 1, sc_inr := sc_inr st + 1\<rparr> else st);
                     st1 = st\<lparr>sc_nread := sc_nread st + int (length p), sc_nconversions := sc_nconversions st + 1\<rparr>
                 in if sc_suppress fl then Inr (Next i st1)
                    else rbind (sc_ccfn_call (sc_ccfn st) (p @ [0]) (sc_base st)) (\<lambda>res.
                         rbind (sa_obj (sc_ap st)) (\<lambda>ap.
                           Inr (Next i (sc_assigned (sc_store fl res) (st1\<lparr>sc_ap := ap\<rparr>)))))))"

text \<open>
  From \<open>We have a conversion that requires input\<close> on.  \<open>c\<close> is the conversion type, or the character of an
  unknown conversion, which no case of the second \<open>switch\<close> takes unless its code is one of the four types.
\<close>

definition CT_CHAR :: nat where "CT_CHAR = 0"
definition CT_CCL :: nat where "CT_CCL = 1"
definition CT_STRING :: nat where "CT_STRING = 2"
definition CT_INT :: nat where "CT_INT = 3"

definition sc_convert :: "byte list \<Rightarrow> nat \<Rightarrow> nat \<Rightarrow> nat \<Rightarrow> scflags \<Rightarrow> scst \<Rightarrow> scstep kres" where
  "sc_convert ibuf i c width fl st =
     (if sc_inr st \<le> 0 then input_failure st
      else rbind (if sc_noskip fl then Inr (False, sc_inp st, sc_inr st, sc_nread st)
                  else sc_blank ibuf (sc_inp st) (sc_inr st) (sc_nread st)) (\<lambda>(ended, inp, inr, nread).
        let st = st\<lparr>sc_inp := inp, sc_inr := inr, sc_nread := nread\<rparr>
        in if ended then input_failure st
           else if c = CT_CHAR then sc_char ibuf i width fl st
           else if c = CT_CCL then sc_string (\<lambda>c. sc_tab st ! c \<noteq> 0) True ibuf i width fl st
           else if c = CT_STRING then sc_string (\<lambda>c. \<not> isspace c) False ibuf i width fl st
           else if c = CT_INT then sc_int ibuf i width fl st
           else Inr (Next i st)))"

text \<open>\<open>literal\<close>: the input is a signed \<open>char\<close>, the format an unsigned one.\<close>

definition sc_literal :: "byte list \<Rightarrow> nat \<Rightarrow> byte \<Rightarrow> scst \<Rightarrow> scstep kres" where
  "sc_literal ibuf i c st =
     (if sc_inr st \<le> 0 then input_failure st
      else rbind (rd ibuf (sc_inp st)) (\<lambda>d.
        if schar d \<noteq> int c then match_failure st
        else Inr (Next i (st\<lparr>sc_inr := sc_inr st - 1, sc_inp := sc_inp st + 1, sc_nread := sc_nread st + 1\<rparr>))))"

definition sc_nstore :: "nat \<Rightarrow> scflags \<Rightarrow> scst \<Rightarrow> scstep kres" where
  "sc_nstore i fl st =
     (let st = st\<lparr>sc_nconversions := sc_nconversions st + 1\<rparr>
      in if sc_suppress fl then Inr (Next i st)
         else rbind (sa_obj (sc_ap st)) (\<lambda>ap.
           let w = (if sc_short fl then 16 else if sc_long fl then 64 else if sc_quad fl then 64 else 32)
           in Inr (Next i (st\<lparr>sc_ap := ap, sc_out := sc_out st @ [RInt w (swrap w (sc_nread st))]\<rparr>))))"

abbreviation (input) sc_intconv :: "ccfntype \<Rightarrow> nat \<Rightarrow> scst \<Rightarrow> scst" where
  "sc_intconv f b st \<equiv> st\<lparr>sc_ccfn := Some f, sc_base := b\<rparr>"

text \<open>The first \<open>switch\<close>, at \<open>again\<close>, for the character \<open>c\<close>; \<open>i\<close> is \<open>fmt\<close> behind it.\<close>

definition sc_dir :: "byte list \<Rightarrow> byte list \<Rightarrow> byte \<Rightarrow> nat \<Rightarrow> nat \<Rightarrow> scflags \<Rightarrow> scst \<Rightarrow> scstep kres" where
  "sc_dir ibuf fmt c i width fl st =
     (if c = 37 then sc_literal ibuf i c st
      else if c = 42 then Inr (More i width (fl\<lparr>sc_suppress := True\<rparr>) st)
      else if c = 108 then Inr (More i width (fl\<lparr>sc_long := True\<rparr>) st)
      else if c = 113 then Inr (More i width (fl\<lparr>sc_quad := True\<rparr>) st)
      else if c = 104 then Inr (More i width (fl\<lparr>sc_short := True\<rparr>) st)
      else if 48 \<le> c \<and> c \<le> 57 then Inr (More i ((width * 10 + c - 48) mod 2 ^ 64) fl st)
      else if c = 100 then sc_convert ibuf i CT_INT width fl (sc_intconv Strtoq 10 st)
      else if c = 105 then sc_convert ibuf i CT_INT width fl (sc_intconv Strtoq 0 st)
      else if c = 111 then sc_convert ibuf i CT_INT width fl (sc_intconv Strtouq 8 st)
      else if c = 117 then sc_convert ibuf i CT_INT width fl (sc_intconv Strtouq 10 st)
      else if c = 120 then sc_convert ibuf i CT_INT width (fl\<lparr>sc_pfxok := True\<rparr>) (sc_intconv Strtouq 16 st)
      else if c = 115 then sc_convert ibuf i CT_STRING width fl st
      else if c = 91 then
        rbind (sccl fmt i) (\<lambda>(tab, i). sc_convert ibuf i CT_CCL width (fl\<lparr>sc_noskip := True\<rparr>) (st\<lparr>sc_tab := tab\<rparr>))
      else if c = 99 then sc_convert ibuf i CT_CHAR width (fl\<lparr>sc_noskip := True\<rparr>) st
      else if c = 112 then
        sc_convert ibuf i CT_INT width (fl\<lparr>sc_pointer := True, sc_pfxok := True\<rparr>) (sc_intconv Strtouq 16 st)
      else if c = 110 then sc_nstore i fl st
      else sc_convert ibuf i c width fl st)"

fun scstep_pos :: "nat \<Rightarrow> scstep \<Rightarrow> nat" where
  "scstep_pos i (Next j st) = j"
| "scstep_pos i (More j width fl st) = j"
| "scstep_pos i (Ret r st) = i"

lemma sccl_switch_le: "sccl_switch fmt i tab c v = Inr (tab', j) \<Longrightarrow> i \<le> j"
proof (induction fmt i tab c v rule: sccl_switch.induct)
  case (1 fmt i tab c v)
  from 1(4) obtain n where n: "rd fmt i = Inr n" by (subst (asm) sccl_switch.simps) (auto simp: rbind_eq_Inr)
  show ?case
  proof (cases "n = 0 \<or> n = 93")
    case True
    with 1(4) n show ?thesis by (subst (asm) sccl_switch.simps) auto
  next
    case False
    show ?thesis
    proof (cases "n = 45")
      case True
      with 1(4) n obtain k where k: "rd fmt (i + 1) = Inr k"
        by (subst (asm) sccl_switch.simps) (auto simp: rbind_eq_Inr)
      show ?thesis
      proof (cases "k = 93 \<or> k < c")
        case True
        with 1(4) n \<open>n = 45\<close> k obtain tab1 where "wr tab 45 v = Inr tab1" "sccl_switch fmt (i + 1) tab1 45 v = Inr (tab', j)"
          by (subst (asm) sccl_switch.simps) (auto simp: rbind_eq_Inr)
        with 1(1) [OF n _ _ k True] \<open>n = 45\<close> show ?thesis by force
      next
        case False
        with 1(4) n \<open>n = 45\<close> k obtain tab1 where "sccl_range tab c k v = Inr tab1" "sccl_switch fmt (i + 2) tab1 k v = Inr (tab', j)"
          by (subst (asm) sccl_switch.simps) (auto simp: rbind_eq_Inr)
        with 1(2) [OF n _ _ k False] \<open>n = 45\<close> show ?thesis by force
      qed
    next
      case f: False
      with 1(4) n False obtain tab1 where "wr tab n v = Inr tab1" "sccl_switch fmt (i + 1) tab1 n v = Inr (tab', j)"
        by (subst (asm) sccl_switch.simps) (auto simp: rbind_eq_Inr)
      with 1(3) [OF n _ f] False show ?thesis by force
    qed
  qed
qed

lemma sccl_le: "sccl fmt i = Inr (tab, j) \<Longrightarrow> i \<le> j"
  by (auto simp: sccl_def rbind_eq_Inr Let_def split: if_splits dest: sccl_switch_le)

text \<open>A conversion ends the call or goes on at the given place.\<close>

definition goes_on :: "nat \<Rightarrow> scstep \<Rightarrow> bool" where
  "goes_on j r \<longleftrightarrow> (\<exists>st. r = Next j st) \<or> (\<exists>v st. r = Ret v st)"

lemma goes_on_simps [simp]: "goes_on j (Next i st) \<longleftrightarrow> i = j" "goes_on j (Ret v st)" "\<not> goes_on j (More i width fl st)"
  by (auto simp: goes_on_def)

lemma goes_on_pos: "goes_on j r \<Longrightarrow> i \<le> j \<Longrightarrow> i \<le> scstep_pos i r"
  by (auto simp: goes_on_def)

lemma failures_go_on: "input_failure st = Inr r \<Longrightarrow> goes_on j r" "match_failure st = Inr r \<Longrightarrow> goes_on j r"
  by (auto simp: input_failure_def match_failure_def)

lemma sc_char_goes_on: "sc_char ibuf j width fl st = Inr r \<Longrightarrow> goes_on j r"
  unfolding sc_char_def Let_def by (auto simp: rbind_eq_Inr split: if_splits)

lemma sc_string_goes_on: "sc_string P e ibuf j width fl st = Inr r \<Longrightarrow> goes_on j r"
  unfolding sc_string_def Let_def by (auto simp: rbind_eq_Inr split: if_splits dest: failures_go_on)

lemma sc_int_goes_on: "sc_int ibuf j width fl st = Inr r \<Longrightarrow> goes_on j r"
proof -
  assume r: "sc_int ibuf j width fl st = Inr r"
  obtain x where x: "si_scan ibuf (if width = 0 \<or> 31 < width then 31 else width) (sc_inp st) (sc_inr st) (sc_base st)
      \<lparr>si_signok = True, si_ndigits = True, si_pfxok = sc_pfxok fl, si_nzdigits = True\<rparr> [] = Inr x"
    using r unfolding sc_int_def Let_def rbind_eq_Inr by blast
  obtain acc inp inr base f where x2: "x = (acc, inp, inr, base, f)" by (metis prod_cases5)
  define s where "s = st\<lparr>sc_inp := inp, sc_inr := inr, sc_base := base\<rparr>"
  define s1 where "s1 = (if last acc = 120 \<or> last acc = 88 then s\<lparr>sc_inp := sc_inp s - 1, sc_inr := sc_inr s + 1\<rparr> else s)"
  show ?thesis
    using r unfolding sc_int_def Let_def x rbind_Inr x2 prod.case s_def [symmetric] s1_def [symmetric]
    by (auto simp: rbind_eq_Inr split: if_splits dest: failures_go_on)
qed

lemma sc_literal_goes_on: "sc_literal ibuf j c st = Inr r \<Longrightarrow> goes_on j r"
  unfolding sc_literal_def by (auto simp: rbind_eq_Inr split: if_splits dest: failures_go_on)

lemma sc_nstore_goes_on: "sc_nstore j fl st = Inr r \<Longrightarrow> goes_on j r"
  unfolding sc_nstore_def Let_def by (auto simp: rbind_eq_Inr split: if_splits)

lemma sc_convert_goes_on: "sc_convert ibuf j c width fl st = Inr r \<Longrightarrow> goes_on j r"
  unfolding sc_convert_def Let_def
  by (auto simp: rbind_eq_Inr split: if_splits dest: failures_go_on sc_char_goes_on sc_string_goes_on sc_int_goes_on)

lemma sc_dir_pos: "sc_dir ibuf fmt c i width fl st = Inr r \<Longrightarrow> i \<le> scstep_pos i r"
  unfolding sc_dir_def
  by (auto simp: rbind_eq_Inr split: if_splits
      dest!: sc_convert_goes_on sc_literal_goes_on sc_nstore_goes_on sccl_le intro: goes_on_pos)

section \<open>The interpreter\<close>

function sc_run :: "byte list \<Rightarrow> byte list \<Rightarrow> nat \<Rightarrow> (nat \<times> scflags) option \<Rightarrow> scst \<Rightarrow> (int \<times> scst) kres" where
  "sc_run ibuf fmt i mode st =
     rbind (rd fmt i) (\<lambda>c.
       case mode of
         None \<Rightarrow>
           if c = 0 then Inr (int (sc_nassigned st), st)
           else if isspace c then
             rbind (sc_space ibuf (sc_inp st) (sc_inr st) (sc_nread st)) (\<lambda>(inp, inr, nread).
               sc_run ibuf fmt (i + 1) None (st\<lparr>sc_inp := inp, sc_inr := inr, sc_nread := nread\<rparr>))
           else if c \<noteq> 37 then
             rbind (sc_literal ibuf (i + 1) c st) (\<lambda>r.
               case r of Ret v st \<Rightarrow> Inr (v, st) | Next _ st \<Rightarrow> sc_run ibuf fmt (i + 1) None st
               | More _ _ _ st \<Rightarrow> sc_run ibuf fmt (i + 1) None st)
           else sc_run ibuf fmt (i + 1) (Some (0, sc_noflags)) st
       | Some (width, fl) \<Rightarrow>
           rbind (sc_dir ibuf fmt c (i + 1) width fl st) (\<lambda>r.
             case r of
               Ret v st \<Rightarrow> Inr (v, st)
             | Next j st \<Rightarrow> sc_run ibuf fmt j None st
             | More j width fl st \<Rightarrow> sc_run ibuf fmt j (Some (width, fl)) st))"
  by pat_completeness auto
termination
  by (relation "measure (\<lambda>(ibuf, fmt, i, mode, st). length fmt - i)")
    (auto simp: rd_def split: if_splits dest!: sc_dir_pos)

declare sc_run.simps [simp del]

definition kvsscanf :: "byte list \<Rightarrow> byte list \<Rightarrow> sarg list \<Rightarrow> (int \<times> sval list) kres" where
  "kvsscanf ibuf fmt ap =
     rbind (strlen ibuf 0) (\<lambda>n.
     rbind (sc_run ibuf fmt 0 None
       \<lparr>sc_inp = 0, sc_inr = swrap 32 (int n), sc_nassigned = 0, sc_nconversions = 0, sc_nread = 0, sc_base = 0,
        sc_ccfn = None, sc_tab = replicate 256 0, sc_ap = ap, sc_out = []\<rparr>) (\<lambda>(r, st). Inr (r, sc_out st)))"

definition ksscanf :: "byte list \<Rightarrow> byte list \<Rightarrow> sarg list \<Rightarrow> (int \<times> sval list) kres" where
  "ksscanf ibuf fmt ap = kvsscanf ibuf fmt ap"

end
