(* ===== verification/Uuid.thy ===== *)
theory Uuid
  imports Scanf Kern_Endian
begin

text \<open>
  Universally unique identifiers, \<open>sys/kern/kern_uuid.c\<close>: the generator, comparison, the byte-stream formats,
  printing and parsing.  The fields of \<open>struct uuid\<close> are natural numbers below the power of their width
  (\<open>uuid_ok\<close>).  What the network, the random source and the clock deliver to a call of the generator is an
  argument of it; its state \<open>uuid_last\<close>, which the lock protects, is passed explicitly.
\<close>

unbundle bit_operations_syntax

section \<open>Data\<close>

definition UUID_NODE_LEN :: nat where
  "UUID_NODE_LEN = 6"

record uuid =
  time_low :: nat
  time_mid :: nat
  time_hi_and_version :: nat
  clock_seq_hi_and_reserved :: nat
  clock_seq_low :: nat
  node :: "byte list"

definition uuid_ok :: "uuid \<Rightarrow> bool" where
  "uuid_ok u \<longleftrightarrow> time_low u < 2 ^ 32 \<and> time_mid u < 2 ^ 16 \<and> time_hi_and_version u < 2 ^ 16 \<and>
     clock_seq_hi_and_reserved u < 256 \<and> clock_seq_low u < 256 \<and> length (node u) = UUID_NODE_LEN \<and>
     list_all (\<lambda>b. b < 256) (node u)"

text \<open>The representation of the generator: \<open>time.ll\<close>, \<open>seq\<close>, and the node address as three 16-bit words.\<close>

record uuid_private =
  time_ll :: nat
  seq :: nat
  pnode :: "nat list"

definition bswap16 :: "nat \<Rightarrow> nat" where
  "bswap16 x = x mod 256 * 256 + x div 256"

section \<open>The generator\<close>

text \<open>
  The node address: that of an interface (\<open>mac\<close>), or random bytes, with the multicast bit set.  The bytes are
  read as 16-bit words of a little-endian machine.
\<close>

definition uuid_node :: "byte list option \<Rightarrow> byte list \<Rightarrow> nat list" where
  "uuid_node mac rnd =
     (let b = (case mac of Some m \<Rightarrow> m | None \<Rightarrow> rnd); b = b[0 := b ! 0 OR 1]
      in map (\<lambda>i. b ! (2 * i) + 256 * b ! (2 * i + 1)) [0..<3])"

definition uuid_time :: "timespec \<Rightarrow> nat" where
  "uuid_time ts =
     nat ((0x01B21DD213814000 + tv_sec ts * 10000000 + cdiv (tv_nsec ts) 100) mod 2 ^ 64) AND (2 ^ 60 - 1)"

text \<open>\<open>*(struct uuid * )&uuid\<close> for the time fields \<open>low\<close>, \<open>mid\<close>, \<open>hi\<close> and the sequence number in big-endian order.\<close>

definition uuid_cast :: "nat \<Rightarrow> nat \<Rightarrow> nat \<Rightarrow> nat \<Rightarrow> nat list \<Rightarrow> uuid" where
  "uuid_cast low mid hi bseq nd =
     \<lparr>time_low = low, time_mid = mid, time_hi_and_version = hi,
      clock_seq_hi_and_reserved = bseq mod 256, clock_seq_low = bseq div 256,
      node = concat (map (\<lambda>w. [w mod 256, w div 256]) nd)\<rparr>"

fun uuidgen_loop :: "nat \<Rightarrow> nat list \<Rightarrow> nat \<Rightarrow> nat \<Rightarrow> uuid list" where
  "uuidgen_loop bseq nd time 0 = []"
| "uuidgen_loop bseq nd time (Suc n) =
     uuid_cast (time mod 2 ^ 32) (drop_bit 32 time mod 2 ^ 16)
       ((drop_bit 48 time mod 2 ^ 16 AND 0xfff) OR push_bit 12 1) bseq nd
     # uuidgen_loop bseq nd ((time + 1) mod 2 ^ 64) n"

text \<open>One call: the environment is the interface address, random bytes, the clock and a random sequence number.\<close>

record uuid_env =
  env_mac :: "byte list option"
  env_random :: "byte list"
  env_clock :: timespec
  env_seq :: nat

definition kern_uuidgen :: "uuid_private \<Rightarrow> uuid_env \<Rightarrow> nat \<Rightarrow> uuid_private \<times> uuid list" where
  "kern_uuidgen uuid_last env count =
     (let nd = uuid_node (env_mac env) (env_random env);
          time = uuid_time (env_clock env);
          sq = (if time_ll uuid_last = 0 \<or> pnode uuid_last ! 0 \<noteq> nd ! 0 \<or> pnode uuid_last ! 1 \<noteq> nd ! 1 \<or>
                   pnode uuid_last ! 2 \<noteq> nd ! 2 then env_seq env AND 0x3fff
                else if time \<le> time_ll uuid_last then (seq uuid_last + 1) AND 0x3fff
                else seq uuid_last)
      in (\<lparr>time_ll = nat ((int time + int count - 1) mod 2 ^ 64) AND (2 ^ 60 - 1), seq = sq, pnode = nd\<rparr>,
          uuidgen_loop (bswap16 (sq OR 0x8000)) nd time count))"

text \<open>
  \<open>sys_uuidgen\<close>: \<open>mem\<close> says whether \<open>kmalloc\<close> found memory, \<open>copyerr\<close> is the result of \<open>copyout\<close>.  The last
  component is what the caller got.
\<close>

definition EINVAL :: int where "EINVAL = 22"
definition ENOSPC :: int where "ENOSPC = 28"

definition sys_uuidgen :: "uuid_private \<Rightarrow> uuid_env \<Rightarrow> int \<Rightarrow> bool \<Rightarrow> int \<Rightarrow> uuid_private \<times> int \<times> uuid list" where
  "sys_uuidgen uuid_last env count mem copyerr =
     (if count < 1 \<or> 2048 < count then (uuid_last, EINVAL, [])
      else if \<not> mem then (uuid_last, ENOSPC, [])
      else let (lst, store) = kern_uuidgen uuid_last env (nat count)
           in (lst, copyerr, if copyerr = 0 then store else []))"

section \<open>Comparison\<close>

text \<open>
  The assembly \<open>bcmp\<close> compares quadwords, then the bytes that remain, and returns the inverted zero flag
  (\<open>setne\<close>).
\<close>

definition bcmp :: "byte list \<Rightarrow> byte list \<Rightarrow> nat \<Rightarrow> int" where
  "bcmp a b len =
     (let q = 8 * (len div 8)
      in if take q a \<noteq> take q b then 1
         else if take (len mod 8) (drop q a) \<noteq> take (len mod 8) (drop q b) then 1 else 0)"

text \<open>The sixteen bytes of the structure in memory, and the loop over them as four integers.\<close>

definition uuid_image :: "uuid \<Rightarrow> byte list" where
  "uuid_image u =
     [time_low u mod 256, time_low u div 2 ^ 8 mod 256, time_low u div 2 ^ 16 mod 256, time_low u div 2 ^ 24 mod 256,
      time_mid u mod 256, time_mid u div 2 ^ 8 mod 256,
      time_hi_and_version u mod 256, time_hi_and_version u div 2 ^ 8 mod 256,
      clock_seq_hi_and_reserved u, clock_seq_low u] @ node u"

function nil_loop :: "byte list \<Rightarrow> nat \<Rightarrow> bool kres" where
  "nil_loop b i =
     (if 16 \<le> i then Inr True
      else rbind (le32dec b i) (\<lambda>v. if v \<noteq> 0 then Inr False else nil_loop b (i + 4)))"
  by pat_completeness auto
termination
  by (relation "measure (\<lambda>(b, i). 16 - i)") auto

declare nil_loop.simps [simp del]

definition kuuid_is_nil :: "uuid \<Rightarrow> bool kres" where
  "kuuid_is_nil u = nil_loop (uuid_image u) 0"

text \<open>Pointers are addresses into a store of UUIDs, \<open>None\<close> is \<open>NULL\<close>.\<close>

definition kuuid_compare :: "(nat \<Rightarrow> uuid) \<Rightarrow> nat option \<Rightarrow> nat option \<Rightarrow> int kres" where
  "kuuid_compare mem a b =
     (if a = b then Inr 0
      else case a of
        None \<Rightarrow> (case b of None \<Rightarrow> Inr 0
                 | Some q \<Rightarrow> rbind (kuuid_is_nil (mem q)) (\<lambda>n. Inr (if n then 0 else - 1)))
      | Some p \<Rightarrow>
          (case b of
             None \<Rightarrow> rbind (kuuid_is_nil (mem p)) (\<lambda>n. Inr (if n then 0 else 1))
           | Some q \<Rightarrow>
               let u = mem p; v = mem q in
               if time_low u \<noteq> time_low v then Inr (if time_low u < time_low v then - 1 else 1)
               else if time_mid u \<noteq> time_mid v then Inr (if time_mid u < time_mid v then - 1 else 1)
               else if time_hi_and_version u \<noteq> time_hi_and_version v
                 then Inr (if time_hi_and_version u < time_hi_and_version v then - 1 else 1)
               else if clock_seq_hi_and_reserved u \<noteq> clock_seq_hi_and_reserved v
                 then Inr (if clock_seq_hi_and_reserved u < clock_seq_hi_and_reserved v then - 1 else 1)
               else if clock_seq_low u \<noteq> clock_seq_low v
                 then Inr (if clock_seq_low u < clock_seq_low v then - 1 else 1)
               else let res = bcmp (node u) (node v) UUID_NODE_LEN
                    in Inr (if res \<noteq> 0 then (if res < 0 then - 1 else 1) else 0)))"

definition GPT_ENT_TYPE_DRAGONFLY_VINUM :: uuid where
  "GPT_ENT_TYPE_DRAGONFLY_VINUM =
     \<lparr>time_low = 0x9dd4478f, time_mid = 0x1ca5, time_hi_and_version = 0x11dc, clock_seq_hi_and_reserved = 0x88,
      clock_seq_low = 0x17, node = [0x01, 0x30, 0x1b, 0xb8, 0xa9, 0xf5]\<rparr>"

definition GPT_ENT_TYPE_DRAGONFLY_CCD :: uuid where
  "GPT_ENT_TYPE_DRAGONFLY_CCD =
     \<lparr>time_low = 0xdbd5211b, time_mid = 0x1ca5, time_hi_and_version = 0x11dc, clock_seq_hi_and_reserved = 0x88,
      clock_seq_low = 0x17, node = [0x01, 0x30, 0x1b, 0xb8, 0xa9, 0xf5]\<rparr>"

text \<open>The static constant is at an address of its own, given as \<open>c\<close>.\<close>

definition kuuid_is_ccd :: "(nat \<Rightarrow> uuid) \<Rightarrow> nat \<Rightarrow> nat option \<Rightarrow> bool kres" where
  "kuuid_is_ccd mem c p = rbind (kuuid_compare (mem(c := GPT_ENT_TYPE_DRAGONFLY_CCD)) p (Some c)) (\<lambda>r. Inr (r = 0))"

definition kuuid_is_vinum :: "(nat \<Rightarrow> uuid) \<Rightarrow> nat \<Rightarrow> nat option \<Rightarrow> bool kres" where
  "kuuid_is_vinum mem c p = rbind (kuuid_compare (mem(c := GPT_ENT_TYPE_DRAGONFLY_VINUM)) p (Some c)) (\<lambda>r. Inr (r = 0))"

section \<open>Byte streams\<close>

text \<open>The loops over the node address, from index \<open>6 - n\<close> on.\<close>

fun uuid_put_node :: "byte list \<Rightarrow> nat \<Rightarrow> byte list \<Rightarrow> nat \<Rightarrow> byte list kres" where
  "uuid_put_node buf p nd 0 = Inr buf"
| "uuid_put_node buf p nd (Suc n) =
     rbind (rd nd (UUID_NODE_LEN - Suc n)) (\<lambda>c.
     rbind (wr buf (p + 10 + (UUID_NODE_LEN - Suc n)) c) (\<lambda>buf. uuid_put_node buf p nd n))"

fun uuid_get_node :: "byte list \<Rightarrow> nat \<Rightarrow> byte list \<Rightarrow> nat \<Rightarrow> byte list kres" where
  "uuid_get_node buf p nd 0 = Inr nd"
| "uuid_get_node buf p nd (Suc n) =
     rbind (rd buf (p + 10 + (UUID_NODE_LEN - Suc n))) (\<lambda>c.
     rbind (wr nd (UUID_NODE_LEN - Suc n) c) (\<lambda>nd. uuid_get_node buf p nd n))"

definition le_uuid_enc :: "byte list \<Rightarrow> nat \<Rightarrow> uuid \<Rightarrow> byte list kres" where
  "le_uuid_enc buf p u =
     rbind (le32enc buf p (time_low u)) (\<lambda>buf.
     rbind (le16enc buf (p + 4) (time_mid u)) (\<lambda>buf.
     rbind (le16enc buf (p + 6) (time_hi_and_version u)) (\<lambda>buf.
     rbind (wr buf (p + 8) (clock_seq_hi_and_reserved u)) (\<lambda>buf.
     rbind (wr buf (p + 9) (clock_seq_low u)) (\<lambda>buf.
       uuid_put_node buf p (node u) UUID_NODE_LEN)))))"

definition le_uuid_dec :: "byte list \<Rightarrow> nat \<Rightarrow> uuid \<Rightarrow> uuid kres" where
  "le_uuid_dec buf p u =
     rbind (le32dec buf p) (\<lambda>low.
     rbind (le16dec buf (p + 4)) (\<lambda>mid.
     rbind (le16dec buf (p + 6)) (\<lambda>hi.
     rbind (rd buf (p + 8)) (\<lambda>ch.
     rbind (rd buf (p + 9)) (\<lambda>cl.
     rbind (uuid_get_node buf p (node u) UUID_NODE_LEN) (\<lambda>nd.
       Inr \<lparr>time_low = low, time_mid = mid, time_hi_and_version = hi, clock_seq_hi_and_reserved = ch,
            clock_seq_low = cl, node = nd\<rparr>))))))"

definition be_uuid_enc :: "byte list \<Rightarrow> nat \<Rightarrow> uuid \<Rightarrow> byte list kres" where
  "be_uuid_enc buf p u =
     rbind (be32enc buf p (time_low u)) (\<lambda>buf.
     rbind (be16enc buf (p + 4) (time_mid u)) (\<lambda>buf.
     rbind (be16enc buf (p + 6) (time_hi_and_version u)) (\<lambda>buf.
     rbind (wr buf (p + 8) (clock_seq_hi_and_reserved u)) (\<lambda>buf.
     rbind (wr buf (p + 9) (clock_seq_low u)) (\<lambda>buf.
       uuid_put_node buf p (node u) UUID_NODE_LEN)))))"

definition be_uuid_dec :: "byte list \<Rightarrow> nat \<Rightarrow> uuid \<Rightarrow> uuid kres" where
  "be_uuid_dec buf p u =
     rbind (be32dec buf p) (\<lambda>low.
     rbind (le16dec buf (p + 4)) (\<lambda>mid.
     rbind (be16dec buf (p + 6)) (\<lambda>hi.
     rbind (rd buf (p + 8)) (\<lambda>ch.
     rbind (rd buf (p + 9)) (\<lambda>cl.
     rbind (uuid_get_node buf p (node u) UUID_NODE_LEN) (\<lambda>nd.
       Inr \<lparr>time_low = low, time_mid = mid, time_hi_and_version = hi, clock_seq_hi_and_reserved = ch,
            clock_seq_low = cl, node = nd\<rparr>))))))"

section \<open>Text\<close>

text \<open>The words of the structure as \<open>struct uuid_private\<close> reads them; \<open>be16toh\<close> is \<open>bswap16\<close>.\<close>

definition snprintf_uuid :: "byte list \<Rightarrow> nat \<Rightarrow> uuid \<Rightarrow> (byte list \<times> nat) kres" where
  "snprintf_uuid buf sz u =
     (let sq = clock_seq_hi_and_reserved u + 256 * clock_seq_low u;
          nd = (\<lambda>i. node u ! (2 * i) + 256 * node u ! (2 * i + 1))
      in ksnprintf buf sz (Some (map of_char ''%08x-%04x-%04x-%04x-%04x%04x%04x'' @ [0]))
           [VInt (int (time_low u)), VInt (int (time_mid u)), VInt (int (time_hi_and_version u)),
            VInt (int (bswap16 sq)), VInt (int (bswap16 (nd 0))), VInt (int (bswap16 (nd 1))), VInt (int (bswap16 (nd 2)))])"

text \<open>
  The result is the error number and the structure.  \<open>c\<close> is the array of the scanned numbers, read as unsigned;
  a field keeps the low bits of its number.
\<close>

definition sval_uint :: "sval \<Rightarrow> nat" where
  "sval_uint v = (case v of RInt w i \<Rightarrow> nat (i mod 2 ^ 32) | _ \<Rightarrow> 0)"

definition parse_uuid :: "byte list \<Rightarrow> uuid \<Rightarrow> (int \<times> uuid) kres" where
  "parse_uuid str u =
     rbind (rd str 0) (\<lambda>c0.
     if c0 = 0 then
       Inr (0, \<lparr>time_low = 0, time_mid = 0, time_hi_and_version = 0, clock_seq_hi_and_reserved = 0, clock_seq_low = 0,
                node = replicate UUID_NODE_LEN 0\<rparr>)
     else rbind (strlen str 0) (\<lambda>l.
     if l \<noteq> 36 then Inr (EINVAL, u)
     else rbind (rd str 8) (\<lambda>c8.
     if c8 \<noteq> 45 then Inr (EINVAL, u)
     else rbind (ksscanf str (map of_char ''%8x-%4x-%4x-%2x%2x-%2x%2x%2x%2x%2x%2x'' @ [0]) (replicate 11 SObj)) (\<lambda>(n, out).
     if n \<noteq> 11 then Inr (EINVAL, u)
     else let c = map sval_uint out
          in Inr (if c ! 3 AND 0x80 \<noteq> 0 \<and> c ! 3 AND 0xc0 \<noteq> 0x80 \<and> c ! 3 AND 0xe0 \<noteq> 0xc0 then EINVAL else 0,
               \<lparr>time_low = c ! 0, time_mid = c ! 1 mod 2 ^ 16, time_hi_and_version = c ! 2 mod 2 ^ 16,
                clock_seq_hi_and_reserved = c ! 3 mod 256, clock_seq_low = c ! 4 mod 256,
                node = map (\<lambda>i. c ! (i + 5) mod 256) [0..<6]\<rparr>)))))"

end
