(* ===== verification/Uuid_Codec.thy ===== *)
theory Uuid_Codec
  imports Uuid
begin

text \<open>The byte-stream formats of UUIDs, and the round trips through them.\<close>

section \<open>Sixteen bytes in an array\<close>

lemma six: "length (xs :: 'a list) = 6 \<longleftrightarrow> (\<exists>a b c d e f. xs = [a, b, c, d, e, f])"
  by (auto simp: eval_nat_numeral length_Suc_conv)

lemma node_eq: "length nd = 6 \<Longrightarrow> [nd ! 0, nd ! 1, nd ! 2, nd ! 3, nd ! 4, nd ! 5] = nd"
  by (auto simp: six)

lemma put_node:
  assumes "length nd = 6" "p + 16 \<le> length buf"
  shows "uuid_put_node buf p nd UUID_NODE_LEN = Inr (buf[p + 10 := nd ! 0, p + 11 := nd ! 1, p + 12 := nd ! 2,
    p + 13 := nd ! 3, p + 14 := nd ! 4, p + 15 := nd ! 5])"
  using assms by (simp add: UUID_NODE_LEN_def eval_nat_numeral)

lemma get_node:
  assumes "length nd = 6" "p + 16 \<le> length buf"
  shows "uuid_get_node buf p nd UUID_NODE_LEN =
    Inr [buf ! (p + 10), buf ! (p + 11), buf ! (p + 12), buf ! (p + 13), buf ! (p + 14), buf ! (p + 15)]"
  using assms(2) assms(1) [unfolded six] by (auto simp: UUID_NODE_LEN_def eval_nat_numeral)

lemma nth_put_at: "k < length xs \<Longrightarrow> d + length xs \<le> length dst \<Longrightarrow> put_at dst d xs ! (d + k) = xs ! k"
  by (simp add: put_at_def nth_append)

lemma sixteen_updates:
  "p + 16 \<le> length buf \<Longrightarrow>
   buf[p := x0, p + 1 := x1, p + 2 := x2, p + 3 := x3, p + 4 := x4, p + 5 := x5, p + 6 := x6, p + 7 := x7,
       p + 8 := x8, p + 9 := x9, p + 10 := x10, p + 11 := x11, p + 12 := x12, p + 13 := x13, p + 14 := x14, p + 15 := x15] =
   put_at buf p [x0, x1, x2, x3, x4, x5, x6, x7, x8, x9, x10, x11, x12, x13, x14, x15]"
  by (simp add: put_at_Cons eval_nat_numeral)

section \<open>Encoding\<close>

text \<open>The stream of the big-endian format; the little-endian one is the image of the structure in memory.\<close>

definition be_stream :: "uuid \<Rightarrow> byte list" where
  "be_stream u =
     [time_low u div 2 ^ 24 mod 256, time_low u div 2 ^ 16 mod 256, time_low u div 2 ^ 8 mod 256, time_low u mod 256,
      time_mid u div 2 ^ 8 mod 256, time_mid u mod 256,
      time_hi_and_version u div 2 ^ 8 mod 256, time_hi_and_version u mod 256,
      clock_seq_hi_and_reserved u, clock_seq_low u] @ node u"

lemma length_streams [simp]: "length (uuid_image u) = 10 + length (node u)" "length (be_stream u) = 10 + length (node u)"
  by (simp_all add: uuid_image_def be_stream_def)

lemma streams_eq:
  assumes "length (node u) = 6"
  shows "uuid_image u = [time_low u mod 256, time_low u div 2 ^ 8 mod 256, time_low u div 2 ^ 16 mod 256,
      time_low u div 2 ^ 24 mod 256, time_mid u mod 256, time_mid u div 2 ^ 8 mod 256,
      time_hi_and_version u mod 256, time_hi_and_version u div 2 ^ 8 mod 256,
      clock_seq_hi_and_reserved u, clock_seq_low u, node u ! 0, node u ! 1, node u ! 2, node u ! 3, node u ! 4, node u ! 5]"
    and "be_stream u = [time_low u div 2 ^ 24 mod 256, time_low u div 2 ^ 16 mod 256, time_low u div 2 ^ 8 mod 256,
      time_low u mod 256, time_mid u div 2 ^ 8 mod 256, time_mid u mod 256,
      time_hi_and_version u div 2 ^ 8 mod 256, time_hi_and_version u mod 256,
      clock_seq_hi_and_reserved u, clock_seq_low u, node u ! 0, node u ! 1, node u ! 2, node u ! 3, node u ! 4, node u ! 5]"
  using node_eq [OF assms] by (simp_all add: uuid_image_def be_stream_def)

lemma uuid_enc:
  assumes "length (node u) = 6" "p + 16 \<le> length buf"
  shows "le_uuid_enc buf p u = Inr (put_at buf p (uuid_image u))" and "be_uuid_enc buf p u = Inr (put_at buf p (be_stream u))"
  using assms unfolding streams_eq [OF assms(1)]
  by (subst sixteen_updates [symmetric]; simp add: le_uuid_enc_def be_uuid_enc_def enc32 enc16 put_node add.commute)+

section \<open>Decoding\<close>

lemma uuid_dec:
  assumes xs: "length xs = 16" "\<forall>x \<in> set xs. x < 256" and "length (node v) = 6" "p + 16 \<le> length buf"
  defines "nd \<equiv> [xs ! 10, xs ! 11, xs ! 12, xs ! 13, xs ! 14, xs ! 15]"
  shows "le_uuid_dec (put_at buf p xs) p v =
      Inr \<lparr>time_low = ((xs ! 3 * 2 ^ 8 + xs ! 2) * 2 ^ 8 + xs ! 1) * 2 ^ 8 + xs ! 0, time_mid = xs ! 5 * 2 ^ 8 + xs ! 4,
           time_hi_and_version = xs ! 7 * 2 ^ 8 + xs ! 6, clock_seq_hi_and_reserved = xs ! 8, clock_seq_low = xs ! 9, node = nd\<rparr>"
    and "be_uuid_dec (put_at buf p xs) p v =
      Inr \<lparr>time_low = ((xs ! 0 * 2 ^ 8 + xs ! 1) * 2 ^ 8 + xs ! 2) * 2 ^ 8 + xs ! 3, time_mid = xs ! 5 * 2 ^ 8 + xs ! 4,
           time_hi_and_version = xs ! 6 * 2 ^ 8 + xs ! 7, clock_seq_hi_and_reserved = xs ! 8, clock_seq_low = xs ! 9, node = nd\<rparr>"
proof -
  define b where "b = put_at buf p xs"
  have l: "length b = length buf" using assms by (simp add: b_def)
  have n: "b ! (p + k) = xs ! k" if "k < 16" for k
    unfolding b_def using that assms by (intro nth_put_at) simp_all
  have s: "xs ! k < 256" if "k < 16" for k using xs that by simp
  have w: "be32dec b p = Inr (((xs ! 0 * 2 ^ 8 + xs ! 1) * 2 ^ 8 + xs ! 2) * 2 ^ 8 + xs ! 3)"
    "le32dec b p = Inr (((xs ! 3 * 2 ^ 8 + xs ! 2) * 2 ^ 8 + xs ! 1) * 2 ^ 8 + xs ! 0)"
    using dec32 [of p b] n [of 0] n [of 1] n [of 2] n [of 3] s [of 0] s [of 1] s [of 2] s [of 3] assms(4) l by simp_all
  have h: "be16dec b (p + k) = Inr (xs ! k * 2 ^ 8 + xs ! (k + 1))" "le16dec b (p + k) = Inr (xs ! (k + 1) * 2 ^ 8 + xs ! k)"
    if "k + 1 < 16" for k
    using dec16 [of "p + k" b] n [of k] n [of "k + 1"] s [of k] s [of "k + 1"] that assms(4) l by simp_all
  have g: "uuid_get_node b p (node v) UUID_NODE_LEN = Inr nd"
    using assms(3,4) l by (simp add: get_node n nd_def)
  show "le_uuid_dec b p v =
      Inr \<lparr>time_low = ((xs ! 3 * 2 ^ 8 + xs ! 2) * 2 ^ 8 + xs ! 1) * 2 ^ 8 + xs ! 0, time_mid = xs ! 5 * 2 ^ 8 + xs ! 4,
           time_hi_and_version = xs ! 7 * 2 ^ 8 + xs ! 6, clock_seq_hi_and_reserved = xs ! 8, clock_seq_low = xs ! 9, node = nd\<rparr>"
    using h(2) [of 4] h(2) [of 6] assms(4) l by (simp add: le_uuid_dec_def w g n)
  show "be_uuid_dec b p v =
      Inr \<lparr>time_low = ((xs ! 0 * 2 ^ 8 + xs ! 1) * 2 ^ 8 + xs ! 2) * 2 ^ 8 + xs ! 3, time_mid = xs ! 5 * 2 ^ 8 + xs ! 4,
           time_hi_and_version = xs ! 6 * 2 ^ 8 + xs ! 7, clock_seq_hi_and_reserved = xs ! 8, clock_seq_low = xs ! 9, node = nd\<rparr>"
    using h(2) [of 4] h(1) [of 6] assms(4) l by (simp add: be_uuid_dec_def w g n)
qed

lemma uuid_dec_list:
  assumes "\<forall>x \<in> set [x0, x1, x2, x3, x4, x5, x6, x7, x8, x9, x10, x11, x12, x13, x14, x15]. x < 256"
    and "length (node v) = 6" "p + 16 \<le> length buf"
  shows "le_uuid_dec (put_at buf p [x0, x1, x2, x3, x4, x5, x6, x7, x8, x9, x10, x11, x12, x13, x14, x15]) p v =
      Inr \<lparr>time_low = ((x3 * 2 ^ 8 + x2) * 2 ^ 8 + x1) * 2 ^ 8 + x0, time_mid = x5 * 2 ^ 8 + x4,
           time_hi_and_version = x7 * 2 ^ 8 + x6, clock_seq_hi_and_reserved = x8, clock_seq_low = x9,
           node = [x10, x11, x12, x13, x14, x15]\<rparr>"
    and "be_uuid_dec (put_at buf p [x0, x1, x2, x3, x4, x5, x6, x7, x8, x9, x10, x11, x12, x13, x14, x15]) p v =
      Inr \<lparr>time_low = ((x0 * 2 ^ 8 + x1) * 2 ^ 8 + x2) * 2 ^ 8 + x3, time_mid = x5 * 2 ^ 8 + x4,
           time_hi_and_version = x6 * 2 ^ 8 + x7, clock_seq_hi_and_reserved = x8, clock_seq_low = x9,
           node = [x10, x11, x12, x13, x14, x15]\<rparr>"
  using uuid_dec [OF _ assms] by simp_all

lemma uuid_roundtrips:
  assumes "uuid_ok u" "length (node v) = UUID_NODE_LEN" "p + 16 \<le> length buf"
  shows "rbind (le_uuid_enc buf p u) (\<lambda>b. le_uuid_dec b p v) = Inr u"
    and "rbind (be_uuid_enc buf p u) (\<lambda>b. be_uuid_dec b p v) = Inr (u\<lparr>time_mid := bswap16 (time_mid u)\<rparr>)"
proof -
  have l: "length (node u) = 6" "length (node v) = 6" using assms by (simp_all add: uuid_ok_def UUID_NODE_LEN_def)
  have j: "time_low u < 2 ^ 32" "time_mid u < 2 ^ 16" "time_hi_and_version u < 2 ^ 16" using assms(1) by (simp_all add: uuid_ok_def)
  have "\<forall>x \<in> set (uuid_image u). x < 256" "\<forall>x \<in> set (be_stream u). x < 256"
    using assms(1) by (auto simp: uuid_ok_def uuid_image_def be_stream_def list_all_iff)
  note b = this [unfolded streams_eq [OF l(1)]]
  have h: "x div 2 ^ 8 mod 256 * 2 ^ 8 + x mod 256 = x" "x mod 256 * 2 ^ 8 + x div 2 ^ 8 mod 256 = bswap16 x"
    if "x < 2 ^ 16" for x :: nat using that by (simp_all add: bswap16_def)
  note e = join4 [OF j(1)] h [OF j(2)] h [OF j(3)] node_eq [OF l(1)]
  show "rbind (le_uuid_enc buf p u) (\<lambda>b. le_uuid_dec b p v) = Inr u"
    unfolding uuid_enc(1) [OF l(1) assms(3)] rbind_Inr streams_eq [OF l(1)] uuid_dec_list(1) [OF b(1) l(2) assms(3)]
    unfolding e by simp
  show "rbind (be_uuid_enc buf p u) (\<lambda>b. be_uuid_dec b p v) = Inr (u\<lparr>time_mid := bswap16 (time_mid u)\<rparr>)"
    unfolding uuid_enc(2) [OF l(1) assms(3)] rbind_Inr streams_eq [OF l(1)] uuid_dec_list(2) [OF b(2) l(2) assms(3)]
    unfolding e by simp
qed

end
