(* ===== verification/Uuid_Spec.thy ===== *)
theory Uuid_Spec
  imports Uuid_Codec "HOL-Library.Product_Lexorder"
begin

text \<open>What the comparison and the generator of UUIDs compute.\<close>

unbundle bit_operations_syntax

section \<open>Comparison\<close>

lemma bcmp_6: "length a = 6 \<Longrightarrow> length b = 6 \<Longrightarrow> bcmp a b UUID_NODE_LEN = of_bool (a \<noteq> b)"
  by (simp add: bcmp_def UUID_NODE_LEN_def)

definition nil_uuid :: uuid where
  "nil_uuid = \<lparr>time_low = 0, time_mid = 0, time_hi_and_version = 0, clock_seq_hi_and_reserved = 0, clock_seq_low = 0,
     node = replicate UUID_NODE_LEN 0\<rparr>"

lemma byte_div: "x mod 256 = 0 \<and> x div 2 ^ 8 mod 256 = 0 \<longleftrightarrow> x = 0" if "x < 2 ^ 16" for x :: nat
  using that by auto

lemma word_div: "x mod 256 = 0 \<and> x div 2 ^ 8 mod 256 = 0 \<and> x div 2 ^ 16 mod 256 = 0 \<and> x div 2 ^ 24 mod 256 = 0 \<longleftrightarrow> x = 0"
  if "x < 2 ^ 32" for x :: nat
  using join4 [OF that] by (metis add_0 add_cancel_right_right div_0 mod_0 mult_0)

lemma nil_loop_bytes:
  assumes "length b = 16" "\<forall>x \<in> set b. x < 256"
  shows "nil_loop b 0 = Inr (\<forall>x \<in> set b. x = 0)"
proof -
  define w where "w p = ((b ! (p + 3) * 2 ^ 8 + b ! (p + 2)) * 2 ^ 8 + b ! (p + 1)) * 2 ^ 8 + b ! p" for p
  have e: "le32dec b p = Inr (w p)" if "p + 3 < 16" for p
    unfolding w_def using that assms by (intro dec32(2)) (simp_all add: all_set_conv_all_nth)
  have z: "w p = 0 \<longleftrightarrow> b ! p = 0 \<and> b ! (p + 1) = 0 \<and> b ! (p + 2) = 0 \<and> b ! (p + 3) = 0" for p
    by (auto simp: w_def)
  have s: "nil_loop b p = (if w p \<noteq> 0 then Inr False else nil_loop b (p + 4))" if "p + 3 < 16" for p
    using that by (subst nil_loop.simps) (simp add: e)
  have e16: "nil_loop b 16 = Inr True" by (subst nil_loop.simps) simp
  have r: "nil_loop b 0 = Inr (w 0 = 0 \<and> w 4 = 0 \<and> w 8 = 0 \<and> w 12 = 0)"
    using s [of 0] s [of 4] s [of 8] s [of 12] e16 by simp
  have "b = map (\<lambda>i. b ! i) [0..<16]" using map_nth [of b] assms(1) by simp
  also have "\<dots> = [b ! 0, b ! 1, b ! 2, b ! 3, b ! 4, b ! 5, b ! 6, b ! 7, b ! 8, b ! 9, b ! 10, b ! 11, b ! 12,
      b ! 13, b ! 14, b ! 15]" by (simp add: upt_rec eval_nat_numeral)
  finally have "set b = {b ! 0, b ! 1, b ! 2, b ! 3, b ! 4, b ! 5, b ! 6, b ! 7, b ! 8, b ! 9, b ! 10, b ! 11, b ! 12,
      b ! 13, b ! 14, b ! 15}" by (metis list.set(1,2))
  then have "(\<forall>x \<in> set b. x = 0) \<longleftrightarrow> w 0 = 0 \<and> w 4 = 0 \<and> w 8 = 0 \<and> w 12 = 0"
    unfolding z by (simp add: numeral_2_eq_2)
  with r show ?thesis by simp
qed

lemma kuuid_is_nil_spec: "uuid_ok u \<Longrightarrow> kuuid_is_nil u = Inr (u = nil_uuid)"
proof -
  assume u: "uuid_ok u"
  then have l: "length (node u) = 6" by (simp add: uuid_ok_def UUID_NODE_LEN_def)
  have "\<forall>x \<in> set (uuid_image u). x < 256" using u by (auto simp: uuid_ok_def uuid_image_def list_all_iff)
  then have "kuuid_is_nil u = Inr (\<forall>x \<in> set (uuid_image u). x = 0)"
    using l by (simp add: kuuid_is_nil_def nil_loop_bytes)
  moreover have "(\<forall>x \<in> set (node u). x = 0) \<longleftrightarrow> node u = replicate 6 0" using l by (auto simp: replicate_eqI)
  moreover have "time_low u < 2 ^ 32" "time_mid u < 2 ^ 16" "time_hi_and_version u < 2 ^ 16" using u by (simp_all add: uuid_ok_def)
  note n = word_div [OF this(1)] byte_div [OF this(2)] byte_div [OF this(3)]
  have "(\<forall>x \<in> set (uuid_image u). x = 0) \<longleftrightarrow>
      (time_low u mod 256 = 0 \<and> time_low u div 2 ^ 8 mod 256 = 0 \<and> time_low u div 2 ^ 16 mod 256 = 0 \<and> time_low u div 2 ^ 24 mod 256 = 0) \<and>
      (time_mid u mod 256 = 0 \<and> time_mid u div 2 ^ 8 mod 256 = 0) \<and>
      (time_hi_and_version u mod 256 = 0 \<and> time_hi_and_version u div 2 ^ 8 mod 256 = 0) \<and>
      clock_seq_hi_and_reserved u = 0 \<and> clock_seq_low u = 0 \<and> (\<forall>x \<in> set (node u). x = 0)"
    unfolding uuid_image_def by (simp only: set_append list.set ball_Un ball_simps conj_assoc HOL.simp_thms)
  ultimately show ?thesis
    unfolding n by (cases u) (auto simp: nil_uuid_def UUID_NODE_LEN_def)
qed

text \<open>The fields before the node address, in the order of their significance.\<close>

definition uuid_fields :: "uuid \<Rightarrow> nat \<times> nat \<times> nat \<times> nat \<times> nat" where
  "uuid_fields u = (time_low u, time_mid u, time_hi_and_version u, clock_seq_hi_and_reserved u, clock_seq_low u)"

lemma uuid_eq: "u = v \<longleftrightarrow> uuid_fields u = uuid_fields v \<and> node u = node v" for u v :: uuid
  by (cases u; cases v) (auto simp: uuid_fields_def)

lemma compare_uuids:
  assumes "uuid_ok (mem p)" "uuid_ok (mem q)"
  shows "kuuid_compare mem (Some p) (Some q) = Inr (if uuid_fields (mem p) < uuid_fields (mem q) then - 1
    else if uuid_fields (mem q) < uuid_fields (mem p) then 1 else of_bool (mem p \<noteq> mem q))"
proof (cases "p = q")
  case False
  have "length (node (mem p)) = 6" "length (node (mem q)) = 6" using assms by (simp_all add: uuid_ok_def UUID_NODE_LEN_def)
  then show ?thesis
    unfolding kuuid_compare_def uuid_eq using False by (auto simp: Let_def bcmp_6 uuid_fields_def)
qed (simp add: kuuid_compare_def)

lemma compare_nil:
  assumes "uuid_ok (mem p)"
  shows "kuuid_compare mem None (Some p) = Inr (if mem p = nil_uuid then 0 else - 1)"
    and "kuuid_compare mem (Some p) None = Inr (if mem p = nil_uuid then 0 else 1)"
    and "kuuid_compare mem None None = Inr 0"
  using kuuid_is_nil_spec [OF assms] by (simp_all add: kuuid_compare_def)

end
