(* ===== verification/Uuid_Gen.thy ===== *)
theory Uuid_Gen
  imports Uuid
begin

text \<open>
  The generator never repeats itself: over a run of calls since boot that all see the same node address, the pairs
  of sequence number and time are all different.  The sequence number moves exactly when the clock has not passed
  the last time handed out, and it comes back only after \<open>2 ^ 14\<close> such steps.
\<close>

unbundle bit_operations_syntax

section \<open>What one UUID carries\<close>

definition uuid_key :: "uuid \<Rightarrow> nat \<times> nat" where
  "uuid_key u = (clock_seq_hi_and_reserved u * 256 + clock_seq_low u,
     time_low u + 2 ^ 32 * time_mid u + 2 ^ 48 * (time_hi_and_version u mod 2 ^ 12))"

text \<open>Version 1, the variant of the draft, and fields in their range.\<close>

definition uuid_v1 :: "uuid \<Rightarrow> bool" where
  "uuid_v1 u \<longleftrightarrow> uuid_ok u \<and> time_hi_and_version u div 2 ^ 12 = 1 \<and> clock_seq_hi_and_reserved u div 2 ^ 6 = 2"

lemma and_low_bits: "u AND 0xfff = u mod 2 ^ 12" "u AND 0x3fff = u mod 2 ^ 14" "u AND (2 ^ 60 - 1) = u mod 2 ^ 60" for u :: nat
proof -
  have m: "(0xfff :: nat) = mask 12" "(0x3fff :: nat) = mask 14" "2 ^ 60 - 1 = (mask 60 :: nat)"
    by (simp_all add: mask_eq_exp_minus_1)
  show "u AND 0xfff = u mod 2 ^ 12" "u AND 0x3fff = u mod 2 ^ 14" "u AND (2 ^ 60 - 1) = u mod 2 ^ 60"
    unfolding m take_bit_eq_mask [symmetric] by (simp_all only: take_bit_eq_mod)
qed

lemma or_high:
  fixes b :: nat
  shows "b < 2 ^ 12 \<Longrightarrow> b OR push_bit 12 1 = 2 ^ 12 + b" and "b < 2 ^ 15 \<Longrightarrow> b OR 0x8000 = 2 ^ 15 + b"
proof -
  have p: "(0x8000 :: nat) = push_bit 15 1" by simp
  show "b < 2 ^ 12 \<Longrightarrow> b OR push_bit 12 1 = 2 ^ 12 + b" using or_digits [of b 12 1] by (simp add: or.commute)
  show "b < 2 ^ 15 \<Longrightarrow> b OR 0x8000 = 2 ^ 15 + b" unfolding p using or_digits [of b 15 1] by (simp only: or.commute mult_1)
qed

definition stamp :: "nat \<Rightarrow> nat list \<Rightarrow> nat \<Rightarrow> uuid" where
  "stamp sq nd t = uuid_cast (t mod 2 ^ 32) (drop_bit 32 t mod 2 ^ 16)
     ((drop_bit 48 t mod 2 ^ 16 AND 0xfff) OR push_bit 12 1) (bswap16 (sq OR 0x8000)) nd"

lemma stamp_fields:
  assumes "t < 2 ^ 60" "sq < 2 ^ 14"
  shows "time_low (stamp sq nd t) = t mod 2 ^ 32" "time_mid (stamp sq nd t) = t div 2 ^ 32 mod 2 ^ 16"
    "time_hi_and_version (stamp sq nd t) = 2 ^ 12 + t div 2 ^ 48"
    "clock_seq_hi_and_reserved (stamp sq nd t) = 128 + sq div 256" "clock_seq_low (stamp sq nd t) = sq mod 256"
    "node (stamp sq nd t) = concat (map (\<lambda>w. [w mod 256, w div 256]) nd)"
proof -
  have a: "drop_bit 48 t mod 2 ^ 16 AND 0xfff = t div 2 ^ 48" using assms(1) by (simp add: and_low_bits(1) drop_bit_eq_div)
  have b: "t div 2 ^ 48 < 2 ^ 12" using assms(1) by (simp add: div_less_iff_less_mult)
  have s: "sq OR 0x8000 = 2 ^ 15 + sq" using or_high(2) [of sq] assms(2) by simp
  have w: "bswap16 (2 ^ 15 + sq) = sq mod 256 * 256 + (128 + sq div 256)"
    by (simp add: bswap16_def mod_add_left_eq [symmetric, of "32768"])
  have d: "128 + sq div 256 < 256" using assms(2) by (simp add: div_less_iff_less_mult)
  have "clock_seq_hi_and_reserved (stamp sq nd t) = bswap16 (2 ^ 15 + sq) mod 256"
    "clock_seq_low (stamp sq nd t) = bswap16 (2 ^ 15 + sq) div 256" by (simp_all add: stamp_def uuid_cast_def s)
  moreover have "(sq mod 256 * 256 + (128 + sq div 256)) mod 256 = 128 + sq div 256" using d by (simp only: mod_mult_self3 mod_less)
  moreover have "(sq mod 256 * 256 + (128 + sq div 256)) div 256 = sq mod 256" using d by (simp only: div_mult_self3 div_less)
  ultimately show "clock_seq_hi_and_reserved (stamp sq nd t) = 128 + sq div 256" "clock_seq_low (stamp sq nd t) = sq mod 256"
    unfolding w by (simp_all only:)
  show "time_hi_and_version (stamp sq nd t) = 2 ^ 12 + t div 2 ^ 48"
    unfolding stamp_def uuid_cast_def a or_high(1) [OF b] by simp
qed (simp_all add: stamp_def uuid_cast_def drop_bit_eq_div)

lemma stamp_key: "t < 2 ^ 60 \<Longrightarrow> sq < 2 ^ 14 \<Longrightarrow> uuid_key (stamp sq nd t) = (2 ^ 15 + sq, t)"
proof -
  assume a: "t < 2 ^ 60" "sq < 2 ^ 14"
  have b: "t div 2 ^ 48 < 2 ^ 12" using a(1) by (simp add: div_less_iff_less_mult)
  have "t div 2 ^ 48 = t div 2 ^ 32 div 2 ^ 16" by (simp add: div_mult2_eq)
  then have "t div 2 ^ 32 = t div 2 ^ 32 mod 2 ^ 16 + 2 ^ 16 * (t div 2 ^ 48)" by simp
  then have "t = t mod 2 ^ 32 + 2 ^ 32 * (t div 2 ^ 32 mod 2 ^ 16 + 2 ^ 16 * (t div 2 ^ 48))"
    using mod_mult_div_eq [of t "2 ^ 32"] by (metis add.commute)
  then have "t mod 2 ^ 32 + 2 ^ 32 * (t div 2 ^ 32 mod 2 ^ 16) + 2 ^ 48 * (t div 2 ^ 48) = t" by (simp add: algebra_simps)
  moreover have "(2 ^ 12 + t div 2 ^ 48) mod 2 ^ 12 = t div 2 ^ 48" using b by (simp only: mod_add_self1 mod_less)
  moreover have "(128 + sq div 256) * 256 + sq mod 256 = 2 ^ 15 + sq" by simp
  ultimately show ?thesis unfolding uuid_key_def stamp_fields [OF a] by (simp only:)
qed

definition node_words :: "nat list \<Rightarrow> bool" where
  "node_words nd \<longleftrightarrow> length nd = 3 \<and> (\<forall>w \<in> set nd. w < 2 ^ 16)"

lemma stamp_v1: "t < 2 ^ 60 \<Longrightarrow> sq < 2 ^ 14 \<Longrightarrow> node_words nd \<Longrightarrow> uuid_v1 (stamp sq nd t)"
proof -
  assume a: "t < 2 ^ 60" "sq < 2 ^ 14" and "node_words nd"
  then obtain x y z where n: "nd = [x, y, z]" "x < 2 ^ 16" "y < 2 ^ 16" "z < 2 ^ 16"
    unfolding node_words_def numeral_3_eq_3 length_Suc_conv by auto
  have b: "t div 2 ^ 48 < 2 ^ 12" using a(1) by (simp add: div_less_iff_less_mult)
  have d: "sq div 256 < 64" using a(2) by (simp add: div_less_iff_less_mult)
  have "(128 + sq div 256) div 2 ^ 6 = 2" using d by simp
  moreover have "(2 ^ 12 + t div 2 ^ 48) div 2 ^ 12 = 1" using b by simp
  moreover have "length (concat (map (\<lambda>w. [w mod 256, w div 256]) nd)) = UUID_NODE_LEN" by (simp add: n(1) UUID_NODE_LEN_def)
  moreover have "list_all (\<lambda>b. b < 256) (concat (map (\<lambda>w. [w mod 256, w div 256]) nd))"
    using n by (simp add: div_less_iff_less_mult)
  moreover have "2 ^ 12 + t div 2 ^ 48 < 2 ^ 16" "128 + sq div 256 < 256" using b d by simp_all
  ultimately show ?thesis unfolding uuid_v1_def uuid_ok_def stamp_fields [OF a] by simp
qed

section \<open>One call\<close>

lemma uuidgen_loop_stamps: "t + n \<le> 2 ^ 60 \<Longrightarrow> uuidgen_loop (bswap16 (sq OR 0x8000)) nd t n = map (stamp sq nd) [t..<t + n]"
proof (induction n arbitrary: t)
  case (Suc n)
  have "(t + 1) mod 2 ^ 64 = t + 1" using Suc.prems by simp
  with Suc show ?case by (simp add: stamp_def upt_rec [of t])
qed simp

definition uuid_boot :: uuid_private where
  "uuid_boot = \<lparr>time_ll = 0, seq = 0, pnode = [0, 0, 0]\<rparr>"

fun uuidgen_run :: "uuid_private \<Rightarrow> (uuid_env \<times> nat) list \<Rightarrow> uuid_private \<times> uuid list" where
  "uuidgen_run uuid_last [] = (uuid_last, [])"
| "uuidgen_run uuid_last ((env, n) # cs) =
     (let (lst, us) = kern_uuidgen uuid_last env n; (lst, vs) = uuidgen_run lst cs in (lst, us @ vs))"

text \<open>A call that the argument covers: it sees the node \<open>nd\<close>, asks for some UUIDs, and its times do not wrap.\<close>

definition call_ok :: "nat list \<Rightarrow> uuid_env \<times> nat \<Rightarrow> bool" where
  "call_ok nd c \<longleftrightarrow> uuid_node (env_mac (fst c)) (env_random (fst c)) = nd \<and> 0 < snd c \<and>
     0 < uuid_time (env_clock (fst c)) \<and> uuid_time (env_clock (fst c)) + snd c \<le> 2 ^ 60"

text \<open>
  The state after \<open>k\<close> calls and the keys \<open>K\<close> handed out: \<open>S\<close> is the sequence number counted without
  reduction, and a key carries the count \<open>e\<close> at its time.
\<close>

definition gen_inv :: "nat list \<Rightarrow> nat \<Rightarrow> uuid_private \<Rightarrow> (nat \<times> nat) set \<Rightarrow> bool" where
  "gen_inv nd k l K \<longleftrightarrow> 0 < time_ll l \<and> pnode l = nd \<and> seq l < 2 ^ 14 \<and>
     (\<exists>S. S mod 2 ^ 14 = seq l \<and>
        (\<forall>(s, t) \<in> K. \<exists>e \<le> S. s = 2 ^ 15 + e mod 2 ^ 14 \<and> S - e < k \<and> (e = S \<longrightarrow> t \<le> time_ll l)))"

definition next_seq :: "uuid_private \<Rightarrow> uuid_env \<Rightarrow> nat" where
  "next_seq l env = (if uuid_time (env_clock env) \<le> time_ll l then (seq l + 1) mod 2 ^ 14 else seq l)"

lemma gen_call_seq:
  fixes l :: uuid_private
  assumes "call_ok nd (env, n)"
  defines "sq \<equiv> (if time_ll l = 0 \<or> pnode l ! 0 \<noteq> nd ! 0 \<or> pnode l ! 1 \<noteq> nd ! 1 \<or> pnode l ! 2 \<noteq> nd ! 2
    then env_seq env mod 2 ^ 14 else next_seq l env)"
  shows "kern_uuidgen l env n =
    (\<lparr>time_ll = uuid_time (env_clock env) + n - 1, seq = sq, pnode = nd\<rparr>,
     map (stamp sq nd) [uuid_time (env_clock env)..<uuid_time (env_clock env) + n])"
proof -
  let ?t = "uuid_time (env_clock env)"
  have t: "0 < ?t" "0 < n" "?t + n \<le> 2 ^ 60" "uuid_node (env_mac env) (env_random env) = nd" using assms(1) by (simp_all add: call_ok_def)
  have "int ?t + int n - 1 = int (?t + n - 1)" using t by simp
  moreover have "int (?t + n - 1) mod 2 ^ 64 = int (?t + n - 1)" using t by simp
  ultimately have "nat ((int ?t + int n - 1) mod 2 ^ 64) AND (2 ^ 60 - 1) = ?t + n - 1"
    using t unfolding and_low_bits(3) by simp
  then show ?thesis
    using t(4) unfolding kern_uuidgen_def Let_def uuidgen_loop_stamps [OF t(3)] sq_def next_seq_def and_low_bits(2) by simp
qed

lemma gen_call:
  assumes "call_ok nd (env, n)" "pnode l = nd" "0 < time_ll l"
  shows "kern_uuidgen l env n =
    (\<lparr>time_ll = uuid_time (env_clock env) + n - 1, seq = next_seq l env, pnode = nd\<rparr>,
     map (stamp (next_seq l env) nd) [uuid_time (env_clock env)..<uuid_time (env_clock env) + n])"
  using gen_call_seq [OF assms(1), of l] assms(2,3) by simp

lemma gen_step:
  assumes i: "gen_inv nd k l K" and c: "call_ok nd (env, n)" and k: "k < 2 ^ 14"
  defines "t \<equiv> uuid_time (env_clock env)"
  defines "new \<equiv> (\<lambda>t. (2 ^ 15 + next_seq l env, t)) ` {t..<t + n}"
  shows "gen_inv nd (Suc k) (fst (kern_uuidgen l env n)) (K \<union> new)" and "K \<inter> new = {}"
proof -
  from i obtain S where S: "S mod 2 ^ 14 = seq l" and
    K: "\<forall>(s, t) \<in> K. \<exists>e \<le> S. s = 2 ^ 15 + e mod 2 ^ 14 \<and> S - e < k \<and> (e = S \<longrightarrow> t \<le> time_ll l)"
    unfolding gen_inv_def by blast
  have l: "0 < time_ll l" "pnode l = nd" using i by (simp_all add: gen_inv_def)
  define S' where "S' = (if t \<le> time_ll l then S + 1 else S)"
  have S': "S' mod 2 ^ 14 = next_seq l env" 
  proof -
    have "(S + 1) mod 2 ^ 14 = (seq l + 1) mod 2 ^ 14" using S mod_add_left_eq [of S "2 ^ 14" 1] by (simp only:)
    then show ?thesis using S unfolding S'_def next_seq_def t_def by (simp only: split: if_split) simp
  qed
  have n: "0 < n" "0 < t" using c by (simp_all add: call_ok_def t_def)
  have old: "\<exists>e \<le> S'. s = 2 ^ 15 + e mod 2 ^ 14 \<and> S' - e \<le> k \<and> (e = S' \<longrightarrow> r < t)" if st: "(s, r) \<in> K" for s r
  proof -
    obtain e where e: "e \<le> S" "s = 2 ^ 15 + e mod 2 ^ 14" "S - e < k" "e = S \<longrightarrow> r \<le> time_ll l" using bspec [OF K st, unfolded prod.case] by blast
    then show ?thesis by (intro exI [of _ e]) (auto simp: S'_def)
  qed
  show "K \<inter> new = {}"
  proof (rule ccontr)
    assume "K \<inter> new \<noteq> {}"
    then obtain r where r: "(2 ^ 15 + next_seq l env, r) \<in> K" "t \<le> r" by (auto simp: new_def)
    obtain e where e: "e \<le> S'" "e mod 2 ^ 14 = S' mod 2 ^ 14" "S' - e \<le> k" "e = S' \<longrightarrow> r < t"
      using old [OF r(1)] unfolding S' by auto
    have "(S' - e) mod 2 ^ 14 = 0" using mod_eq_dvd_iff_nat [OF e(1), of "2 ^ 14"] e(2) by (simp add: mod_eq_0_iff_dvd)
    moreover have "S' - e < 2 ^ 14" using e(3) k by simp
    ultimately have "S' - e = 0" by simp
    then show False using e r(2) by simp
  qed
  have keys: "\<exists>e \<le> S'. s = 2 ^ 15 + e mod 2 ^ 14 \<and> S' - e < Suc k \<and> (e = S' \<longrightarrow> r \<le> t + n - 1)" if "(s, r) \<in> K \<union> new" for s r
  proof (cases "(s, r) \<in> K")
    case True
    then obtain e where "e \<le> S'" "s = 2 ^ 15 + e mod 2 ^ 14" "S' - e \<le> k" "e = S' \<longrightarrow> r < t" using old by blast
    then show ?thesis by (intro exI [of _ e]) auto
  next
    case False
    then have "s = 2 ^ 15 + S' mod 2 ^ 14" "r < t + n" using that unfolding S' by (auto simp: new_def)
    then show ?thesis by (intro exI [of _ S']) auto
  qed
  have "fst (kern_uuidgen l env n) = \<lparr>time_ll = t + n - 1, seq = next_seq l env, pnode = nd\<rparr>"
    unfolding gen_call [OF c l(2,1)] t_def by simp
  moreover have "next_seq l env < 2 ^ 14" unfolding S' [symmetric] by simp
  moreover have "\<forall>(s, r) \<in> K \<union> new. \<exists>e \<le> S'. s = 2 ^ 15 + e mod 2 ^ 14 \<and> S' - e < Suc k \<and> (e = S' \<longrightarrow> r \<le> t + n - 1)"
  proof
    fix x assume "x \<in> K \<union> new"
    then show "case x of (s, r) \<Rightarrow> \<exists>e \<le> S'. s = 2 ^ 15 + e mod 2 ^ 14 \<and> S' - e < Suc k \<and> (e = S' \<longrightarrow> r \<le> t + n - 1)"
      using keys [of "fst x" "snd x"] by (simp only: prod.collapse case_prod_beta)
  qed
  ultimately show "gen_inv nd (Suc k) (fst (kern_uuidgen l env n)) (K \<union> new)"
    unfolding gen_inv_def using S' n by (simp only: uuid_private.select_convs) auto
qed

section \<open>Runs\<close>

lemma run_fresh:
  assumes "gen_inv nd k l K" "\<forall>c \<in> set cs. call_ok nd c" "k + length cs \<le> 2 ^ 14" "node_words nd"
  shows "distinct (map uuid_key (snd (uuidgen_run l cs))) \<and> uuid_key ` set (snd (uuidgen_run l cs)) \<inter> K = {} \<and>
    list_all uuid_v1 (snd (uuidgen_run l cs))"
  using assms(1-3)
proof (induction cs arbitrary: k l K)
  case (Cons c cs)
  obtain env n where c: "c = (env, n)" by fastforce
  define t where "t = uuid_time (env_clock env)"
  define new where "new = (\<lambda>t. (2 ^ 15 + next_seq l env, t)) ` {t..<t + n}"
  obtain l' us where g: "kern_uuidgen l env n = (l', us)" by fastforce
  obtain l'' vs where r: "uuidgen_run l' cs = (l'', vs)" by fastforce
  have co: "call_ok nd (env, n)" and lt: "pnode l = nd" "0 < time_ll l" "seq l < 2 ^ 14"
    using Cons.prems c by (simp_all add: gen_inv_def)
  have tn: "t + n \<le> 2 ^ 60" using co by (simp add: call_ok_def t_def)
  have sq: "next_seq l env < 2 ^ 14" using lt(3) by (simp add: next_seq_def)
  have us: "us = map (stamp (next_seq l env) nd) [t..<t + n]" using gen_call [OF co lt(1,2)] g by (simp add: t_def)
  have keys: "map uuid_key us = map (\<lambda>t. (2 ^ 15 + next_seq l env, t)) [t..<t + n]"
    unfolding us using tn sq by (auto simp: stamp_key)
  have v1: "list_all uuid_v1 us" unfolding us using tn sq assms(4) by (auto simp: list_all_iff intro!: stamp_v1)
  have "k < 2 ^ 14" using Cons.prems(3) by simp
  note step = gen_step [OF Cons.prems(1) co this, folded t_def new_def, unfolded g fst_conv]
  have IH: "distinct (map uuid_key vs) \<and> uuid_key ` set vs \<inter> (K \<union> new) = {} \<and> list_all uuid_v1 vs"
    using Cons.IH [OF step(1)] Cons.prems r by (simp add: new_def)
  have new: "uuid_key ` set us = new" using arg_cong [OF keys, of set] by (simp add: new_def)
  have "distinct (map uuid_key us)" unfolding keys by (simp add: distinct_map inj_on_def)
  moreover have "K \<inter> uuid_key ` set us = {}" using step(2) new by (simp add: new_def)
  moreover have "snd (uuidgen_run l (c # cs)) = us @ vs" by (simp add: c g r)
  ultimately show ?case
    using IH v1 unfolding new [symmetric] by (simp add: image_Un) blast
qed simp

lemma map_key_stamp: "t + n \<le> 2 ^ 60 \<Longrightarrow> sq < 2 ^ 14 \<Longrightarrow> map uuid_key (map (stamp sq nd) [t..<t + n]) = map (Pair (2 ^ 15 + sq)) [t..<t + n]"
  by (auto simp: stamp_key)

lemma boot_fresh:
  assumes "\<forall>c \<in> set cs. call_ok nd c" "length cs \<le> 2 ^ 14" "node_words nd"
  shows "distinct (map uuid_key (snd (uuidgen_run uuid_boot cs))) \<and> list_all uuid_v1 (snd (uuidgen_run uuid_boot cs))"
proof (cases cs)
  case (Cons c cs')
  obtain env n where c: "c = (env, n)" by fastforce
  define t where "t = uuid_time (env_clock env)"
  define sq where "sq = env_seq env mod 2 ^ 14"
  have co: "call_ok nd (env, n)" and cs': "\<forall>c \<in> set cs'. call_ok nd c" using assms(1) Cons c by simp_all
  have t: "0 < t" "0 < n" "t + n \<le> 2 ^ 60" using co by (simp_all add: call_ok_def t_def)
  have sq: "sq < 2 ^ 14" by (simp add: sq_def)
  have g: "kern_uuidgen uuid_boot env n =
      (\<lparr>time_ll = t + n - 1, seq = sq, pnode = nd\<rparr>, map (stamp sq nd) [t..<t + n])"
    using gen_call_seq [OF co, of uuid_boot] by (simp add: t_def sq_def uuid_boot_def)
  have "gen_inv nd 1 \<lparr>time_ll = t + n - 1, seq = sq, pnode = nd\<rparr> (Pair (2 ^ 15 + sq) ` {t..<t + n})"
    unfolding gen_inv_def using t sq by (auto intro!: exI [of _ sq])
  note run = run_fresh [OF this cs' _ assms(3)]
  define vs where "vs = snd (uuidgen_run \<lparr>time_ll = t + n - 1, seq = sq, pnode = nd\<rparr> cs')"
  have vs: "distinct (map uuid_key vs)" "uuid_key ` set vs \<inter> Pair (2 ^ 15 + sq) ` {t..<t + n} = {}" "list_all uuid_v1 vs"
    using run assms(2) Cons unfolding vs_def by simp_all
  have e: "snd (uuidgen_run uuid_boot cs) = map (stamp sq nd) [t..<t + n] @ vs"
    by (simp add: Cons c g vs_def split: prod.split)
  have "list_all uuid_v1 (map (stamp sq nd) [t..<t + n])"
    using t(3) sq assms(3) by (auto simp: list_all_iff intro!: stamp_v1)
  moreover have "distinct (map (Pair (2 ^ 15 + sq)) [t..<t + n])" by (simp add: distinct_map inj_on_def)
  ultimately show ?thesis
    unfolding e map_append [of uuid_key] distinct_append map_key_stamp [OF t(3) sq] list_all_append set_map set_upt
    using vs by (simp only: Int_commute)
qed simp

lemma uuid_node_words:
  assumes "\<forall>m. mac = Some m \<longrightarrow> length m = 6 \<and> (\<forall>b \<in> set m. b < 256)" "length rnd = 6" "\<forall>b \<in> set rnd. b < 256"
  shows "node_words (uuid_node mac rnd)"
proof -
  define m where "m = (case mac of Some m \<Rightarrow> m | None \<Rightarrow> rnd)"
  have m: "length m = 6" "\<forall>b \<in> set m. b < 2 ^ 8" using assms by (auto simp: m_def split: option.split)
  then have "m ! 0 < 2 ^ 8" by (auto simp: all_set_conv_all_nth)
  moreover have "even x \<Longrightarrow> x < 2 ^ 8 \<Longrightarrow> x + 1 < 2 ^ 8" for x :: nat by (auto elim!: evenE)
  ultimately have "m ! 0 OR 1 < 2 ^ 8" unfolding or_one_eq by (cases "even (m ! 0)") simp_all
  then have b: "m[0 := m ! 0 OR 1] ! i < 256" if "i < 6" for i using m that by (cases "i = 0") auto
  have "m[0 := m ! 0 OR 1] ! (2 * i) + 256 * m[0 := m ! 0 OR 1] ! (2 * i + 1) < 2 ^ 16" if "i < 3" for i
    using b [of "2 * i"] b [of "2 * i + 1"] that by simp
  then show ?thesis unfolding node_words_def uuid_node_def Let_def m_def [symmetric] by simp
qed

end
