(* ===== verification/Uuid_Text.thy ===== *)
theory Uuid_Text
  imports Uuid Kvprintf_Spec
begin

text \<open>
  The text of a UUID: \<open>snprintf_uuid\<close> prints it with fixed-width hexadecimal fields, and \<open>parse_uuid\<close> reads it back.
  A format of hexadecimal fields and literal characters is a list of items, so that the printer and the scanner are
  run over any such format by one induction each.
\<close>

unbundle bit_operations_syntax

section \<open>Fixed-width hexadecimal numbers\<close>

fun hexw :: "nat \<Rightarrow> nat \<Rightarrow> nat list" where
  "hexw 0 num = []"
| "hexw (Suc w) num = hexw w (num div 16) @ [num mod 16]"

lemma length_hexw [simp]: "length (hexw w num) = w"
  by (induction w arbitrary: num) simp_all

lemma hexw_less: "d \<in> set (hexw w num) \<Longrightarrow> d < 16"
  by (induction w arbitrary: num) auto

lemma hexw_0: "hexw w 0 = replicate w 0"
  by (induction w) (simp_all add: replicate_append_same)

lemma numval_hexw: "num < 16 ^ w \<Longrightarrow> numval 16 (hexw w num) = num"
proof (induction w arbitrary: num)
  case (Suc w)
  have "num div 16 < 16 ^ w" using Suc.prems by (simp add: div_less_iff_less_mult mult.commute)
  with Suc.IH show ?case by (simp add: numval_snoc)
qed (simp add: numval_def)

lemma hexw_rdigits: "0 < w \<Longrightarrow> num < 16 ^ w \<Longrightarrow>
  length (rdigits 16 num) \<le> w \<and> hexw w num = replicate (w - length (rdigits 16 num)) 0 @ rev (rdigits 16 num)"
proof (induction w arbitrary: num)
  case (Suc w)
  show ?case
  proof (cases "num div 16 = 0")
    case True
    then have "rdigits 16 num = [num mod 16]" by (subst rdigits.simps) simp
    then show ?thesis using True by (simp add: hexw_0)
  next
    case False
    then have r: "rdigits 16 num = num mod 16 # rdigits 16 (num div 16)" by (subst rdigits.simps) simp
    have l: "num div 16 < 16 ^ w" using Suc.prems by (simp add: div_less_iff_less_mult mult.commute)
    then have "0 < w" using False by (cases w) auto
    with Suc.IH [OF this l] r show ?thesis by simp
  qed
qed simp

definition hexpad :: "nat \<Rightarrow> nat \<Rightarrow> byte list" where
  "hexpad w num = map (asc False) (hexw w num)"

lemma length_hexpad [simp]: "length (hexpad w num) = w"
  by (simp add: hexpad_def)

lemma hexpad_split: "hexpad (v + w) num = hexpad v (num div 16 ^ w) @ hexpad w (num mod 16 ^ w)"
proof (induction w arbitrary: num)
  case (Suc w)
  have "num div 16 mod 16 ^ w = num mod 16 ^ Suc w div 16" by (simp add: mod_mult2_eq)
  moreover have "num div 16 div 16 ^ w = num div 16 ^ Suc w" by (simp add: div_mult2_eq)
  moreover have "num mod 16 ^ Suc w mod 16 = num mod 16" by (simp add: mod_mult2_eq)
  ultimately show ?case using Suc.IH [of "num div 16"] by (simp add: hexpad_def)
qed (simp add: hexpad_def)

lemma hexpad_pair: "b < 256 \<Longrightarrow> hexpad 4 (a * 256 + b) = hexpad 2 a @ hexpad 2 b"
  using hexpad_split [of 2 2 "a * 256 + b"] by simp

section \<open>Items of a format\<close>

datatype item = Hex nat nat | Lit byte

fun item_ok :: "item \<Rightarrow> bool" where
  "item_ok (Hex w v) \<longleftrightarrow> 1 \<le> w \<and> w \<le> 8 \<and> v < 16 ^ w"
| "item_ok (Lit c) \<longleftrightarrow> c \<noteq> 0 \<and> c \<noteq> 37 \<and> c < 128 \<and> \<not> isspace c"

fun item_print :: "item \<Rightarrow> byte list" where
  "item_print (Hex w v) = [37, 48, 48 + w, 120]"
| "item_print (Lit c) = [c]"

fun item_scan :: "item \<Rightarrow> byte list" where
  "item_scan (Hex w v) = [37, 48 + w, 120]"
| "item_scan (Lit c) = [c]"

fun item_text :: "item \<Rightarrow> byte list" where
  "item_text (Hex w v) = hexpad w v"
| "item_text (Lit c) = [c]"

fun item_vals :: "item \<Rightarrow> nat list" where
  "item_vals (Hex w v) = [v]"
| "item_vals (Lit c) = []"

abbreviation (input) "items f its \<equiv> concat (map f its)"

lemma drop_Cons: "drop i xs = y # ys \<Longrightarrow> i < length xs \<and> xs ! i = y \<and> drop (i + 1) xs = ys"
proof -
  assume d: "drop i xs = y # ys"
  then have "i < length xs" by (metis drop_all linorder_not_less list.distinct(1))
  moreover have "drop i xs = xs ! i # drop (Suc i) xs" using \<open>i < length xs\<close> by (simp add: Cons_nth_drop_Suc)
  ultimately show ?thesis using d by simp
qed

lemma drop_prefix: "drop i xs = ys @ zs \<Longrightarrow> drop (i + length ys) xs = zs"
  by (metis add.commute append_eq_conv_conj drop_drop)

section \<open>Printing\<close>

lemma kv_number_padded:
  assumes "1 \<le> w" "w \<le> 8" "v < 16 ^ w" "kv_width st = int w" "kv_padc st = 48" "\<not> kv_ladjust st" "\<not> kv_sharp st" "\<not> kv_sign st"
    "\<not> kv_upper st"
  shows "kv_number st 16 v = Inr (hexpad w v)"
proof -
  have "(16::nat) ^ w \<le> 16 ^ 8" using assms(2) by (intro power_increasing) auto
  then have v: "v < 2 ^ 64" using assms(3) by simp
  from ksprintn_spec [OF _ _ v, of 16 "replicate MAXNBUF 0" False] obtain nbuf' where
    n: "ksprintn (replicate MAXNBUF 0) v 16 False = Inr (nbuf', length (rdigits 16 v))"
    "kv_back nbuf' (length (rdigits 16 v)) = Inr (map (asc False) (rev (rdigits 16 v)))" by auto
  have h: "length (rdigits 16 v) \<le> w" "hexw w v = replicate (w - length (rdigits 16 v)) 0 @ rev (rdigits 16 v)"
    using hexw_rdigits [of w v] assms(1,3) by simp_all
  have c: "ck (int w - max (int w) (int (length (rdigits 16 v)))) = Inr 0"
    "ck (int w - int (length (rdigits 16 v))) = Inr (int (w - length (rdigits 16 v)))"
    using h(1) assms(2) by (simp_all add: ck_def)
  have "asc False 0 = 48" by (simp add: asc_eq)
  then have t: "hexpad w v = replicate (w - length (rdigits 16 v)) 48 @ map (asc False) (rev (rdigits 16 v))"
    by (simp add: hexpad_def h(2))
  show ?thesis unfolding t using assms(4-9) n c by (simp add: kv_number_def Let_def)
qed

lemma kv_run_hex:
  assumes "drop i fmt = [37, 48, 48 + w, 120] @ r" "1 \<le> w" "w \<le> 8" "v < 16 ^ w"
  shows "kv_run fmt radix i None (VInt (int v) # ap) False out stores =
    kv_run fmt radix (i + 4) None ap False (out @ hexpad w v) stores"
proof -
  let ?st = "kv_init\<lparr>kv_padc := 48, kv_width := int w\<rparr>"
  have f: "i < length fmt" "fmt ! i = 37" "i + 1 < length fmt" "fmt ! (i + 1) = 48" "i + 2 < length fmt" "fmt ! (i + 2) = 48 + w"
    "i + 3 < length fmt" "fmt ! (i + 3) = 120"
    using drop_Cons [of i fmt] drop_Cons [of "i + 1" fmt] drop_Cons [of "i + 2" fmt] drop_Cons [of "i + 3" fmt] assms(1)
    by (simp_all add: numeral_eq_Suc)
  have "(16::nat) ^ w \<le> 16 ^ 8" using assms(3) by (intro power_increasing) auto
  then have v: "v < 2 ^ 32" using assms(4) by simp
  have d: "kv_digits fmt (i + 3) (48 + w) 0 = Inr (int w, i + 3)"
    using f assms(3) by (subst kv_digits.simps) (simp add: ck_def)
  have w: "kv_dir fmt radix (48 + w) (i + 3) i (kv_init\<lparr>kv_padc := 48\<rparr>) (VInt (int v) # ap) (length out) =
      Inr (Again (i + 3) ?st (VInt (int v) # ap))"
    using assms(2,3) d by (simp add: kv_dir_def kv_init_def)
  have z: "kv_dir fmt radix 48 (i + 2) i kv_init (VInt (int v) # ap) (length out) =
      Inr (Again (i + 2) (kv_init\<lparr>kv_padc := 48\<rparr>) (VInt (int v) # ap))"
    by (simp add: kv_dir_def kv_init_def)
  have "kv_nosign ?st (int v) = v" using v by (simp add: kv_nosign_def kv_init_def)
  moreover have "kv_number (?st\<lparr>kv_sign := False\<rparr>) 16 v = Inr (hexpad w v)"
    by (rule kv_number_padded [OF assms(2-4)]) (simp_all add: kv_init_def)
  ultimately have x: "kv_dir fmt radix 120 (i + 4) i ?st (VInt (int v) # ap) (length out) =
      Inr (Done (i + 4) ap (hexpad w v) False [])"
    by (simp add: kv_dir_def kv_unsigned_conv_def va_int_def kv_out_def kv_init_def)
  have s1: "kv_run fmt radix (i + 1) (Some (i, kv_init)) (VInt (int v) # ap) False out stores =
      kv_run fmt radix (i + 2) (Some (i, kv_init\<lparr>kv_padc := 48\<rparr>)) (VInt (int v) # ap) False out stores"
    using f z by (subst kv_run.simps) simp
  have s2: "kv_run fmt radix (i + 2) (Some (i, kv_init\<lparr>kv_padc := 48\<rparr>)) (VInt (int v) # ap) False out stores =
      kv_run fmt radix (i + 3) (Some (i, ?st)) (VInt (int v) # ap) False out stores"
    using f(5,6) w by (subst kv_run.simps) (simp add: numeral_3_eq_3)
  have s3: "kv_run fmt radix (i + 3) (Some (i, ?st)) (VInt (int v) # ap) False out stores =
      kv_run fmt radix (i + 4) None ap False (out @ hexpad w v) stores"
    using f(7,8) x by (subst kv_run.simps) (simp add: numeral_eq_Suc)
  show ?thesis using kv_run_percent [OF f(2,1)] s1 s2 s3 by simp
qed

lemma kv_run_items:
  "\<forall>it \<in> set its. item_ok it \<Longrightarrow> drop i fmt = items item_print its @ 0 # r \<Longrightarrow>
   kv_run fmt radix i None (map (\<lambda>v. VInt (int v)) (items item_vals its)) False out stores = Inr (out @ items item_text its, stores)"
proof (induction its arbitrary: i out)
  case Nil
  then show ?case using drop_Cons [of i fmt 0 r] by (simp add: kv_run_end)
next
  case (Cons it its)
  show ?case
  proof (cases it)
    case (Hex w v)
    then have d: "drop i fmt = [37, 48, 48 + w, 120] @ items item_print its @ 0 # r" using Cons.prems by simp
    then have "drop (i + 4) fmt = items item_print its @ 0 # r" using drop_prefix [OF d] by (simp add: numeral_eq_Suc)
    then show ?thesis using kv_run_hex [OF d] Cons.IH [of "i + 4"] Cons.prems(1) Hex by simp
  next
    case (Lit c)
    then have d: "drop i fmt = c # items item_print its @ 0 # r" using Cons.prems by simp
    show ?thesis using kv_run_literal [of fmt i c radix] drop_Cons [OF d] Cons.IH [of "i + 1"] Cons.prems(1) Lit by simp
  qed
qed

section \<open>Scanning\<close>

lemma asc_hex: "d < 16 \<Longrightarrow> asc False d = (if d < 10 then 48 + d else 87 + d)"
  by (simp add: asc_eq)

lemma si_accept_hex: "d < 16 \<Longrightarrow> \<exists>f. si_accept k (asc False d) 16 fl = Some (16, f) \<and> \<not> si_ndigits f"
  by (auto simp: asc_hex si_accept_def si_digit_def basefix_def Let_def)

lemma si_scan_hex:
  assumes "\<forall>d \<in> set ds. d < 16" "drop inp ibuf = map (asc False) ds @ r" "int (length ds) \<le> inr"
  shows "\<exists>f. si_scan ibuf (length ds) inp inr 16 fl acc =
      Inr (acc @ map (asc False) ds, if ds \<noteq> [] \<and> inr = int (length ds) then inp + length ds - 1 else inp + length ds,
           inr - int (length ds), 16, f) \<and> (ds \<noteq> [] \<longrightarrow> \<not> si_ndigits f)"
  using assms
proof (induction ds arbitrary: inp inr fl acc)
  case (Cons d ds)
  from Cons.prems have i: "inp < length ibuf" "ibuf ! inp = asc False d" "drop (inp + 1) ibuf = map (asc False) ds @ r"
    using drop_Cons [of inp ibuf "asc False d"] by simp_all
  obtain f where f: "si_accept (length acc) (asc False d) 16 fl = Some (16, f)" "\<not> si_ndigits f"
    using si_accept_hex [of d "length acc" fl] Cons.prems(1) by auto
  show ?case
  proof (cases "0 < inr - 1")
    case True
    then have "int (length ds) \<le> inr - 1" using Cons.prems(3) by simp
    from Cons.IH [OF _ i(3) this, of f "acc @ [asc False d]"] Cons.prems(1) obtain g where
      "si_scan ibuf (length ds) (inp + 1) (inr - 1) 16 f (acc @ [asc False d]) =
        Inr (acc @ asc False d # map (asc False) ds, if ds \<noteq> [] \<and> inr - 1 = int (length ds) then inp + 1 + length ds - 1 else inp + 1 + length ds,
             inr - 1 - int (length ds), 16, g)" "ds \<noteq> [] \<longrightarrow> \<not> si_ndigits g" by auto
    with True i f show ?thesis by (cases ds) auto
  next
    case False
    have "int (length ds) \<le> 0" using Cons.prems(3) False unfolding length_Cons by linarith
    then have "ds = []" by simp
    moreover from this have "inr = 1" using Cons.prems(3) False by simp
    ultimately show ?thesis using False i f by simp
  qed
qed simp

lemma sc_int_hex:
  assumes "1 \<le> w" "w \<le> 8" "v < 16 ^ w" "drop (sc_inp st) ibuf = hexpad w v @ r" "int w \<le> sc_inr st"
    "sc_base st = 16" "sc_ccfn st = Some Strtouq" "sc_ap st = SObj # ap"
  shows "\<exists>st'. sc_int ibuf i w (sc_noflags\<lparr>sc_pfxok := True\<rparr>) st = Inr (Next i st') \<and>
    sc_inp st' = (if sc_inr st = int w then sc_inp st + w - 1 else sc_inp st + w) \<and> sc_inr st' = sc_inr st - int w \<and>
    sc_nassigned st' = sc_nassigned st + 1 \<and> sc_ap st' = ap \<and> sc_out st' = sc_out st @ [RInt 32 (swrap 32 (int v))]"
proof -
  let ?t = "hexpad w v" and ?f0 = "\<lparr>si_signok = True, si_ndigits = True, si_pfxok = True, si_nzdigits = True\<rparr>"
  have ds: "\<forall>d \<in> set (hexw w v). d < 16" "hexw w v \<noteq> []" using hexw_less assms(1) by (auto simp flip: length_0_conv)
  obtain f where f: "si_scan ibuf w (sc_inp st) (sc_inr st) 16 ?f0 [] =
      Inr (?t, if sc_inr st = int w then sc_inp st + w - 1 else sc_inp st + w, sc_inr st - int w, 16, f)" "\<not> si_ndigits f"
    using si_scan_hex [OF ds(1), of "sc_inp st" ibuf r "sc_inr st" ?f0 "[]"] ds(2) assms(4,5) by (auto simp: hexpad_def)
  have "last ?t \<in> set ?t" using ds(2) by (intro last_in_set) (simp add: hexpad_def)
  then obtain d where "last ?t = asc False d" "d < 16" using ds(1) by (auto simp: hexpad_def)
  then have x: "last ?t \<noteq> 120" "last ?t \<noteq> 88" by (auto simp: asc_hex)
  have nz: "0 \<notin> set ?t" using ds(1) by (auto simp: hexpad_def asc_hex split: if_splits)
  have "(16::nat) ^ w \<le> 16 ^ 8" using assms(2) by (intro power_increasing) auto
  then have v: "v < 2 ^ 64" using assms(3) by simp
  have "strto_ref ?t 16 = (False, v, w, 0)"
    using digits_ref [of 16 "hexw w v" False False] ds numval_hexw [OF assms(3)] by (simp add: hexpad_def)
  then have q: "strtouq (?t @ [0]) 16 = Inr (v, if w = 0 then 0 else 0 + w)"
    using strtouq_spec [of "?t @ [0]" ?t 16 False v w 0] nz v by (simp add: cstr_drop)
  have c: "sc_ccfn_call (Some Strtouq) (?t @ [0]) 16 = Inr (int v)" by (simp add: sc_ccfn_call_def q)
  have s: "sc_store (sc_noflags\<lparr>sc_pfxok := True\<rparr>) (int v) = RInt 32 (swrap 32 (int v))" by (simp add: sc_store_def sc_noflags_def)
  have w: "(if w = 0 \<or> 31 < w then 31 else w) = w" "sc_pfxok (sc_noflags\<lparr>sc_pfxok := True\<rparr>)"
    "\<not> sc_suppress (sc_noflags\<lparr>sc_pfxok := True\<rparr>)" using assms(1,2) by (simp_all add: sc_noflags_def)
  show ?thesis
    unfolding sc_int_def Let_def w(1) assms(6) using f x c s w(2,3) assms(7,8) by (simp add: sa_obj_def)
qed

lemma sc_run_hex:
  assumes "drop i fmt = [37, 48 + w, 120] @ r'" "1 \<le> w" "w \<le> 8" "v < 16 ^ w" "drop (sc_inp st) ibuf = hexpad w v @ r"
    "int w \<le> sc_inr st" "sc_ap st = SObj # ap"
  shows "\<exists>st'. sc_run ibuf fmt i None st = sc_run ibuf fmt (i + 3) None st' \<and>
    sc_inp st' = (if sc_inr st = int w then sc_inp st + w - 1 else sc_inp st + w) \<and> sc_inr st' = sc_inr st - int w \<and>
    sc_nassigned st' = sc_nassigned st + 1 \<and> sc_ap st' = ap \<and> sc_out st' = sc_out st @ [RInt 32 (swrap 32 (int v))]"
proof -
  let ?fl = "sc_noflags\<lparr>sc_pfxok := True\<rparr>" and ?st = "st\<lparr>sc_ccfn := Some Strtouq, sc_base := 16\<rparr>"
  have f: "i < length fmt" "fmt ! i = 37" "i + 1 < length fmt" "fmt ! (i + 1) = 48 + w" "i + 2 < length fmt" "fmt ! (i + 2) = 120"
    using drop_Cons [of i fmt] drop_Cons [of "i + 1" fmt] drop_Cons [of "i + 2" fmt] assms(1) by (simp_all add: numeral_eq_Suc)
  obtain d ds where h: "hexw w v = d # ds" using assms(2) by (metis length_hexw list.exhaust list.size(3) not_one_le_zero)
  then have "d < 16" using hexw_less [of d w v] by simp
  then have sp: "\<not> isspace (asc False d)" by (auto simp: asc_hex isspace_def)
  have i: "sc_inp st < length ibuf" "ibuf ! sc_inp st = asc False d"
    using drop_Cons [of "sc_inp st" ibuf "asc False d"] assms(5) by (simp_all add: hexpad_def h)
  have b: "sc_blank ibuf (sc_inp st) (sc_inr st) (sc_nread st) = Inr (False, sc_inp st, sc_inr st, sc_nread st)"
    using i sp by (subst sc_blank.simps) simp
  obtain st' where s: "sc_int ibuf (i + 3) w ?fl ?st = Inr (Next (i + 3) st')"
    "sc_inp st' = (if sc_inr st = int w then sc_inp st + w - 1 else sc_inp st + w)" "sc_inr st' = sc_inr st - int w"
    "sc_nassigned st' = sc_nassigned st + 1" "sc_ap st' = ap" "sc_out st' = sc_out st @ [RInt 32 (swrap 32 (int v))]"
    using sc_int_hex [OF assms(2-4), of ?st ibuf r ap "i + 3"] assms(5-7) by auto
  have "sc_dir ibuf fmt 120 (i + 3) w sc_noflags st = Inr (Next (i + 3) st')"
    using assms(2,6) s(1) by (simp add: sc_dir_def sc_convert_def CT_CHAR_def CT_CCL_def CT_STRING_def CT_INT_def b sc_noflags_def)
  moreover have "sc_dir ibuf fmt (48 + w) (i + 2) 0 sc_noflags st = Inr (More (i + 2) w sc_noflags st)"
    using assms(2,3) by (simp add: sc_dir_def)
  moreover have "sc_run ibuf fmt i None st = sc_run ibuf fmt (i + 1) (Some (0, sc_noflags)) st"
    using f(1,2) by (subst sc_run.simps) (simp add: isspace_def)
  moreover have "sc_run ibuf fmt (i + 1) (Some (0, sc_noflags)) st =
      rbind (sc_dir ibuf fmt (48 + w) (i + 2) 0 sc_noflags st) (\<lambda>r. case r of Ret v st \<Rightarrow> Inr (v, st)
        | Next j st \<Rightarrow> sc_run ibuf fmt j None st | More j width fl st \<Rightarrow> sc_run ibuf fmt j (Some (width, fl)) st)"
    using f(3,4) by (subst sc_run.simps) simp
  moreover have "sc_run ibuf fmt (i + 2) (Some (w, sc_noflags)) st =
      rbind (sc_dir ibuf fmt 120 (i + 3) w sc_noflags st) (\<lambda>r. case r of Ret v st \<Rightarrow> Inr (v, st)
        | Next j st \<Rightarrow> sc_run ibuf fmt j None st | More j width fl st \<Rightarrow> sc_run ibuf fmt j (Some (width, fl)) st)"
    using f(5,6) by (subst sc_run.simps) (simp add: numeral_3_eq_3)
  ultimately show ?thesis using s(2-6) by (intro exI [of _ st']) simp
qed

lemma sc_run_items:
  "\<forall>it \<in> set its. item_ok it \<Longrightarrow> drop i fmt = items item_scan its @ 0 # r' \<Longrightarrow>
   (its \<noteq> [] \<longrightarrow> drop (sc_inp st) ibuf = items item_text its @ r) \<Longrightarrow> sc_inr st = int (length (items item_text its)) \<Longrightarrow>
   sc_ap st = replicate (length (items item_vals its)) SObj \<Longrightarrow>
   \<exists>st'. sc_run ibuf fmt i None st = Inr (int (sc_nassigned st + length (items item_vals its)), st') \<and>
     sc_out st' = sc_out st @ map (\<lambda>v. RInt 32 (swrap 32 (int v))) (items item_vals its)"
proof (induction its arbitrary: i st)
  case Nil
  then show ?case using drop_Cons [of i fmt 0 r'] by (subst sc_run.simps) simp
next
  case (Cons it its)
  have more: "0 < length (items item_text its)" if ne: "its \<noteq> []"
  proof -
    obtain jt jts where "its = jt # jts" "item_ok jt" using ne Cons.prems(1) by (cases its) auto
    then show ?thesis by (cases jt) auto
  qed
  show ?case
  proof (cases it)
    case (Hex w v)
    have ok: "1 \<le> w" "w \<le> 8" "v < 16 ^ w" using Cons.prems(1) Hex by simp_all
    have d: "drop i fmt = [37, 48 + w, 120] @ items item_scan its @ 0 # r'" using Cons.prems(2) Hex by simp
    have t: "drop (sc_inp st) ibuf = hexpad w v @ items item_text its @ r" using Cons.prems(3) Hex by simp
    obtain st' where s: "sc_run ibuf fmt i None st = sc_run ibuf fmt (i + 3) None st'"
      "sc_inp st' = (if sc_inr st = int w then sc_inp st + w - 1 else sc_inp st + w)" "sc_inr st' = sc_inr st - int w"
      "sc_nassigned st' = sc_nassigned st + 1" "sc_ap st' = replicate (length (items item_vals its)) SObj"
      "sc_out st' = sc_out st @ [RInt 32 (swrap 32 (int v))]"
      using sc_run_hex [OF d ok t] Cons.prems(4,5) Hex by auto
    have "drop (sc_inp st') ibuf = items item_text its @ r" if "its \<noteq> []"
    proof -
      have "sc_inr st = int (w + length (items item_text its))" using Cons.prems(4) Hex by simp
      then have "sc_inr st \<noteq> int w" using more [OF that] by linarith
      then show ?thesis using drop_prefix [OF t] s(2) by simp
    qed
    moreover have "drop (i + 3) fmt = items item_scan its @ 0 # r'" using drop_prefix [OF d] by (simp add: numeral_eq_Suc)
    ultimately show ?thesis
      using Cons.IH [of "i + 3" st'] s Cons.prems(1,4) Hex by simp
  next
    case (Lit c)
    have c: "c \<noteq> 0" "c \<noteq> 37" "c < 128" "\<not> isspace c" using Cons.prems(1) Lit by simp_all
    have d: "drop i fmt = c # items item_scan its @ 0 # r'" using Cons.prems(2) Lit by simp
    have t: "drop (sc_inp st) ibuf = c # items item_text its @ r" using Cons.prems(3) Lit by simp
    let ?st = "st\<lparr>sc_inr := sc_inr st - 1, sc_inp := sc_inp st + 1, sc_nread := sc_nread st + 1\<rparr>"
    have "sc_literal ibuf (i + 1) c st = Inr (Next (i + 1) ?st)"
      using drop_Cons [OF t] c Cons.prems(4) Lit by (simp add: sc_literal_def schar_def)
    then have "sc_run ibuf fmt i None st = sc_run ibuf fmt (i + 1) None ?st"
      using drop_Cons [OF d] c by (subst sc_run.simps) simp
    then show ?thesis using Cons.IH [of "i + 1" ?st] drop_Cons [OF t] drop_Cons [OF d] Cons.prems Lit by simp
  qed
qed

section \<open>UUIDs\<close>

definition uuid_items :: "uuid \<Rightarrow> item list" where
  "uuid_items u =
     [Hex 8 (time_low u), Lit 45, Hex 4 (time_mid u), Lit 45, Hex 4 (time_hi_and_version u), Lit 45,
      Hex 2 (clock_seq_hi_and_reserved u), Hex 2 (clock_seq_low u), Lit 45] @ map (Hex 2) (node u)"

definition uuid_text :: "uuid \<Rightarrow> byte list" where
  "uuid_text u = items item_text (uuid_items u)"

lemma six_list: "length (xs :: 'a list) = 6 \<Longrightarrow> \<exists>a b c d e f. xs = [a, b, c, d, e, f]"
  by (auto simp: eval_nat_numeral length_Suc_conv)

lemma uuid_fields_ok:
  assumes "uuid_ok u"
  obtains a b c d e f where "node u = [a, b, c, d, e, f]" "\<forall>x \<in> {a, b, c, d, e, f}. x < 256"
    "time_low u < 16 ^ 8" "time_mid u < 16 ^ 4" "time_hi_and_version u < 16 ^ 4" "clock_seq_hi_and_reserved u < 256" "clock_seq_low u < 256"
proof -
  obtain a b c d e f where "node u = [a, b, c, d, e, f]"
    using six_list [of "node u"] assms by (auto simp: uuid_ok_def UUID_NODE_LEN_def)
  with that assms show thesis by (simp add: uuid_ok_def)
qed

lemma uuid_items_ok: "uuid_ok u \<Longrightarrow> \<forall>it \<in> set (uuid_items u). item_ok it"
  by (elim uuid_fields_ok) (auto simp: uuid_items_def isspace_def)

lemma length_uuid_text: "uuid_ok u \<Longrightarrow> length (uuid_text u) = 36"
  by (elim uuid_fields_ok) (simp add: uuid_text_def uuid_items_def)

lemma hexpad_nonzero: "0 \<notin> set (hexpad w v)"
proof
  assume "0 \<in> set (hexpad w v)"
  then obtain d where "d \<in> set (hexw w v)" "asc False d = 0" by (auto simp: hexpad_def)
  with hexw_less [of d w v] show False by (simp add: asc_hex split: if_splits)
qed

lemma uuid_text_nonzero: "0 \<notin> set (uuid_text u)"
  using hexpad_nonzero by (auto simp: uuid_text_def uuid_items_def)

lemma snprintf_uuid_text:
  assumes "uuid_ok u" "sz \<le> length buf"
  shows "snprintf_uuid buf sz u = Inr (if sz = 0 then buf else put_at buf 0 (take (sz - 1) (uuid_text u) @ [0]), 36)"
proof -
  obtain a b c d e f where u: "node u = [a, b, c, d, e, f]" "\<forall>x \<in> {a, b, c, d, e, f}. x < 256"
    "time_low u < 16 ^ 8" "time_mid u < 16 ^ 4" "time_hi_and_version u < 16 ^ 4" "clock_seq_hi_and_reserved u < 256" "clock_seq_low u < 256"
    using uuid_fields_ok [OF assms(1)] .
  define sw where "sw h l = h * 256 + l" for h l :: nat
  have sw: "bswap16 (h + 256 * l) = sw h l" "sw h l < 16 ^ 4" "hexpad 4 (sw h l) = hexpad 2 h @ hexpad 2 l" if "h < 256" "l < 256" for h l
    using that hexpad_pair [of l h] by (simp_all add: bswap16_def sw_def)
  define its where "its = [Hex 8 (time_low u), Lit 45, Hex 4 (time_mid u), Lit 45, Hex 4 (time_hi_and_version u), Lit 45,
    Hex 4 (sw (clock_seq_hi_and_reserved u) (clock_seq_low u)), Lit 45, Hex 4 (sw a b), Hex 4 (sw c d), Hex 4 (sw e f)]"
  let ?fmt = "map of_char ''%08x-%04x-%04x-%04x-%04x%04x%04x'' @ [0] :: byte list"
  have fmt: "drop 0 ?fmt = items item_print its @ 0 # []" by (simp add: its_def)
  have ok: "\<forall>it \<in> set its. item_ok it" using u sw(2) by (simp add: its_def isspace_def)
  have tx: "items item_text its = uuid_text u" using u sw(3) by (simp add: its_def uuid_text_def uuid_items_def)
  have "kvcprintf (Some ?fmt) 10 (map (\<lambda>v. VInt (int v)) (items item_vals its)) = Inr (uuid_text u, [])"
    using kv_run_items [OF ok fmt, of 10 "[]" "[]"] tx by (simp add: kvcprintf_def)
  from kvsnprintf_spec [OF this assms(2)] show ?thesis
    using u sw(1) length_uuid_text [OF assms(1)] unfolding snprintf_uuid_def ksnprintf_def Let_def by (simp add: its_def)
qed

lemma and_push: "c AND push_bit k m = push_bit k (drop_bit k c AND m)" for c m :: nat
  by (rule bit_eqI) (auto simp: bit_simps)

lemma variant_check: "(c AND 0x80 \<noteq> 0 \<and> c AND 0xc0 \<noteq> 0x80 \<and> c AND 0xe0 \<noteq> 0xc0) \<longleftrightarrow> 224 \<le> c" if "c < 256" for c :: nat
proof -
  define q where "q = drop_bit 5 c"
  have m: "(0x80 :: nat) = push_bit 5 4" "(0xc0 :: nat) = push_bit 5 6" "(0xe0 :: nat) = push_bit 5 7" by simp_all
  have q: "q = c div 32" by (simp add: q_def drop_bit_eq_div)
  then have "q = 0 \<or> q = 1 \<or> q = 2 \<or> q = 3 \<or> q = 4 \<or> q = 5 \<or> q = 6 \<or> q = 7" using that by auto
  moreover have "224 \<le> c \<longleftrightarrow> 7 \<le> q" using q by auto
  moreover have "c AND 0x80 = push_bit 5 (q AND 4)" "c AND 0xc0 = push_bit 5 (q AND 6)" "c AND 0xe0 = push_bit 5 (q AND 7)"
    unfolding m and_push q_def by (rule refl)+
  ultimately show ?thesis by (elim disjE) simp_all
qed

lemma parse_uuid_text:
  assumes "uuid_ok u" "cstr str 0 (uuid_text u)"
  shows "parse_uuid str v = Inr (if 224 \<le> clock_seq_hi_and_reserved u then EINVAL else 0, u)"
proof -
  obtain a b c d e f where u: "node u = [a, b, c, d, e, f]" "\<forall>x \<in> {a, b, c, d, e, f}. x < 256"
    "time_low u < 16 ^ 8" "time_mid u < 16 ^ 4" "time_hi_and_version u < 16 ^ 4" "clock_seq_hi_and_reserved u < 256" "clock_seq_low u < 256"
    using uuid_fields_ok [OF assms(1)] .
  define vs where "vs = [time_low u, time_mid u, time_hi_and_version u, clock_seq_hi_and_reserved u, clock_seq_low u, a, b, c, d, e, f]"
  let ?fmt = "map of_char ''%8x-%4x-%4x-%2x%2x-%2x%2x%2x%2x%2x%2x'' @ [0] :: byte list"
  have fmt: "drop 0 ?fmt = items item_scan (uuid_items u) @ 0 # []" by (simp add: uuid_items_def u(1))
  have l11: "length vs = 11" by (simp add: vs_def)
  have vals: "items item_vals (uuid_items u) = vs" by (simp add: uuid_items_def u(1) vs_def)
  obtain r where r: "drop 0 str = uuid_text u @ r" using assms(2) by (auto simp: cstr_drop)
  have len: "strlen str 0 = Inr 36" using strlen_spec [OF assms(2)] length_uuid_text [OF assms(1)] by simp
  have rd8: "rd str 8 = Inr 45"
    using cstr_rd [OF assms(2), of 8] length_uuid_text [OF assms(1)] by (simp add: uuid_text_def uuid_items_def nth_append)
  have rd0: "\<exists>c. rd str 0 = Inr c \<and> c \<noteq> 0"
    using cstr_rd [OF assms(2), of 0] length_uuid_text [OF assms(1)] uuid_text_nonzero [of u] by (cases "uuid_text u") auto
  let ?st = "\<lparr>sc_inp = 0, sc_inr = 36, sc_nassigned = 0, sc_nconversions = 0, sc_nread = 0, sc_base = 0,
        sc_ccfn = None, sc_tab = replicate 256 0, sc_ap = replicate 11 SObj, sc_out = []\<rparr>"
  have "\<exists>st'. sc_run str ?fmt 0 None ?st = Inr (int (sc_nassigned ?st + length (items item_vals (uuid_items u))), st') \<and>
     sc_out st' = sc_out ?st @ map (\<lambda>v. RInt 32 (swrap 32 (int v))) (items item_vals (uuid_items u))"
    using length_uuid_text [OF assms(1)] r
    by (intro sc_run_items [OF uuid_items_ok [OF assms(1)] fmt, where r = r]) (simp_all add: vals l11 uuid_text_def [symmetric])
  then have scan: "ksscanf str ?fmt (replicate 11 SObj) = Inr (11, map (\<lambda>v. RInt 32 (swrap 32 (int v))) vs)"
    unfolding vals by (auto simp: ksscanf_def kvsscanf_def len swrap_def vs_def)
  have "sval_uint (RInt 32 (swrap 32 (int x))) = x" if "x < 2 ^ 32" for x
    using that by (simp add: sval_uint_def swrap_def mod_diff_left_eq)
  then have vs: "map sval_uint (map (\<lambda>v. RInt 32 (swrap 32 (int v))) vs) = vs"
    using u unfolding map_map by (intro map_idI) (auto simp: vs_def)
  have nd: "map (\<lambda>i. vs ! (i + 5) mod 256) [0..<6] = node u" using u by (simp add: vs_def upt_rec)
  have n: "vs ! 0 = time_low u" "vs ! 1 mod 2 ^ 16 = time_mid u" "vs ! 2 mod 2 ^ 16 = time_hi_and_version u"
    "vs ! 3 = clock_seq_hi_and_reserved u" "vs ! 4 mod 256 = clock_seq_low u" using u by (simp_all add: vs_def)
  obtain c0 where c0: "rd str 0 = Inr c0" "(c0 = 0) = False" using rd0 by blast
  have t: "(36 \<noteq> (36::nat)) = False" "(45 \<noteq> (45::nat)) = False" "(11 \<noteq> (11::int)) = False" by simp_all
  show ?thesis
    unfolding parse_uuid_def c0 len rd8 scan rbind_Inr prod.case t if_False Let_def vs nd n variant_check [OF u(6)]
    using u(6) by simp
qed

end
