(* ===== verification/Uuid_Props.thy ===== *)
theory Uuid_Props
  imports Uuid_Spec Uuid_Gen Uuid_Text
begin

text \<open>The properties of UUIDs and of the formatted input they are parsed with.\<close>

unbundle bit_operations_syntax

section \<open>Evaluation of scans\<close>




section \<open>Properties\<close>

text \<open>C34. The text of a UUID fits 37 bytes, and \<open>parse_uuid\<close> reads back what \<open>snprintf_uuid\<close> printed, for every UUID;
  it accepts it unless the three top bits of the variant are set.\<close>

theorem uuid_text_roundtrip:
  assumes "uuid_ok u" "37 \<le> sz" "sz \<le> length buf"
  shows "\<exists>buf'. snprintf_uuid buf sz u = Inr (buf', 36) \<and> length buf' = length buf \<and> drop 37 buf' = drop 37 buf \<and>
    parse_uuid buf' v = Inr (if 224 \<le> clock_seq_hi_and_reserved u then EINVAL else 0, u)"
proof -
  let ?b = "put_at buf 0 (uuid_text u @ [0])"
  have l: "length (uuid_text u) = 36" by (rule length_uuid_text [OF assms(1)])
  have s: "snprintf_uuid buf sz u = Inr (?b, 36)" using snprintf_uuid_text [OF assms(1,3)] assms(2) l by simp
  have "cstr ?b 0 (uuid_text u)" using cstr_put_at [of 0 "uuid_text u" buf] uuid_text_nonzero [of u] l assms(2,3) by simp
  from parse_uuid_text [OF assms(1) this] s show ?thesis using l assms(2,3) by (intro exI [of _ ?b]) (simp add: put_at_def)
qed

theorem uuid_text_roundtrip_witness:
  "uuid_ok GPT_ENT_TYPE_DRAGONFLY_CCD \<and>
   (\<exists>buf'. snprintf_uuid (replicate 38 0) 38 GPT_ENT_TYPE_DRAGONFLY_CCD = Inr (buf', 36) \<and>
      length buf' = 38 \<and> parse_uuid buf' nil_uuid = Inr (0, GPT_ENT_TYPE_DRAGONFLY_CCD))"
proof -
  have ok: "uuid_ok GPT_ENT_TYPE_DRAGONFLY_CCD" by (simp add: uuid_ok_def GPT_ENT_TYPE_DRAGONFLY_CCD_def UUID_NODE_LEN_def)
  have "clock_seq_hi_and_reserved GPT_ENT_TYPE_DRAGONFLY_CCD = 0x88" by (simp add: GPT_ENT_TYPE_DRAGONFLY_CCD_def)
  then show ?thesis using ok uuid_text_roundtrip [OF ok, of 38 "replicate 38 0" nil_uuid] by auto
qed

text \<open>C35. The little-endian stream of a UUID is its image in memory and decodes to the same UUID.  The big-endian
  decoder reads the middle part of the time in the wrong byte order.\<close>

theorem uuid_stream_roundtrip:
  assumes "uuid_ok u" "length (node v) = UUID_NODE_LEN" "p + 16 \<le> length buf"
  shows "le_uuid_enc buf p u = Inr (put_at buf p (uuid_image u)) \<and>
    rbind (le_uuid_enc buf p u) (\<lambda>b. le_uuid_dec b p v) = Inr u \<and>
    rbind (be_uuid_enc buf p u) (\<lambda>b. be_uuid_dec b p v) = Inr (u\<lparr>time_mid := bswap16 (time_mid u)\<rparr>)"
  using uuid_roundtrips [OF assms] uuid_enc(1) [of u p buf] assms by (simp add: uuid_ok_def UUID_NODE_LEN_def)

theorem uuid_stream_roundtrip_witness:
  "rbind (be_uuid_enc (replicate 16 0) 0 GPT_ENT_TYPE_DRAGONFLY_CCD) (\<lambda>b. be_uuid_dec b 0 nil_uuid) =
     Inr (GPT_ENT_TYPE_DRAGONFLY_CCD\<lparr>time_mid := 0xa51c\<rparr>) \<and>
   time_mid GPT_ENT_TYPE_DRAGONFLY_CCD = 0x1ca5"
proof -
  have ok: "uuid_ok GPT_ENT_TYPE_DRAGONFLY_CCD" "length (node nil_uuid) = UUID_NODE_LEN"
    by (simp_all add: uuid_ok_def GPT_ENT_TYPE_DRAGONFLY_CCD_def UUID_NODE_LEN_def nil_uuid_def)
  have m: "time_mid GPT_ENT_TYPE_DRAGONFLY_CCD = 0x1ca5" "bswap16 0x1ca5 = 0xa51c"
    by (simp_all add: GPT_ENT_TYPE_DRAGONFLY_CCD_def bswap16_def)
  show ?thesis using uuid_stream_roundtrip [OF ok, of 0 "replicate 16 0"] m by simp
qed

text \<open>C36. Since boot, as long as the same network interface answers, all UUIDs handed out by up to \<open>2 ^ 14\<close> calls are
  different and are well-formed version 1 UUIDs, whatever the clock does between the calls.\<close>

theorem kern_uuidgen_fresh:
  assumes "\<forall>c \<in> set cs. call_ok (uuid_node (Some mac) rnd) c" "length cs \<le> 2 ^ 14"
    and "length mac = 6" "\<forall>b \<in> set mac. b < 256"
  shows "distinct (snd (uuidgen_run uuid_boot cs)) \<and> list_all uuid_v1 (snd (uuidgen_run uuid_boot cs))"
proof -
  have "node_words (uuid_node (Some mac) rnd)"
    using uuid_node_words [of "Some mac" mac] assms(3,4) by (simp add: uuid_node_def)
  from boot_fresh [OF assms(1,2) this] show ?thesis by (simp add: distinct_map)
qed

theorem kern_uuidgen_fresh_witness:
  "let env = \<lparr>env_mac = Some [2, 7, 2, 3, 4, 5], env_random = [], env_clock = \<lparr>tv_sec = 1000000000, tv_nsec = 5\<rparr>, env_seq = 7\<rparr>;
       r = uuidgen_run uuid_boot [(env, 3), (env, 2)]
   in distinct (snd r) \<and> map clock_seq_low (snd r) = [7, 7, 7, 8, 8]"
proof -
  let ?mac = "[2, 7, 2, 3, 4, 5]"
  let ?env = "\<lparr>env_mac = Some ?mac, env_random = [], env_clock = \<lparr>tv_sec = 1000000000, tv_nsec = 5\<rparr>, env_seq = 7\<rparr>"
  have t: "uuid_time (env_clock ?env) = 132192928000000000" unfolding uuid_time_def and_low_bits by simp
  have c: "call_ok (uuid_node (Some ?mac) []) (?env, 3)" "call_ok (uuid_node (Some ?mac) []) (?env, 2)"
    using t by (simp_all add: call_ok_def)
  have "distinct (snd (uuidgen_run uuid_boot [(?env, 3), (?env, 2)]))"
    using kern_uuidgen_fresh [of "[(?env, 3), (?env, 2)]" ?mac "[]"] c by simp
  moreover have "map clock_seq_low (snd (uuidgen_run uuid_boot [(?env, 3), (?env, 2)])) = [7, 7, 7, 8, 8]"
    using t by (simp add: gen_call_seq [OF c(1)] gen_call_seq [OF c(2)] uuid_boot_def next_seq_def upt_rec stamp_fields)
  ultimately show ?thesis by (simp add: Let_def)
qed

text \<open>C37. \<open>kuuid_compare\<close> orders UUIDs by the fields before the node address and answers 0 exactly for equal ones; a null
  pointer counts as the nil UUID, below all others.  UUIDs that differ in the node address only have no order: each is
  reported greater than the other.\<close>

theorem kuuid_compare_order:
  assumes "uuid_ok (mem p)" "uuid_ok (mem q)"
  shows "kuuid_compare mem (Some p) (Some q) = Inr (if uuid_fields (mem p) < uuid_fields (mem q) then - 1
      else if uuid_fields (mem q) < uuid_fields (mem p) then 1 else of_bool (mem p \<noteq> mem q)) \<and>
    (kuuid_compare mem (Some p) (Some q) = Inr 0 \<longleftrightarrow> mem p = mem q) \<and>
    kuuid_compare mem None (Some p) = Inr (if mem p = nil_uuid then 0 else - 1) \<and>
    kuuid_compare mem (Some p) None = Inr (if mem p = nil_uuid then 0 else 1) \<and>
    (uuid_fields (mem p) = uuid_fields (mem q) \<and> node (mem p) \<noteq> node (mem q) \<longrightarrow>
      kuuid_compare mem (Some p) (Some q) = Inr 1 \<and> kuuid_compare mem (Some q) (Some p) = Inr 1)"
  unfolding compare_uuids [of mem p q, OF assms] compare_uuids [of mem q p, OF assms(2,1)] compare_nil [of mem p, OF assms(1)]
  by (auto simp: uuid_eq [of "mem p"] uuid_eq [of "mem q"])

theorem kuuid_compare_order_witness:
  "let mem = (\<lambda>_. nil_uuid)(1 := nil_uuid\<lparr>node := [0, 0, 0, 0, 0, 1]\<rparr>)
   in kuuid_compare mem (Some 0) (Some 1) = Inr 1 \<and> kuuid_compare mem (Some 1) (Some 0) = Inr 1"
proof -
  let ?mem = "(\<lambda>_. nil_uuid)(1 := nil_uuid\<lparr>node := [0, 0, 0, 0, 0, 1]\<rparr>)"
  have "uuid_ok (?mem 0)" "uuid_ok (?mem 1)" by (simp_all add: uuid_ok_def nil_uuid_def UUID_NODE_LEN_def list_all_iff)
  from kuuid_compare_order [of ?mem, OF this] show ?thesis
    by (simp add: Let_def uuid_fields_def) (simp add: nil_uuid_def UUID_NODE_LEN_def numeral_eq_Suc)
qed


end
