(* ===== verification/Qsort.thy ===== *)
theory Qsort
  imports Kern_Prelude "HOL-Library.Multiset"
begin

text \<open>
  The quicksort of \<open>sys/libkern/qsort.c\<close> (Bentley and McIlroy), as \<open>kqsort\<close> and \<open>kqsort_r\<close> use it.  The array is a list
  of elements, and a pointer is the index of an element: the code moves its pointers by whole elements, and swaps whole
  elements.  The pointers \<open>pc\<close> and \<open>pd\<close>, which may come to stand before the first element of the rest, are represented by
  the index behind them.  The comparison function is a parameter; all accesses are checked.
\<close>

section \<open>The code\<close>

definition qs_cmp :: "('a \<Rightarrow> 'a \<Rightarrow> int) \<Rightarrow> 'a list \<Rightarrow> nat \<Rightarrow> nat \<Rightarrow> int kres" where
  "qs_cmp cmp xs i j = rbind (rd xs i) (\<lambda>x. rbind (rd xs j) (\<lambda>y. Inr (cmp x y)))"

definition qs_swap :: "'a list \<Rightarrow> nat \<Rightarrow> nat \<Rightarrow> 'a list kres" where
  "qs_swap xs i j = rbind (rd xs i) (\<lambda>t. rbind (rd xs j) (\<lambda>y. rbind (wr xs i y) (\<lambda>xs. wr xs j t)))"

text \<open>\<open>vecswap\<close> of \<open>k\<close> elements.\<close>

fun vecswap :: "'a list \<Rightarrow> nat \<Rightarrow> nat \<Rightarrow> nat \<Rightarrow> 'a list kres" where
  "vecswap xs i j 0 = Inr xs"
| "vecswap xs i j (Suc k) = rbind (qs_swap xs i j) (\<lambda>xs. vecswap xs (i + 1) (j + 1) k)"

definition med3 :: "('a \<Rightarrow> 'a \<Rightarrow> int) \<Rightarrow> 'a list \<Rightarrow> nat \<Rightarrow> nat \<Rightarrow> nat \<Rightarrow> nat kres" where
  "med3 cmp xs a b c =
     rbind (qs_cmp cmp xs a b) (\<lambda>r.
       if r < 0 then
         rbind (qs_cmp cmp xs b c) (\<lambda>r. if r < 0 then Inr b else rbind (qs_cmp cmp xs a c) (\<lambda>r. Inr (if r < 0 then c else a)))
       else
         rbind (qs_cmp cmp xs b c) (\<lambda>r. if 0 < r then Inr b else rbind (qs_cmp cmp xs a c) (\<lambda>r. Inr (if r < 0 then a else c))))"

text \<open>The insertion sort: the inner loop moves the element at \<open>pl\<close> down, the outer one goes from \<open>pm\<close> up to \<open>e\<close>.\<close>

fun ins_inner :: "('a \<Rightarrow> 'a \<Rightarrow> int) \<Rightarrow> 'a list \<Rightarrow> nat \<Rightarrow> nat \<Rightarrow> 'a list kres" where
  "ins_inner cmp xs a 0 = Inr xs"
| "ins_inner cmp xs a (Suc pl) =
     (if a < Suc pl then
        rbind (qs_cmp cmp xs pl (Suc pl)) (\<lambda>r.
          if 0 < r then rbind (qs_swap xs (Suc pl) pl) (\<lambda>xs. ins_inner cmp xs a pl) else Inr xs)
      else Inr xs)"

function ins_outer :: "('a \<Rightarrow> 'a \<Rightarrow> int) \<Rightarrow> 'a list \<Rightarrow> nat \<Rightarrow> nat \<Rightarrow> nat \<Rightarrow> 'a list kres" where
  "ins_outer cmp xs a pm e =
     (if pm < e then rbind (ins_inner cmp xs a pm) (\<lambda>xs. ins_outer cmp xs a (pm + 1) e) else Inr xs)"
  by pat_completeness auto
termination
  by (relation "measure (\<lambda>(cmp, xs, a, pm, e). e - pm)") auto

definition ins_sort :: "('a \<Rightarrow> 'a \<Rightarrow> int) \<Rightarrow> 'a list \<Rightarrow> nat \<Rightarrow> nat \<Rightarrow> 'a list kres" where
  "ins_sort cmp xs a n = ins_outer cmp xs a (a + 1) (a + n)"

text \<open>The two inner loops of the partition, and the loop around them; \<open>cnt\<close> is \<open>swap_cnt\<close>.\<close>

function part_lo :: "('a \<Rightarrow> 'a \<Rightarrow> int) \<Rightarrow> nat \<Rightarrow> 'a list \<Rightarrow> nat \<Rightarrow> nat \<Rightarrow> nat \<Rightarrow> bool \<Rightarrow> ('a list \<times> nat \<times> nat \<times> bool) kres" where
  "part_lo cmp a xs pa pb pc cnt =
     (if pb < pc then
        rbind (qs_cmp cmp xs pb a) (\<lambda>r.
          if r \<le> 0 then
            if r = 0 then rbind (qs_swap xs pa pb) (\<lambda>xs. part_lo cmp a xs (pa + 1) (pb + 1) pc True)
            else part_lo cmp a xs pa (pb + 1) pc cnt
          else Inr (xs, pa, pb, cnt))
      else Inr (xs, pa, pb, cnt))"
  by pat_completeness auto
termination
  by (relation "measure (\<lambda>(cmp, a, xs, pa, pb, pc, cnt). pc - pb)") auto

function part_hi :: "('a \<Rightarrow> 'a \<Rightarrow> int) \<Rightarrow> nat \<Rightarrow> 'a list \<Rightarrow> nat \<Rightarrow> nat \<Rightarrow> nat \<Rightarrow> bool \<Rightarrow> ('a list \<times> nat \<times> nat \<times> bool) kres" where
  "part_hi cmp a xs pb pc pd cnt =
     (if pb < pc then
        rbind (qs_cmp cmp xs (pc - 1) a) (\<lambda>r.
          if 0 \<le> r then
            if r = 0 then rbind (qs_swap xs (pc - 1) (pd - 1)) (\<lambda>xs. part_hi cmp a xs pb (pc - 1) (pd - 1) True)
            else part_hi cmp a xs pb (pc - 1) pd cnt
          else Inr (xs, pc, pd, cnt))
      else Inr (xs, pc, pd, cnt))"
  by pat_completeness auto
termination
  by (relation "measure (\<lambda>(cmp, a, xs, pb, pc, pd, cnt). pc - pb)") auto

declare ins_outer.simps [simp del] part_lo.simps [simp del] part_hi.simps [simp del]

lemma part_lo_pos: "part_lo cmp a xs pa pb pc cnt = Inr (xs', pa', pb', cnt') \<Longrightarrow> pa \<le> pa' \<and> pb \<le> pb' \<and> pb' \<le> max pb pc"
proof (induction cmp a xs pa pb pc cnt rule: part_lo.induct)
  case (1 cmp a xs pa pb pc cnt)
  show ?case
  proof (cases "pb < pc")
    case True
    with 1(3) obtain r where r: "qs_cmp cmp xs pb a = Inr r" by (subst (asm) part_lo.simps) (auto simp: rbind_eq_Inr)
    consider "0 < r" | "r = 0" | "r < 0" by linarith
    then show ?thesis
    proof cases
      case 1
      with \<open>part_lo cmp a xs pa pb pc cnt = _\<close> True r show ?thesis by (subst (asm) part_lo.simps) simp
    next
      case 2
      with \<open>part_lo cmp a xs pa pb pc cnt = _\<close> True r obtain ys where "qs_swap xs pa pb = Inr ys"
        "part_lo cmp a ys (pa + 1) (pb + 1) pc True = Inr (xs', pa', pb', cnt')"
        by (subst (asm) part_lo.simps) (auto simp: rbind_eq_Inr)
      with "1.IH"(1) [OF True r _ 2 this] 2 True show ?thesis by simp
    next
      case 3
      with \<open>part_lo cmp a xs pa pb pc cnt = _\<close> True r have "part_lo cmp a xs pa (pb + 1) pc cnt = Inr (xs', pa', pb', cnt')"
        by (subst (asm) part_lo.simps) simp
      with "1.IH"(2) [OF True r _ _ this] 3 True show ?thesis by simp
    qed
  next
    case False
    then show ?thesis using 1(3) by (subst (asm) part_lo.simps) simp
  qed
qed

lemma part_hi_pos: "part_hi cmp a xs pb pc pd cnt = Inr (xs', pc', pd', cnt') \<Longrightarrow> pd' \<le> pd \<and> pc' \<le> pc \<and> min pb pc \<le> pc'"
proof (induction cmp a xs pb pc pd cnt rule: part_hi.induct)
  case (1 cmp a xs pb pc pd cnt)
  show ?case
  proof (cases "pb < pc")
    case True
    with 1(3) obtain r where r: "qs_cmp cmp xs (pc - 1) a = Inr r" by (subst (asm) part_hi.simps) (auto simp: rbind_eq_Inr)
    consider "r < 0" | "r = 0" | "0 < r" by linarith
    then show ?thesis
    proof cases
      case 1
      with \<open>part_hi cmp a xs pb pc pd cnt = _\<close> True r show ?thesis by (subst (asm) part_hi.simps) simp
    next
      case 2
      with \<open>part_hi cmp a xs pb pc pd cnt = _\<close> True r obtain ys where "qs_swap xs (pc - 1) (pd - 1) = Inr ys"
        "part_hi cmp a ys pb (pc - 1) (pd - 1) True = Inr (xs', pc', pd', cnt')"
        by (subst (asm) part_hi.simps) (auto simp: rbind_eq_Inr)
      with "1.IH"(1) [OF True r _ 2 this] 2 True show ?thesis by auto
    next
      case 3
      with \<open>part_hi cmp a xs pb pc pd cnt = _\<close> True r have "part_hi cmp a xs pb (pc - 1) pd cnt = Inr (xs', pc', pd', cnt')"
        by (subst (asm) part_hi.simps) simp
      with "1.IH"(2) [OF True r _ _ this] 3 True show ?thesis by auto
    qed
  next
    case False
    then show ?thesis using 1(3) by (subst (asm) part_hi.simps) simp
  qed
qed

function part_loop :: "('a \<Rightarrow> 'a \<Rightarrow> int) \<Rightarrow> nat \<Rightarrow> 'a list \<Rightarrow> nat \<Rightarrow> nat \<Rightarrow> nat \<Rightarrow> nat \<Rightarrow> bool
    \<Rightarrow> ('a list \<times> nat \<times> nat \<times> nat \<times> nat \<times> bool) kres" where
  "part_loop cmp a xs pa pb pc pd cnt =
     rbind (part_lo cmp a xs pa pb pc cnt) (\<lambda>(xs, pa, pb, cnt).
     rbind (part_hi cmp a xs pb pc pd cnt) (\<lambda>(xs, pc, pd, cnt).
       if pc \<le> pb then Inr (xs, pa, pb, pc, pd, cnt)
       else rbind (qs_swap xs pb (pc - 1)) (\<lambda>xs. part_loop cmp a xs pa (pb + 1) (pc - 1) pd True)))"
  by pat_completeness auto
termination
  by (relation "measure (\<lambda>(cmp, a, xs, pa, pb, pc, pd, cnt). pc - pb)") (auto dest!: part_lo_pos part_hi_pos)

declare part_loop.simps [simp del]

lemma part_loop_pos: "part_loop cmp a xs pa pb pc pd cnt = Inr (xs', pa', pb', pc', pd', cnt') \<Longrightarrow>
  pa \<le> pa' \<and> pb' \<le> max pb pc \<and> pd' \<le> pd \<and> min pb pc \<le> pc'"
proof (induction cmp a xs pa pb pc pd cnt rule: part_loop.induct)
  case (1 cmp a xs pa pb pc pd cnt)
  from 1(2) obtain xs1 pa1 pb1 cnt1 xs2 pc2 pd2 cnt2 where
    lo: "part_lo cmp a xs pa pb pc cnt = Inr (xs1, pa1, pb1, cnt1)" and
    hi: "part_hi cmp a xs1 pb1 pc pd cnt1 = Inr (xs2, pc2, pd2, cnt2)"
    by (subst (asm) part_loop.simps) (auto simp: rbind_eq_Inr)
  show ?case
  proof (cases "pc2 \<le> pb1")
    case True
    then show ?thesis
      using 1(2) lo hi part_lo_pos [OF lo] part_hi_pos [OF hi] by (subst (asm) part_loop.simps) auto
  next
    case False
    with 1(2) lo hi obtain xs3 where s: "qs_swap xs2 pb1 (pc2 - 1) = Inr xs3"
      and r: "part_loop cmp a xs3 pa1 (pb1 + 1) (pc2 - 1) pd2 True = Inr (xs', pa', pb', pc', pd', cnt')"
      by (subst (asm) part_loop.simps) (auto simp: rbind_eq_Inr)
    have "pa1 \<le> pa' \<and> pb' \<le> max (pb1 + 1) (pc2 - 1) \<and> pd' \<le> pd2 \<and> min (pb1 + 1) (pc2 - 1) \<le> pc'"
      using 1(1) [OF lo refl refl refl hi refl refl refl False s r] .
    then show ?thesis using False part_lo_pos [OF lo] part_hi_pos [OF hi] by auto
  qed
qed

text \<open>The choice of the pivot.\<close>

definition qs_pivot :: "('a \<Rightarrow> 'a \<Rightarrow> int) \<Rightarrow> 'a list \<Rightarrow> nat \<Rightarrow> nat \<Rightarrow> nat kres" where
  "qs_pivot cmp xs a n =
     (let pm = a + n div 2
      in if 7 < n then
           let pl = a; pn = a + (n - 1)
           in if 40 < n then
                let d = n div 8
                in rbind (med3 cmp xs pl (pl + d) (pl + 2 * d)) (\<lambda>pl.
                   rbind (med3 cmp xs (pm - d) pm (pm + d)) (\<lambda>pm.
                   rbind (med3 cmp xs (pn - 2 * d) (pn - d) pn) (\<lambda>pn. med3 cmp xs pl pm pn)))
              else med3 cmp xs pl pm pn
         else Inr pm)"

function kqsort :: "('a \<Rightarrow> 'a \<Rightarrow> int) \<Rightarrow> 'a list \<Rightarrow> nat \<Rightarrow> nat \<Rightarrow> 'a list kres" where
  "kqsort cmp xs a n =
     (if n < 7 then ins_sort cmp xs a n
      else
        rbind (qs_pivot cmp xs a n) (\<lambda>pm.
        rbind (qs_swap xs a pm) (\<lambda>xs.
        rbind (part_loop cmp a xs (a + 1) (a + 1) (a + n) (a + n) False) (\<lambda>(xs, pa, pb, pc, pd, cnt).
          if \<not> cnt then ins_sort cmp xs a n
          else
            let pn = a + n; r = min (pa - a) (pb - pa)
            in rbind (vecswap xs a (pb - r) r) (\<lambda>xs.
               let r = min (pd - pc) (pn - pd)
               in rbind (vecswap xs pb (pn - r) r) (\<lambda>xs.
                  rbind (if 1 < pb - pa then kqsort cmp xs a (pb - pa) else Inr xs) (\<lambda>xs.
                    if 1 < pd - pc then kqsort cmp xs (pn - (pd - pc)) (pd - pc) else Inr xs)))))))"
  by pat_completeness auto
termination
  by (relation "measure (\<lambda>(cmp, xs, a, n). n)") (auto dest!: part_loop_pos)

declare kqsort.simps [simp del]

text \<open>\<open>kqsort_r\<close> passes its argument \<open>thunk\<close> on to the comparison function.\<close>

definition kqsort_r :: "'a list \<Rightarrow> nat \<Rightarrow> nat \<Rightarrow> 't \<Rightarrow> ('t \<Rightarrow> 'a \<Rightarrow> 'a \<Rightarrow> int) \<Rightarrow> 'a list kres" where
  "kqsort_r xs a n thunk cmp = kqsort (cmp thunk) xs a n"

end
