(* ===== verification/Qsort_Spec.thy ===== *)
theory Qsort_Spec
  imports Qsort
begin

text \<open>
  The quicksort sorts: for a comparison function that orders its arguments, the segment comes out sorted, is a
  permutation of what it was, and nothing outside it changes.
\<close>

section \<open>The order\<close>

definition cmp_ok :: "('a \<Rightarrow> 'a \<Rightarrow> int) \<Rightarrow> bool" where
  "cmp_ok cmp \<longleftrightarrow> (\<forall>x y. cmp x y < 0 \<longleftrightarrow> 0 < cmp y x) \<and> (\<forall>x y z. cmp x y \<le> 0 \<longrightarrow> cmp y z \<le> 0 \<longrightarrow> cmp x z \<le> 0)"

lemma cmp_sym: "cmp_ok cmp \<Longrightarrow> cmp x y < 0 \<longleftrightarrow> 0 < cmp y x"
  by (simp add: cmp_ok_def)

lemma cmp_trans: "cmp_ok cmp \<Longrightarrow> cmp x y \<le> 0 \<Longrightarrow> cmp y z \<le> 0 \<Longrightarrow> cmp x z \<le> 0"
  unfolding cmp_ok_def by blast

lemma cmp_refl: "cmp_ok cmp \<Longrightarrow> cmp x x = 0"
  using cmp_sym [of cmp x x] by linarith

lemma cmp_flip: "cmp_ok cmp \<Longrightarrow> 0 \<le> cmp x y \<longleftrightarrow> cmp y x \<le> 0"
  using cmp_sym [of cmp x y] cmp_sym [of cmp y x] by linarith

lemma cmp_around: "cmp_ok cmp \<Longrightarrow> cmp x v \<le> 0 \<Longrightarrow> 0 \<le> cmp y v \<Longrightarrow> cmp x y \<le> 0"
  using cmp_trans [of cmp x v y] cmp_flip [of cmp y v] by simp

definition sorted_seg :: "('a \<Rightarrow> 'a \<Rightarrow> int) \<Rightarrow> nat \<Rightarrow> nat \<Rightarrow> 'a list \<Rightarrow> bool" where
  "sorted_seg cmp a e xs \<longleftrightarrow> (\<forall>i j. a \<le> i \<longrightarrow> i < j \<longrightarrow> j < e \<longrightarrow> cmp (xs ! i) (xs ! j) \<le> 0)"

lemma sorted_seg_le1: "e \<le> a + 1 \<Longrightarrow> sorted_seg cmp a e xs"
  by (auto simp: sorted_seg_def)

section \<open>Permutations of a segment\<close>

definition perm_seg :: "nat \<Rightarrow> nat \<Rightarrow> 'a list \<Rightarrow> 'a list \<Rightarrow> bool" where
  "perm_seg a e xs ys \<longleftrightarrow> length ys = length xs \<and> mset ys = mset xs \<and> (\<forall>i. i < a \<or> e \<le> i \<longrightarrow> i < length xs \<longrightarrow> ys ! i = xs ! i)"

lemma perm_seg_refl [simp, intro]: "perm_seg a e xs xs"
  by (simp add: perm_seg_def)

lemma perm_seg_trans: "perm_seg a e xs ys \<Longrightarrow> perm_seg a e ys zs \<Longrightarrow> perm_seg a e xs zs"
  by (simp add: perm_seg_def)

lemma perm_seg_mono: "perm_seg b d xs ys \<Longrightarrow> a \<le> b \<Longrightarrow> d \<le> e \<Longrightarrow> perm_seg a e xs ys"
  by (simp add: perm_seg_def)

lemma perm_seg_length: "perm_seg a e xs ys \<Longrightarrow> length ys = length xs"
  by (simp add: perm_seg_def)

lemma perm_seg_nth: "perm_seg a e xs ys \<Longrightarrow> i < a \<or> e \<le> i \<Longrightarrow> i < length xs \<Longrightarrow> ys ! i = xs ! i"
  unfolding perm_seg_def by blast

lemma perm_seg_mset:
  assumes "perm_seg a e xs ys" "a \<le> e" "e \<le> length xs"
  shows "mset (take (e - a) (drop a ys)) = mset (take (e - a) (drop a xs))"
proof -
  have l: "length ys = length xs" by (rule perm_seg_length [OF assms(1)])
  have t: "take a ys = take a xs" using assms l by (intro nth_equalityI) (auto simp: perm_seg_nth)
  have d: "drop e ys = drop e xs" using assms l by (intro nth_equalityI) (auto simp: perm_seg_nth)
  have s: "zs = take a zs @ take (e - a) (drop a zs) @ drop e zs" for zs :: "'a list"
    using append_take_drop_id [of a zs] append_take_drop_id [of "e - a" "drop a zs"] assms(2) by simp
  have "mset ys = mset (take a ys) + mset (take (e - a) (drop a ys)) + mset (drop e ys)"
    by (subst s) (simp only: mset_append add.assoc)
  moreover have "mset xs = mset (take a xs) + mset (take (e - a) (drop a xs)) + mset (drop e xs)"
    by (subst s) (simp only: mset_append add.assoc)
  moreover have "mset ys = mset xs" using assms(1) by (simp add: perm_seg_def)
  ultimately show ?thesis unfolding t d by simp
qed

lemma perm_seg_all:
  assumes "perm_seg a e xs ys" "e \<le> length xs" "\<And>i. a \<le> i \<Longrightarrow> i < e \<Longrightarrow> P (xs ! i)" "a \<le> i" "i < e"
  shows "P (ys ! i)"
proof -
  have l: "length ys = length xs" by (rule perm_seg_length [OF assms(1)])
  have m: "set (take (e - a) (drop a ys)) = set (take (e - a) (drop a xs))"
    using perm_seg_mset [OF assms(1) _ assms(2)] assms(4,5) by (metis less_imp_le_nat le_less_trans mset_eq_setD)
  have "take (e - a) (drop a ys) ! (i - a) = ys ! i" using assms l by simp
  moreover have "i - a < length (take (e - a) (drop a ys))" using assms l by simp
  ultimately have "ys ! i \<in> set (take (e - a) (drop a xs))" unfolding m [symmetric] by (metis nth_mem)
  then obtain k where "k < e - a" "ys ! i = take (e - a) (drop a xs) ! k" using assms(2) by (auto simp: in_set_conv_nth)
  then show ?thesis using assms(2) assms(3) [of "a + k"] by simp
qed

lemma perm_seg_sorted:
  assumes "perm_seg g e xs ys" "sorted_seg cmp a l xs" "l \<le> g" "l \<le> length xs"
  shows "sorted_seg cmp a l ys"
  using assms(2) perm_seg_nth [OF assms(1)] assms(3,4) by (simp add: sorted_seg_def)

lemma swap_spec: "i < length xs \<Longrightarrow> j < length xs \<Longrightarrow> qs_swap xs i j = Inr (xs[i := xs ! j, j := xs ! i])"
  by (simp add: qs_swap_def)

lemma swap_nth: "i < length xs \<Longrightarrow> j < length xs \<Longrightarrow> k < length xs \<Longrightarrow>
    xs[i := xs ! j, j := xs ! i] ! k = (if k = j then xs ! i else if k = i then xs ! j else xs ! k)"
  by (simp add: nth_list_update)

lemma swap_perm: "a \<le> i \<Longrightarrow> i < e \<Longrightarrow> a \<le> j \<Longrightarrow> j < e \<Longrightarrow> e \<le> length xs \<Longrightarrow> perm_seg a e xs (xs[i := xs ! j, j := xs ! i])"
  by (auto simp: perm_seg_def mset_swap nth_list_update)

lemma cmp_spec: "i < length xs \<Longrightarrow> j < length xs \<Longrightarrow> qs_cmp cmp xs i j = Inr (cmp (xs ! i) (xs ! j))"
  by (simp add: qs_cmp_def)

section \<open>Insertion sort\<close>

lemma ins_inner_spec:
  assumes "cmp_ok cmp"
  shows "a \<le> pl \<Longrightarrow> pl \<le> pm \<Longrightarrow> pm < length xs \<Longrightarrow>
    (\<forall>i j. a \<le> i \<longrightarrow> i < j \<longrightarrow> j \<le> pm \<longrightarrow> i \<noteq> pl \<longrightarrow> j \<noteq> pl \<longrightarrow> cmp (xs ! i) (xs ! j) \<le> 0) \<Longrightarrow>
    (\<forall>j. pl < j \<longrightarrow> j \<le> pm \<longrightarrow> cmp (xs ! pl) (xs ! j) \<le> 0) \<Longrightarrow>
    \<exists>ys. ins_inner cmp xs a pl = Inr ys \<and> perm_seg a (pm + 1) xs ys \<and> sorted_seg cmp a (pm + 1) ys"
proof (induction pl arbitrary: xs)
  case 0
  have "cmp (xs ! i) (xs ! j) \<le> 0" if "a \<le> i" "i < j" "j < pm + 1" for i j
    using 0(4) [rule_format, of i j] 0(5) [rule_format, of j] that by (cases "i = 0") auto
  then show ?case by (auto simp: sorted_seg_def)
next
  case (Suc pl)
  note rest = Suc.prems(4) [rule_format] and above = Suc.prems(5) [rule_format]
  have fin: "sorted_seg cmp a (pm + 1) xs" if below: "\<And>i. a \<le> i \<Longrightarrow> i \<le> pl \<Longrightarrow> cmp (xs ! i) (xs ! Suc pl) \<le> 0"
    unfolding sorted_seg_def
  proof (intro allI impI)
    fix i j assume "a \<le> i" "i < j" "j < pm + 1"
    then show "cmp (xs ! i) (xs ! j) \<le> 0"
      using rest [of i j] above [of j] below [of i] by (cases "i = Suc pl"; cases "j = Suc pl") auto
  qed
  show ?case
  proof (cases "a < Suc pl")
    case False
    then have "sorted_seg cmp a (pm + 1) xs" by (intro fin) simp
    with False show ?thesis by auto
  next
    case True
    let ?c = "cmp (xs ! pl) (xs ! Suc pl)"
    have c: "qs_cmp cmp xs pl (Suc pl) = Inr ?c" using Suc.prems by (intro cmp_spec) auto
    show ?thesis
    proof (cases "0 < ?c")
      case False
      have "sorted_seg cmp a (pm + 1) xs"
      proof (rule fin)
        fix i assume "a \<le> i" "i \<le> pl"
        then show "cmp (xs ! i) (xs ! Suc pl) \<le> 0"
          using False rest [of i pl] cmp_trans [OF assms, of "xs ! i" "xs ! pl" "xs ! Suc pl"] Suc.prems(2)
          by (cases "i = pl") auto
      qed
      with False True c show ?thesis by auto
    next
      case pos: True
      let ?ys = "xs[Suc pl := xs ! pl, pl := xs ! Suc pl]"
      have l: "pl < length xs" "Suc pl < length xs" using Suc.prems by auto
      have n: "?ys ! k = (if k = pl then xs ! Suc pl else if k = Suc pl then xs ! pl else xs ! k)" if "k \<le> pm" for k
        using swap_nth [OF l(2,1), of k] that Suc.prems(3) by simp
      have lt: "cmp (xs ! Suc pl) (xs ! pl) \<le> 0" using pos cmp_sym [OF assms, of "xs ! Suc pl" "xs ! pl"] by simp
      have p1: "cmp (?ys ! i) (?ys ! j) \<le> 0" if ij: "a \<le> i" "i < j" "j \<le> pm" "i \<noteq> pl" "j \<noteq> pl" for i j
      proof -
        have n2: "?ys ! i = (if i = Suc pl then xs ! pl else xs ! i)" "?ys ! j = (if j = Suc pl then xs ! pl else xs ! j)"
          using n [of i] n [of j] ij by simp_all
        consider "i = Suc pl" | "j = Suc pl" "i < pl" | "i \<noteq> Suc pl" "j \<noteq> Suc pl" using ij by linarith
        then show ?thesis
        proof cases
          case 1
          then show ?thesis unfolding n2 using rest [of pl j] ij True by simp
        next
          case 2
          then show ?thesis unfolding n2 using rest [of i pl] ij Suc.prems(2) by simp
        next
          case 3
          then show ?thesis unfolding n2 using rest [of i j] ij by simp
        qed
      qed
      have p2: "cmp (?ys ! pl) (?ys ! j) \<le> 0" if ij: "pl < j" "j \<le> pm" for j
      proof (cases "j = Suc pl")
        case True
        then show ?thesis using lt n [of pl] n [of j] ij by simp
      next
        case False
        then show ?thesis using above [of j] n [of pl] n [of j] ij by simp
      qed
      have "\<exists>zs. ins_inner cmp ?ys a pl = Inr zs \<and> perm_seg a (pm + 1) ?ys zs \<and> sorted_seg cmp a (pm + 1) zs"
        using p1 p2 True Suc.prems(2,3) by (intro Suc.IH) auto
      then obtain zs where z: "ins_inner cmp ?ys a pl = Inr zs" "perm_seg a (pm + 1) ?ys zs" "sorted_seg cmp a (pm + 1) zs" by blast
      have "perm_seg a (pm + 1) xs ?ys" using True Suc.prems by (intro swap_perm) auto
      then show ?thesis using z True pos c swap_spec [OF l(2,1)] perm_seg_trans by (intro exI [of _ zs]) auto
    qed
  qed
qed

lemma ins_outer_spec:
  assumes "cmp_ok cmp"
  shows "a < pm \<Longrightarrow> pm \<le> e \<Longrightarrow> e \<le> length xs \<Longrightarrow> sorted_seg cmp a pm xs \<Longrightarrow>
    \<exists>ys. ins_outer cmp xs a pm e = Inr ys \<and> perm_seg a e xs ys \<and> sorted_seg cmp a e ys"
proof (induction "e - pm" arbitrary: xs pm)
  case 0
  then show ?case by (subst ins_outer.simps) auto
next
  case (Suc d)
  have s: "\<forall>i j. a \<le> i \<longrightarrow> i < j \<longrightarrow> j \<le> pm \<longrightarrow> i \<noteq> pm \<longrightarrow> j \<noteq> pm \<longrightarrow> cmp (xs ! i) (xs ! j) \<le> 0"
    using Suc.prems(4) by (auto simp: sorted_seg_def)
  have pm: "pm < e" "pm < length xs" using Suc.hyps(2) Suc.prems by linarith+
  obtain ys where y: "ins_inner cmp xs a pm = Inr ys" "perm_seg a (pm + 1) xs ys" "sorted_seg cmp a (pm + 1) ys"
    using ins_inner_spec [OF assms, of a pm pm xs] s pm Suc.prems(1) by auto
  have d: "d = e - (pm + 1)" using Suc.hyps(2) by linarith
  have "length ys = length xs" by (rule perm_seg_length [OF y(2)])
  then obtain zs where z: "ins_outer cmp ys a (pm + 1) e = Inr zs" "perm_seg a e ys zs" "sorted_seg cmp a e zs"
    using Suc.hyps(1) [OF d, of ys] pm Suc.prems(1,3) y(3) by auto
  have "perm_seg a e xs ys" using perm_seg_mono [OF y(2)] pm by simp
  then have "perm_seg a e xs zs" using z(2) by (rule perm_seg_trans)
  then show ?case using y(1) z(1,3) pm by (subst ins_outer.simps) simp
qed

lemma ins_sort_spec:
  assumes "cmp_ok cmp" "a + n \<le> length xs"
  shows "\<exists>ys. ins_sort cmp xs a n = Inr ys \<and> perm_seg a (a + n) xs ys \<and> sorted_seg cmp a (a + n) ys"
proof (cases n)
  case 0
  then show ?thesis by (auto simp: ins_sort_def ins_outer.simps sorted_seg_def)
next
  case (Suc m)
  have "sorted_seg cmp a (a + 1) xs" by (auto simp: sorted_seg_def)
  then show ?thesis using ins_outer_spec [OF assms(1), of a "a + 1" "a + n" xs] assms(2) Suc by (simp add: ins_sort_def)
qed

section \<open>Partition\<close>

text \<open>
  While the partition runs, the elements before \<open>pa\<close> and from \<open>pd\<close> on equal the pivot, those from \<open>pa\<close> to \<open>pb\<close> are
  less, those from \<open>pc\<close> to \<open>pd\<close> greater.
\<close>

definition part_inv :: "('a \<Rightarrow> 'a \<Rightarrow> int) \<Rightarrow> nat \<Rightarrow> nat \<Rightarrow> 'a \<Rightarrow> 'a list \<Rightarrow> nat \<Rightarrow> nat \<Rightarrow> nat \<Rightarrow> nat \<Rightarrow> bool" where
  "part_inv cmp a e v xs pa pb pc pd \<longleftrightarrow>
     a < pa \<and> pa \<le> pb \<and> pb \<le> pc \<and> pc \<le> pd \<and> pd \<le> e \<and> e \<le> length xs \<and> xs ! a = v \<and>
     (\<forall>i. a \<le> i \<longrightarrow> i < pa \<longrightarrow> cmp (xs ! i) v = 0) \<and> (\<forall>i. pa \<le> i \<longrightarrow> i < pb \<longrightarrow> cmp (xs ! i) v < 0) \<and>
     (\<forall>i. pc \<le> i \<longrightarrow> i < pd \<longrightarrow> 0 < cmp (xs ! i) v) \<and> (\<forall>i. pd \<le> i \<longrightarrow> i < e \<longrightarrow> cmp (xs ! i) v = 0)"

lemma part_inv_pos:
  "part_inv cmp a e v xs pa pb pc pd \<Longrightarrow> a < pa \<and> pa \<le> pb \<and> pb \<le> pc \<and> pc \<le> pd \<and> pd \<le> e \<and> e \<le> length xs \<and> xs ! a = v"
  by (simp add: part_inv_def)

lemma part_inv_eq: "part_inv cmp a e v xs pa pb pc pd \<Longrightarrow> a \<le> i \<Longrightarrow> i < pa \<Longrightarrow> cmp (xs ! i) v = 0"
  and part_inv_less: "part_inv cmp a e v xs pa pb pc pd \<Longrightarrow> pa \<le> i \<Longrightarrow> i < pb \<Longrightarrow> cmp (xs ! i) v < 0"
  and part_inv_greater: "part_inv cmp a e v xs pa pb pc pd \<Longrightarrow> pc \<le> i \<Longrightarrow> i < pd \<Longrightarrow> 0 < cmp (xs ! i) v"
  and part_inv_eq2: "part_inv cmp a e v xs pa pb pc pd \<Longrightarrow> pd \<le> i \<Longrightarrow> i < e \<Longrightarrow> cmp (xs ! i) v = 0"
  by (simp_all add: part_inv_def)

lemma part_invI:
  assumes "a < pa" "pa \<le> pb" "pb \<le> pc" "pc \<le> pd" "pd \<le> e" "e \<le> length xs" "xs ! a = v"
    and "\<And>i. a \<le> i \<Longrightarrow> i < pa \<Longrightarrow> cmp (xs ! i) v = 0" "\<And>i. pa \<le> i \<Longrightarrow> i < pb \<Longrightarrow> cmp (xs ! i) v < 0"
    and "\<And>i. pc \<le> i \<Longrightarrow> i < pd \<Longrightarrow> 0 < cmp (xs ! i) v" "\<And>i. pd \<le> i \<Longrightarrow> i < e \<Longrightarrow> cmp (xs ! i) v = 0"
  shows "part_inv cmp a e v xs pa pb pc pd"
  using assms by (simp add: part_inv_def)

lemma part_inv_start:
  assumes "cmp_ok cmp" "a < e" "e \<le> length xs"
  shows "part_inv cmp a e (xs ! a) xs (a + 1) (a + 1) e e"
proof (rule part_invI)
  fix i assume "a \<le> i" "i < a + 1"
  then have "i = a" by simp
  then show "cmp (xs ! i) (xs ! a) = 0" using cmp_refl [OF assms(1)] by simp
qed (use assms in auto)

lemma part_lo_spec:
  "part_inv cmp a e v xs pa pb pc pd \<Longrightarrow>
   \<exists>ys pa' pb' cnt'. part_lo cmp a xs pa pb pc cnt = Inr (ys, pa', pb', cnt') \<and> part_inv cmp a e v ys pa' pb' pc pd \<and>
     perm_seg a e xs ys \<and> (pb' < pc \<longrightarrow> 0 < cmp (ys ! pb') v)"
proof (induction cmp a xs pa pb pc cnt rule: part_lo.induct)
  case (1 cmp a xs pa pb pc cnt)
  note inv = "1.prems" and p = part_inv_pos [OF "1.prems"]
  show ?case
  proof (cases "pb < pc")
    case False
    then show ?thesis using inv by (subst part_lo.simps) auto
  next
    case True
    let ?r = "cmp (xs ! pb) v"
    have c: "qs_cmp cmp xs pb a = Inr ?r" using p True by (simp add: cmp_spec)
    consider "0 < ?r" | "?r = 0" | "?r < 0" by linarith
    then show ?thesis
    proof cases
      case 1
      then show ?thesis using inv True c by (subst part_lo.simps) auto
    next
      case 2
      let ?ys = "xs[pa := xs ! pb, pb := xs ! pa]"
      have l: "pa < length xs" "pb < length xs" using p True by linarith+
      have n: "?ys ! k = (if k = pb then xs ! pa else if k = pa then xs ! pb else xs ! k)" if "k < e" for k
        using swap_nth [OF l, of k] that p by simp
      have "part_inv cmp a e v ?ys (pa + 1) (pb + 1) pc pd"
      proof (rule part_invI)
        show "?ys ! a = v" using n [of a] p True by simp
      next
        fix i assume "a \<le> i" "i < pa + 1"
        then show "cmp (?ys ! i) v = 0" using n [of i] 2 part_inv_eq [OF inv, of i] p True by (cases "i = pa") auto
      next
        fix i assume "pa + 1 \<le> i" "i < pb + 1"
        then show "cmp (?ys ! i) v < 0" using n [of i] part_inv_less [OF inv, of i] part_inv_less [OF inv, of pa] p True
          by (cases "i = pb") auto
      qed (use n p True part_inv_greater [OF inv] part_inv_eq2 [OF inv] in auto)
      moreover have s: "qs_swap xs pa pb = Inr ?ys" by (rule swap_spec [OF l])
      ultimately obtain zs pa' pb' cnt' where z: "part_lo cmp a ?ys (pa + 1) (pb + 1) pc True = Inr (zs, pa', pb', cnt')"
        "part_inv cmp a e v zs pa' pb' pc pd" "perm_seg a e ?ys zs" "pb' < pc \<longrightarrow> 0 < cmp (zs ! pb') v"
        using "1.IH"(1) [OF True c _ 2 s] 2 by auto
      have "perm_seg a e xs ?ys" using p True by (intro swap_perm) auto
      then have "perm_seg a e xs zs" using z(3) by (rule perm_seg_trans)
      moreover have "part_lo cmp a xs pa pb pc cnt = Inr (zs, pa', pb', cnt')"
        using True c 2 s z(1) by (subst part_lo.simps) simp
      ultimately show ?thesis using z by blast
    next
      case 3
      have "part_inv cmp a e v xs pa (pb + 1) pc pd"
      proof (rule part_invI)
        fix i assume "pa \<le> i" "i < pb + 1"
        then show "cmp (xs ! i) v < 0" using 3 part_inv_less [OF inv, of i] by (cases "i = pb") auto
      qed (use p True part_inv_eq [OF inv] part_inv_greater [OF inv] part_inv_eq2 [OF inv] in auto)
      then obtain zs pa' pb' cnt' where z: "part_lo cmp a xs pa (pb + 1) pc cnt = Inr (zs, pa', pb', cnt')"
        "part_inv cmp a e v zs pa' pb' pc pd" "perm_seg a e xs zs" "pb' < pc \<longrightarrow> 0 < cmp (zs ! pb') v"
        using "1.IH"(2) [OF True c] 3 by auto
      have "part_lo cmp a xs pa pb pc cnt = Inr (zs, pa', pb', cnt')"
        using True c 3 z(1) by (subst part_lo.simps) simp
      then show ?thesis using z by blast
    qed
  qed
qed

lemma part_hi_spec:
  "part_inv cmp a e v xs pa pb pc pd \<Longrightarrow>
   \<exists>ys pc' pd' cnt'. part_hi cmp a xs pb pc pd cnt = Inr (ys, pc', pd', cnt') \<and> part_inv cmp a e v ys pa pb pc' pd' \<and>
     perm_seg a e xs ys \<and> (\<forall>i. i \<le> pb \<longrightarrow> i < pc' \<longrightarrow> ys ! i = xs ! i) \<and> (pb < pc' \<longrightarrow> cmp (ys ! (pc' - 1)) v < 0)"
proof (induction cmp a xs pb pc pd cnt rule: part_hi.induct)
  case (1 cmp a xs pb pc pd cnt)
  note inv = "1.prems" and p = part_inv_pos [OF "1.prems"]
  show ?case
  proof (cases "pb < pc")
    case False
    then show ?thesis using inv by (subst part_hi.simps) auto
  next
    case True
    let ?r = "cmp (xs ! (pc - 1)) v"
    have "pc - 1 < length xs" "a < length xs" using p True by linarith+
    then have c: "qs_cmp cmp xs (pc - 1) a = Inr ?r" using cmp_spec p by metis
    consider "?r < 0" | "?r = 0" | "0 < ?r" by linarith
    then show ?thesis
    proof cases
      case 1
      then show ?thesis using inv True c by (subst part_hi.simps) auto
    next
      case 2
      let ?ys = "xs[pc - 1 := xs ! (pd - 1), pd - 1 := xs ! (pc - 1)]"
      have l: "pc - 1 < length xs" "pd - 1 < length xs" using p True by linarith+
      have q: "a < pc - 1" "a < pd - 1" "pb \<le> pc - 1" "pc - 1 \<le> pd - 1" "pd - 1 < e" "pc - 1 < pc" "pd - 1 < pd" using p True by linarith+
      have n: "?ys ! k = (if k = pd - 1 then xs ! (pc - 1) else if k = pc - 1 then xs ! (pd - 1) else xs ! k)" if "k < e" for k
        using swap_nth [OF l, of k] that p by simp
      have "part_inv cmp a e v ?ys pa pb (pc - 1) (pd - 1)"
      proof (rule part_invI)
        show "?ys ! a = v" using n [of a] p q by simp
      next
        fix i assume "pc - 1 \<le> i" "i < pd - 1"
        then show "0 < cmp (?ys ! i) v" using n [of i] part_inv_greater [OF inv, of i] part_inv_greater [OF inv, of "pd - 1"] p q
          by (cases "i = pc - 1") auto
      next
        fix i assume "pd - 1 \<le> i" "i < e"
        then show "cmp (?ys ! i) v = 0" using n [of i] 2 part_inv_eq2 [OF inv, of i] p q by (cases "i = pd - 1") auto
      qed (use n p q part_inv_eq [OF inv] part_inv_less [OF inv] in auto)
      moreover have s: "qs_swap xs (pc - 1) (pd - 1) = Inr ?ys" by (rule swap_spec [OF l])
      ultimately obtain zs pc' pd' cnt' where z: "part_hi cmp a ?ys pb (pc - 1) (pd - 1) True = Inr (zs, pc', pd', cnt')"
        "part_inv cmp a e v zs pa pb pc' pd'" "perm_seg a e ?ys zs" "\<forall>i. i \<le> pb \<longrightarrow> i < pc' \<longrightarrow> zs ! i = ?ys ! i"
        "pb < pc' \<longrightarrow> cmp (zs ! (pc' - 1)) v < 0"
        using "1.IH"(1) [OF True c _ 2 s] 2 by auto
      have "perm_seg a e xs ?ys" using p q by (intro swap_perm) auto
      then have "perm_seg a e xs zs" using z(3) by (rule perm_seg_trans)
      moreover have h: "part_hi cmp a xs pb pc pd cnt = Inr (zs, pc', pd', cnt')"
        using True c 2 s z(1) by (subst part_hi.simps) simp
      moreover have "zs ! i = xs ! i" if "i \<le> pb" "i < pc'" for i
      proof -
        have "i < pc - 1" "i < pd - 1" "i < e" using part_hi_pos [OF z(1)] that(2) q by linarith+
        then show ?thesis using z(4) [rule_format, OF that] n [of i] by simp
      qed
      ultimately show ?thesis using z(2,5) by blast
    next
      case 3
      have "part_inv cmp a e v xs pa pb (pc - 1) pd"
      proof (rule part_invI)
        fix i assume "pc - 1 \<le> i" "i < pd"
        then show "0 < cmp (xs ! i) v" using 3 part_inv_greater [OF inv, of i] by (cases "i = pc - 1") auto
      qed (use p True part_inv_eq [OF inv] part_inv_less [OF inv] part_inv_eq2 [OF inv] in auto)
      then obtain zs pc' pd' cnt' where z: "part_hi cmp a xs pb (pc - 1) pd cnt = Inr (zs, pc', pd', cnt')"
        "part_inv cmp a e v zs pa pb pc' pd'" "perm_seg a e xs zs" "\<forall>i. i \<le> pb \<longrightarrow> i < pc' \<longrightarrow> zs ! i = xs ! i"
        "pb < pc' \<longrightarrow> cmp (zs ! (pc' - 1)) v < 0"
        using "1.IH"(2) [OF True c] 3 by auto
      have "part_hi cmp a xs pb pc pd cnt = Inr (zs, pc', pd', cnt')"
        using True c 3 z(1) by (subst part_hi.simps) simp
      then show ?thesis using z by blast
    qed
  qed
qed

lemma part_loop_spec:
  "part_inv cmp a e v xs pa pb pc pd \<Longrightarrow>
   \<exists>ys pa' pb' pd' cnt'. part_loop cmp a xs pa pb pc pd cnt = Inr (ys, pa', pb', pb', pd', cnt') \<and>
     part_inv cmp a e v ys pa' pb' pb' pd' \<and> perm_seg a e xs ys"
proof (induction cmp a xs pa pb pc pd cnt rule: part_loop.induct)
  case (1 cmp a xs pa pb pc pd cnt)
  obtain xs1 pa1 pb1 cnt1 where lo: "part_lo cmp a xs pa pb pc cnt = Inr (xs1, pa1, pb1, cnt1)"
    and i1: "part_inv cmp a e v xs1 pa1 pb1 pc pd" and p1: "perm_seg a e xs xs1" and g: "pb1 < pc \<longrightarrow> 0 < cmp (xs1 ! pb1) v"
    using part_lo_spec [OF "1.prems"] by blast
  obtain xs2 pc2 pd2 cnt2 where hi: "part_hi cmp a xs1 pb1 pc pd cnt1 = Inr (xs2, pc2, pd2, cnt2)"
    and i2: "part_inv cmp a e v xs2 pa1 pb1 pc2 pd2" and p2: "perm_seg a e xs1 xs2"
    and k: "\<forall>i. i \<le> pb1 \<longrightarrow> i < pc2 \<longrightarrow> xs2 ! i = xs1 ! i" and l: "pb1 < pc2 \<longrightarrow> cmp (xs2 ! (pc2 - 1)) v < 0"
    using part_hi_spec [OF i1] by blast
  note p = part_inv_pos [OF i2] and p12 = perm_seg_trans [OF p1 p2]
  show ?case
  proof (cases "pc2 \<le> pb1")
    case True
    then have "pc2 = pb1" using p by simp
    then show ?thesis using lo hi i2 p12 by (subst part_loop.simps) auto
  next
    case False
    have "pb1 < pc" using False part_hi_pos [OF hi] by linarith
    then have up: "0 < cmp (xs2 ! pb1) v" using False g k [rule_format, of pb1] by simp
    have down: "cmp (xs2 ! (pc2 - 1)) v < 0" using False l by simp
    then have "pb1 \<noteq> pc2 - 1" using up by auto
    then have q: "pb1 < pc2 - 1" "pc2 - 1 < pd2" "pc2 - 1 < e" "a < pb1" "a < pc2 - 1" "pc2 - 1 < pc2" using False p by linarith+
    let ?ys = "xs2[pb1 := xs2 ! (pc2 - 1), pc2 - 1 := xs2 ! pb1]"
    have len: "pb1 < length xs2" "pc2 - 1 < length xs2" using p False by linarith+
    have n: "?ys ! k = (if k = pc2 - 1 then xs2 ! pb1 else if k = pb1 then xs2 ! (pc2 - 1) else xs2 ! k)" if "k < e" for k
      using swap_nth [OF len, of k] that p by simp
    have s: "qs_swap xs2 pb1 (pc2 - 1) = Inr ?ys" by (rule swap_spec [OF len])
    have "part_inv cmp a e v ?ys pa1 (pb1 + 1) (pc2 - 1) pd2"
    proof (rule part_invI)
      fix i assume "pa1 \<le> i" "i < pb1 + 1"
      then show "cmp (?ys ! i) v < 0" using n [of i] down part_inv_less [OF i2, of i] p q by (cases "i = pb1") auto
    next
      fix i assume "pc2 - 1 \<le> i" "i < pd2"
      then show "0 < cmp (?ys ! i) v" using n [of i] up part_inv_greater [OF i2, of i] p q by (cases "i = pc2 - 1") auto
    qed (use n p q part_inv_eq [OF i2] part_inv_eq2 [OF i2] in auto)
    then obtain zs pa' pb' pd' cnt' where z: "part_loop cmp a ?ys pa1 (pb1 + 1) (pc2 - 1) pd2 True = Inr (zs, pa', pb', pb', pd', cnt')"
      "part_inv cmp a e v zs pa' pb' pb' pd'" "perm_seg a e ?ys zs"
      using "1.IH" [OF lo refl refl refl hi refl refl refl False s] by blast
    have "perm_seg a e xs2 ?ys" using p q by (intro swap_perm) auto
    then have "perm_seg a e xs zs" using p12 z(3) by (blast intro: perm_seg_trans)
    moreover have "part_loop cmp a xs pa pb pc pd cnt = Inr (zs, pa', pb', pb', pd', cnt')"
      using lo hi False s z(1) by (subst part_loop.simps) simp
    ultimately show ?thesis using z(2) by blast
  qed
qed

section \<open>The pivot and the exchange of zones\<close>

lemma med3_spec: "i < length xs \<Longrightarrow> j < length xs \<Longrightarrow> k < length xs \<Longrightarrow> \<exists>m\<in>{i, j, k}. med3 cmp xs i j k = Inr m"
  by (simp add: med3_def cmp_spec)

lemma qs_pivot_spec:
  assumes "a + n \<le> length xs" "7 \<le> n"
  shows "\<exists>m. qs_pivot cmp xs a n = Inr m \<and> a \<le> m \<and> m < a + n"
proof -
  let ?d = "n div 8" and ?pm = "a + n div 2" and ?pn = "a + (n - 1)"
  have med: "\<exists>m. med3 cmp xs i j k = Inr m \<and> a \<le> m \<and> m < a + n"
    if "a \<le> i" "i < a + n" "a \<le> j" "j < a + n" "a \<le> k" "k < a + n" for i j k
    using med3_spec [of i xs j k cmp] that assms(1) by auto
  show ?thesis
  proof (cases "40 < n")
    case True
    have d: "2 * ?d < n" "a \<le> ?pm - ?d" "?pm - ?d < a + n" "?pm + ?d < a + n" "?pm < a + n"
      "a \<le> ?pn - 2 * ?d" "a \<le> ?pn - ?d" "?pn - 2 * ?d < a + n" "?pn - ?d < a + n" "?pn < a + n"
      using True by linarith+
    obtain l where l: "med3 cmp xs a (a + ?d) (a + 2 * ?d) = Inr l" "a \<le> l" "l < a + n"
      using med [of a "a + ?d" "a + 2 * ?d"] d True by auto
    obtain m where m: "med3 cmp xs (?pm - ?d) ?pm (?pm + ?d) = Inr m" "a \<le> m" "m < a + n"
      using med [OF d(2,3) _ d(5) _ d(4)] by auto
    obtain r where r: "med3 cmp xs (?pn - 2 * ?d) (?pn - ?d) ?pn = Inr r" "a \<le> r" "r < a + n"
      using med [OF d(6,8,7,9) _ d(10)] by auto
    show ?thesis using med [of l m r] True l m r by (simp add: qs_pivot_def Let_def)
  next
    case False
    then show ?thesis using med [of a ?pm ?pn] assms(2) by (auto simp: qs_pivot_def Let_def)
  qed
qed

lemma vecswap_spec:
  "i + k \<le> j \<Longrightarrow> j + k \<le> length xs \<Longrightarrow> \<exists>ys. vecswap xs i j k = Inr ys \<and> perm_seg i (j + k) xs ys \<and>
     (\<forall>p < k. ys ! (i + p) = xs ! (j + p) \<and> ys ! (j + p) = xs ! (i + p)) \<and> (\<forall>p. i + k \<le> p \<longrightarrow> p < j \<longrightarrow> ys ! p = xs ! p)"
proof (induction k arbitrary: xs i j)
  case 0
  then show ?case by auto
next
  case (Suc k)
  let ?ys = "xs[i := xs ! j, j := xs ! i]"
  have l: "i < length xs" "j < length xs" "i \<noteq> j" using Suc.prems by linarith+
  have n: "?ys ! p = (if p = j then xs ! i else if p = i then xs ! j else xs ! p)" if "p < length xs" for p
    by (rule swap_nth [OF l(1,2) that])
  obtain zs where z: "vecswap ?ys (i + 1) (j + 1) k = Inr zs" "perm_seg (i + 1) (j + 1 + k) ?ys zs"
    "\<forall>p < k. zs ! (i + 1 + p) = ?ys ! (j + 1 + p) \<and> zs ! (j + 1 + p) = ?ys ! (i + 1 + p)"
    "\<forall>p. i + 1 + k \<le> p \<longrightarrow> p < j + 1 \<longrightarrow> zs ! p = ?ys ! p"
    using Suc.IH [of "i + 1" "j + 1" ?ys] Suc.prems by auto
  have "perm_seg i (j + Suc k) xs ?ys" using Suc.prems by (intro swap_perm) auto
  then have "perm_seg i (j + Suc k) xs zs"
    by (rule perm_seg_trans) (rule perm_seg_mono [OF z(2)], simp_all)
  moreover have "zs ! (i + p) = xs ! (j + p) \<and> zs ! (j + p) = xs ! (i + p)" if "p < Suc k" for p
  proof (cases p)
    case 0
    have "zs ! i = ?ys ! i" using perm_seg_nth [OF z(2), of i] l by simp
    moreover have "zs ! j = ?ys ! j" using z(4) Suc.prems(1) by simp
    ultimately show ?thesis using 0 n [of i] n [of j] l by simp
  next
    case (Suc q)
    then show ?thesis using z(3) [rule_format, of q] n [of "i + 1 + q"] n [of "j + 1 + q"] that Suc.prems \<open>i + Suc k \<le> j\<close> \<open>j + Suc k \<le> length xs\<close>
      by simp
  qed
  moreover have "zs ! p = xs ! p" if "i + Suc k \<le> p" "p < j" for p
    using z(4) [rule_format, of p] n [of p] that l by simp
  ultimately show ?case using z(1) swap_spec [OF l(1,2)] by auto
qed

lemma zone_swap:
  assumes "s \<le> m" "m \<le> t" "t \<le> length xs" "r = min (m - s) (t - m)"
    and P: "\<And>i. s \<le> i \<Longrightarrow> i < m \<Longrightarrow> P (xs ! i)" and Q: "\<And>i. m \<le> i \<Longrightarrow> i < t \<Longrightarrow> Q (xs ! i)"
  shows "\<exists>ys. vecswap xs s (t - r) r = Inr ys \<and> perm_seg s t xs ys \<and>
    (\<forall>i. s \<le> i \<longrightarrow> i < s + (t - m) \<longrightarrow> Q (ys ! i)) \<and> (\<forall>i. s + (t - m) \<le> i \<longrightarrow> i < t \<longrightarrow> P (ys ! i))"
proof -
  have r: "s + r \<le> m" "m \<le> t - r" "t - r + r = t" "r = m - s \<or> r = t - m" using assms(1-4) by linarith+
  obtain ys where y: "vecswap xs s (t - r) r = Inr ys" "perm_seg s t xs ys"
    and sw: "\<forall>p<r. ys ! (s + p) = xs ! (t - r + p) \<and> ys ! (t - r + p) = xs ! (s + p)"
    and mid: "\<forall>p. s + r \<le> p \<longrightarrow> p < t - r \<longrightarrow> ys ! p = xs ! p"
    using vecswap_spec [of s r "t - r" xs] r assms(3) by auto
  have lo: "Q (ys ! i)" if "s \<le> i" "i < s + r" for i
    using sw [rule_format, of "i - s"] Q [of "t - r + (i - s)"] that r by auto
  have hi: "P (ys ! i)" if "t - r \<le> i" "i < t" for i
    using sw [rule_format, of "i - (t - r)"] P [of "s + (i - (t - r))"] that r by auto
  have "Q (ys ! i)" if "s \<le> i" "i < s + (t - m)" for i
    using lo [of i] mid [rule_format, of i] Q [of i] that r by (cases "i < s + r") auto
  moreover have "P (ys ! i)" if "s + (t - m) \<le> i" "i < t" for i
    using hi [of i] mid [rule_format, of i] P [of i] that r by (cases "t - r \<le> i") auto
  ultimately show ?thesis using y by blast
qed

section \<open>The sort\<close>

text \<open>The segment is in three zones around the pivot; sorting the outer two sorts it.\<close>

definition zones :: "('a \<Rightarrow> 'a \<Rightarrow> int) \<Rightarrow> 'a \<Rightarrow> nat \<Rightarrow> nat \<Rightarrow> nat \<Rightarrow> nat \<Rightarrow> 'a list \<Rightarrow> bool" where
  "zones cmp v a l g e xs \<longleftrightarrow> a \<le> l \<and> l \<le> g \<and> g \<le> e \<and> e \<le> length xs \<and>
     (\<forall>i. a \<le> i \<longrightarrow> i < l \<longrightarrow> cmp (xs ! i) v < 0) \<and> (\<forall>i. l \<le> i \<longrightarrow> i < g \<longrightarrow> cmp (xs ! i) v = 0) \<and>
     (\<forall>i. g \<le> i \<longrightarrow> i < e \<longrightarrow> 0 < cmp (xs ! i) v)"

lemma zones_sorted:
  assumes "cmp_ok cmp" "zones cmp v a l g e xs" "sorted_seg cmp a l xs" "sorted_seg cmp g e xs"
  shows "sorted_seg cmp a e xs"
  unfolding sorted_seg_def
proof (intro allI impI)
  fix i j assume ij: "a \<le> i" "i < j" "j < e"
  note z = assms(2) [unfolded zones_def]
  consider "j < l" | "g \<le> i" | "i < g" "l \<le> j" by linarith
  then show "cmp (xs ! i) (xs ! j) \<le> 0"
  proof cases
    case 1
    then show ?thesis using assms(3) ij by (simp add: sorted_seg_def)
  next
    case 2
    then show ?thesis using assms(4) ij by (simp add: sorted_seg_def)
  next
    case 3
    have "cmp (xs ! i) v \<le> 0" using z ij 3 by (cases "i < l") auto
    moreover have "0 \<le> cmp (xs ! j) v" using z ij 3 by (cases "j < g") (auto intro: less_imp_le)
    ultimately show ?thesis by (rule cmp_around [OF assms(1)])
  qed
qed

lemma zones_perm_lo:
  assumes "zones cmp v a l g e xs" "perm_seg a l xs ys"
  shows "zones cmp v a l g e ys"
proof -
  note z = assms(1) [unfolded zones_def]
  have "cmp (ys ! i) v < 0" if "a \<le> i" "i < l" for i
    using perm_seg_all [OF assms(2), of "\<lambda>x. cmp x v < 0" i] z that by auto
  moreover have "ys ! i = xs ! i" if "l \<le> i" "i < e" for i using perm_seg_nth [OF assms(2), of i] z that by auto
  ultimately show ?thesis using z perm_seg_length [OF assms(2)] unfolding zones_def by auto
qed

lemma zones_perm_hi:
  assumes "zones cmp v a l g e xs" "perm_seg g e xs ys"
  shows "zones cmp v a l g e ys"
proof -
  note z = assms(1) [unfolded zones_def]
  have "0 < cmp (ys ! i) v" if "g \<le> i" "i < e" for i
    using perm_seg_all [OF assms(2), of "\<lambda>x. 0 < cmp x v" i] z that by auto
  moreover have "ys ! i = xs ! i" if "i < g" for i using perm_seg_nth [OF assms(2), of i] z that by auto
  ultimately show ?thesis using z perm_seg_length [OF assms(2)] unfolding zones_def by auto
qed

lemma exchange_spec:
  assumes inv: "part_inv cmp a e v xs pa pb pb pd"
  shows "\<exists>ys zs. vecswap xs a (pb - min (pa - a) (pb - pa)) (min (pa - a) (pb - pa)) = Inr ys \<and>
    vecswap ys pb (e - min (pd - pb) (e - pd)) (min (pd - pb) (e - pd)) = Inr zs \<and>
    perm_seg a e xs zs \<and> zones cmp v a (a + (pb - pa)) (e - (pd - pb)) e zs"
proof -
  note p = part_inv_pos [OF inv]
  have ps: "a \<le> pa" "pa \<le> pb" "pb \<le> length xs" "pb \<le> pd" "pd \<le> e" "e \<le> length xs" using p by linarith+
  obtain ys where y: "vecswap xs a (pb - min (pa - a) (pb - pa)) (min (pa - a) (pb - pa)) = Inr ys" "perm_seg a pb xs ys"
    "\<forall>i. a \<le> i \<longrightarrow> i < a + (pb - pa) \<longrightarrow> cmp (ys ! i) v < 0" "\<forall>i. a + (pb - pa) \<le> i \<longrightarrow> i < pb \<longrightarrow> cmp (ys ! i) v = 0"
    using zone_swap [OF ps(1,2,3) refl, of "\<lambda>x. cmp x v = 0" "\<lambda>x. cmp x v < 0"] part_inv_eq [OF inv] part_inv_less [OF inv] by blast
  have l: "length ys = length xs" by (rule perm_seg_length [OF y(2)])
  have keep: "ys ! i = xs ! i" if "pb \<le> i" "i < e" for i using perm_seg_nth [OF y(2), of i] that ps by simp
  have le: "e \<le> length ys" using l ps by simp
  have g: "0 < cmp (ys ! i) v" if "pb \<le> i" "i < pd" for i using keep [of i] part_inv_greater [OF inv, of i] that ps by simp
  have q: "cmp (ys ! i) v = 0" if "pd \<le> i" "i < e" for i using keep [of i] part_inv_eq2 [OF inv, of i] that ps by simp
  obtain zs where z: "vecswap ys pb (e - min (pd - pb) (e - pd)) (min (pd - pb) (e - pd)) = Inr zs" "perm_seg pb e ys zs"
    "\<forall>i. pb \<le> i \<longrightarrow> i < pb + (e - pd) \<longrightarrow> cmp (zs ! i) v = 0" "\<forall>i. pb + (e - pd) \<le> i \<longrightarrow> i < e \<longrightarrow> 0 < cmp (zs ! i) v"
    using zone_swap [OF ps(4,5) le refl, of "\<lambda>x. 0 < cmp x v" "\<lambda>x. cmp x v = 0"] g q by blast
  have k: "zs ! i = ys ! i" if "i < pb" for i using perm_seg_nth [OF z(2), of i] that ps l by simp
  have e: "e - (pd - pb) = pb + (e - pd)" using ps by linarith
  have "zones cmp v a (a + (pb - pa)) (e - (pd - pb)) e zs"
    unfolding zones_def e
  proof (intro conjI allI impI)
    fix i assume "a + (pb - pa) \<le> i" "i < pb + (e - pd)"
    then show "cmp (zs ! i) v = 0" using k [of i] y(4) z(3) by (cases "i < pb") auto
  qed (use k y(3) z(4) ps perm_seg_length [OF z(2)] l in auto)
  moreover have "perm_seg a e xs zs"
    using perm_seg_trans [OF perm_seg_mono [OF y(2)] perm_seg_mono [OF z(2)], of a e] ps by simp
  ultimately show ?thesis using y(1) z(1) by blast
qed

lemma sort_zones_spec:
  assumes "cmp_ok cmp" and z4: "zones cmp v a (a + l) (e - g) e xs"
    and rec: "\<And>m b zs. m < n \<Longrightarrow> b + m \<le> length zs \<Longrightarrow>
      \<exists>ys. (if 1 < m then kqsort cmp zs b m else Inr zs) = Inr ys \<and> perm_seg b (b + m) zs ys \<and> sorted_seg cmp b (b + m) ys"
    and lt: "l < n" "g < n" "g \<le> e"
  shows "\<exists>ys zs. (if 1 < l then kqsort cmp xs a l else Inr xs) = Inr ys \<and>
    (if 1 < g then kqsort cmp ys (e - g) g else Inr ys) = Inr zs \<and> perm_seg a e xs zs \<and> sorted_seg cmp a e zs"
proof -
  have eg: "e - g + g = e" using lt by linarith
  have l4: "a + l \<le> length xs" using z4 unfolding zones_def by linarith
  obtain x5 where r5: "(if 1 < l then kqsort cmp xs a l else Inr xs) = Inr x5" and
    x5: "perm_seg a (a + l) xs x5" "sorted_seg cmp a (a + l) x5"
    using rec [OF lt(1) l4] by blast
  have z5: "zones cmp v a (a + l) (e - g) e x5" by (rule zones_perm_lo [OF z4 x5(1)])
  then have zp: "a \<le> e - g" "a + l \<le> e - g" "e - g \<le> e" "e \<le> length x5" unfolding zones_def by linarith+
  then obtain x6 where r6: "(if 1 < g then kqsort cmp x5 (e - g) g else Inr x5) = Inr x6" and
    x6: "perm_seg (e - g) e x5 x6" "sorted_seg cmp (e - g) e x6"
    using rec [OF lt(2), of "e - g" x5] unfolding eg by blast
  have z6: "zones cmp v a (a + l) (e - g) e x6" by (rule zones_perm_hi [OF z5 x6(1)])
  have "sorted_seg cmp a (a + l) x6" using zp by (intro perm_seg_sorted [OF x6(1) x5(2)]) linarith+
  then have "sorted_seg cmp a e x6" by (rule zones_sorted [OF assms(1) z6 _ x6(2)])
  moreover have "perm_seg a e xs x6"
    using perm_seg_trans [OF perm_seg_mono [OF x5(1)] perm_seg_mono [OF x6(1)], of a e] zp by simp
  ultimately show ?thesis using r5 r6 by blast
qed

lemma kqsort_spec:
  "cmp_ok cmp \<Longrightarrow> a + n \<le> length xs \<Longrightarrow>
   \<exists>ys. kqsort cmp xs a n = Inr ys \<and> perm_seg a (a + n) xs ys \<and> sorted_seg cmp a (a + n) ys"
proof (induction n arbitrary: xs a rule: less_induct)
  case (less n)
  let ?e = "a + n"
  show ?case
  proof (cases "n < 7")
    case True
    then show ?thesis using ins_sort_spec [OF less.prems] by (simp add: kqsort.simps)
  next
    case False
    obtain pm where pm: "qs_pivot cmp xs a n = Inr pm" "a \<le> pm" "pm < ?e"
      using qs_pivot_spec [OF less.prems(2)] False by auto
    let ?x1 = "xs[a := xs ! pm, pm := xs ! a]" and ?v = "xs ! pm"
    have al: "a < length xs" "pm < length xs" using pm less.prems(2) by linarith+
    have sw: "qs_swap xs a pm = Inr ?x1" by (rule swap_spec [OF al])
    have x1: "perm_seg a ?e xs ?x1" using pm less.prems(2) False by (intro swap_perm) auto
    have va: "?x1 ! a = ?v" using swap_nth [OF al al(1)] by auto
    have start: "part_inv cmp a ?e ?v ?x1 (a + 1) (a + 1) ?e ?e"
      using part_inv_start [OF less.prems(1), of a ?e ?x1] va False less.prems(2) by simp
    obtain x2 pa pb pd cnt where
      lp: "part_loop cmp a ?x1 (a + 1) (a + 1) ?e ?e False = Inr (x2, pa, pb, pb, pd, cnt)" and
      inv: "part_inv cmp a ?e ?v x2 pa pb pb pd" and x2: "perm_seg a ?e ?x1 x2"
      using part_loop_spec [OF start, of False] by blast
    note run = pm(1) sw lp and x12 = perm_seg_trans [OF x1 x2] and pos = part_inv_pos [OF inv]
    have rec: "\<exists>ys. (if 1 < m then kqsort cmp zs b m else Inr zs) = Inr ys \<and> perm_seg b (b + m) zs ys \<and> sorted_seg cmp b (b + m) ys"
      if m: "m < n" "b + m \<le> length zs" for m b zs
      using less.IH [OF m(1) less.prems(1) m(2)] sorted_seg_le1 [of "b + m" b cmp zs] by (cases "1 < m") auto
    show ?thesis
    proof (cases cnt)
      case False
      obtain ys where "ins_sort cmp x2 a n = Inr ys" "perm_seg a ?e x2 ys" "sorted_seg cmp a ?e ys"
        using ins_sort_spec [OF less.prems(1), of a n x2] pos by auto
      then show ?thesis
        using False run \<open>\<not> n < 7\<close> perm_seg_trans [OF x12] by (subst kqsort.simps) simp
    next
      case True
      let ?l = "pb - pa" and ?g = "pd - pb"
      obtain x3 x4 where ex: "vecswap x2 a (pb - min (pa - a) (pb - pa)) (min (pa - a) (pb - pa)) = Inr x3"
        "vecswap x3 pb (?e - min (pd - pb) (?e - pd)) (min (pd - pb) (?e - pd)) = Inr x4"
        and x4: "perm_seg a ?e x2 x4" and z4: "zones cmp ?v a (a + ?l) (?e - ?g) ?e x4"
        using exchange_spec [OF inv] by blast
      have lt: "?l < n" "?g < n" "?g \<le> ?e" using pos by linarith+
      obtain x5 x6 where r5: "(if 1 < ?l then kqsort cmp x4 a ?l else Inr x4) = Inr x5" and
        r6: "(if 1 < ?g then kqsort cmp x5 (?e - ?g) ?g else Inr x5) = Inr x6" and
        x6: "perm_seg a ?e x4 x6" "sorted_seg cmp a ?e x6"
        using sort_zones_spec [OF less.prems(1) z4 rec lt] by blast
      have "kqsort cmp xs a n = Inr x6"
        using \<open>\<not> n < 7\<close> run True ex r5 r6 by (subst kqsort.simps) (simp add: Let_def)
      then show ?thesis using perm_seg_trans [OF x12 perm_seg_trans [OF x4 x6(1)]] x6(2) by blast
    qed
  qed
qed

section \<open>The contract of a comparison function\<close>

text \<open>What a caller of \<open>kqsort\<close> has to provide, and what it gets.\<close>

locale sort_order =
  fixes cmp :: "'a \<Rightarrow> 'a \<Rightarrow> int"
  assumes order_sym: "cmp x y < 0 \<longleftrightarrow> 0 < cmp y x"
    and order_trans: "cmp x y \<le> 0 \<Longrightarrow> cmp y z \<le> 0 \<Longrightarrow> cmp x z \<le> 0"
begin

lemma order_ok: "cmp_ok cmp"
  unfolding cmp_ok_def using order_sym order_trans by blast

lemma whole_array:
  "\<exists>ys. kqsort cmp xs 0 (length xs) = Inr ys \<and> mset ys = mset xs \<and> sorted_wrt (\<lambda>x y. cmp x y \<le> 0) ys"
proof -
  obtain ys where y: "kqsort cmp xs 0 (length xs) = Inr ys" "perm_seg 0 (length xs) xs ys" "sorted_seg cmp 0 (length xs) ys"
    using kqsort_spec [OF order_ok, of 0 "length xs" xs] by auto
  then show ?thesis by (auto simp: perm_seg_def sorted_seg_def sorted_wrt_iff_nth_less)
qed

end

end
