(* ===== verification/Kern_Time.thy ===== *)
theory Kern_Time
  imports Kern_Prelude
begin

text \<open>
  \<open>struct timeval\<close> and the operations of \<open>sys/kern/kern_time.c\<close> and \<open>sys/sys/time.h\<close> on it.  A time in normal form has
  its microseconds in the range of one second; on such times the operations are those of the total number of
  microseconds.
\<close>

record timeval =
  tvsec :: int
  tv_usec :: int

definition timevalfix :: "timeval \<Rightarrow> timeval" where
  "timevalfix t =
     (let t = (if tv_usec t < 0 then t\<lparr>tvsec := tvsec t - 1, tv_usec := tv_usec t + 1000000\<rparr> else t)
      in if 1000000 \<le> tv_usec t then t\<lparr>tvsec := tvsec t + 1, tv_usec := tv_usec t - 1000000\<rparr> else t)"

definition timevaladd :: "timeval \<Rightarrow> timeval \<Rightarrow> timeval" where
  "timevaladd t u = timevalfix (t\<lparr>tvsec := tvsec t + tvsec u, tv_usec := tv_usec t + tv_usec u\<rparr>)"

definition timevalsub :: "timeval \<Rightarrow> timeval \<Rightarrow> timeval" where
  "timevalsub t u = timevalfix (t\<lparr>tvsec := tvsec t - tvsec u, tv_usec := tv_usec t - tv_usec u\<rparr>)"

definition timevalcmp :: "(int \<Rightarrow> int \<Rightarrow> bool) \<Rightarrow> timeval \<Rightarrow> timeval \<Rightarrow> bool" where
  "timevalcmp r t u = (if tvsec t = tvsec u then r (tv_usec t) (tv_usec u) else r (tvsec t) (tvsec u))"

section \<open>Times as numbers\<close>

definition tv_ok :: "timeval \<Rightarrow> bool" where
  "tv_ok t \<longleftrightarrow> 0 \<le> tv_usec t \<and> tv_usec t < 1000000"

definition usecs :: "timeval \<Rightarrow> int" where
  "usecs t = 1000000 * tvsec t + tv_usec t"

lemma timevalsub_usecs: "usecs (timevalsub t u) = usecs t - usecs u"
  by (simp add: timevalsub_def timevalfix_def usecs_def Let_def)

lemma timevaladd_usecs: "usecs (timevaladd t u) = usecs t + usecs u"
  by (simp add: timevaladd_def timevalfix_def usecs_def Let_def)

lemma timevalsub_ok: "tv_ok t \<Longrightarrow> tv_ok u \<Longrightarrow> tv_ok (timevalsub t u)"
  by (auto simp: timevalsub_def timevalfix_def tv_ok_def Let_def)

lemma timevaladd_ok: "tv_ok t \<Longrightarrow> tv_ok u \<Longrightarrow> tv_ok (timevaladd t u)"
  by (auto simp: timevaladd_def timevalfix_def tv_ok_def Let_def)

lemma timevalcmp_less: "tv_ok t \<Longrightarrow> tv_ok u \<Longrightarrow> timevalcmp (<) t u \<longleftrightarrow> usecs t < usecs u"
  by (auto simp: timevalcmp_def tv_ok_def usecs_def)

end
