(* ===== verification/Qsort_Props.thy ===== *)
theory Qsort_Props
  imports Qsort_Spec Kern_Time
begin

text \<open>
  The quicksort sorts, and one of its callers: the order in which \<open>vinum_scandisk\<close> (\<open>sys/dev/raid/vinum\<close>) reads the
  configurations of the drives it found.
\<close>

section \<open>Drives by date\<close>

text \<open>\<open>drivecmp\<close>; \<open>DRIVE\<close> gives the time of the last update in the label of a drive.\<close>

definition drivecmp :: "(nat \<Rightarrow> timeval) \<Rightarrow> nat \<Rightarrow> nat \<Rightarrow> int" where
  "drivecmp DRIVE va vb =
     (let a = DRIVE va; b = DRIVE vb
      in if tvsec a = tvsec b \<and> tv_usec a = tv_usec b then 0
         else if tvsec b < tvsec a \<or> tvsec a = tvsec b \<and> tv_usec b < tv_usec a then - 1
         else 1)"

interpretation vinum: sort_order "drivecmp DRIVE" for DRIVE
  by unfold_locales (auto simp: drivecmp_def Let_def split: if_splits)

text \<open>The drives are read from the newest configuration to the oldest.\<close>

lemma vinum_newest_first:
  "\<exists>ys. kqsort (drivecmp DRIVE) drivelist 0 (length drivelist) = Inr ys \<and> mset ys = mset drivelist \<and>
    sorted_wrt (\<lambda>x y. \<not> timevalcmp (<) (DRIVE x) (DRIVE y)) ys"
proof -
  have d: "drivecmp DRIVE x y \<le> 0 \<Longrightarrow> \<not> timevalcmp (<) (DRIVE x) (DRIVE y)" for x y
    by (auto simp: drivecmp_def timevalcmp_def Let_def split: if_splits)
  obtain ys where y: "kqsort (drivecmp DRIVE) drivelist 0 (length drivelist) = Inr ys" "mset ys = mset drivelist"
    "sorted_wrt (\<lambda>x y. drivecmp DRIVE x y \<le> 0) ys"
    using vinum.whole_array [of DRIVE drivelist] by blast
  have "sorted_wrt (\<lambda>x y. \<not> timevalcmp (<) (DRIVE x) (DRIVE y)) ys" by (rule sorted_wrt_mono_rel [OF _ y(3)]) (rule d)
  with y(1,2) show ?thesis by blast
qed

section \<open>The property\<close>

text \<open>C39. For a comparison function that orders its arguments \<open>kqsort\<close> returns, without an access outside the array,
with the given segment in order, the same elements in the array, and nothing changed outside the segment.\<close>

theorem kqsort_sorts:
  assumes "\<forall>x y. cmp x y < 0 \<longleftrightarrow> 0 < cmp y x" "\<forall>x y z. cmp x y \<le> 0 \<longrightarrow> cmp y z \<le> 0 \<longrightarrow> cmp x z \<le> 0" "a + n \<le> length xs"
  shows "\<exists>ys. kqsort cmp xs a n = Inr ys \<and> mset ys = mset xs \<and> same_outside {a..<a + n} xs ys \<and>
    sorted_wrt (\<lambda>x y. cmp x y \<le> 0) (take n (drop a ys))"
proof -
  have "cmp_ok cmp" using assms(1,2) unfolding cmp_ok_def by blast
  then obtain ys where y: "kqsort cmp xs a n = Inr ys" "perm_seg a (a + n) xs ys" "sorted_seg cmp a (a + n) ys"
    using kqsort_spec [OF _ assms(3)] by blast
  have "sorted_wrt (\<lambda>x y. cmp x y \<le> 0) (take n (drop a ys))"
    using y(3) perm_seg_length [OF y(2)] assms(3) by (auto simp: sorted_wrt_iff_nth_less sorted_seg_def)
  moreover have "same_outside {a..<a + n} xs ys"
    unfolding same_outside_def
  proof (intro conjI allI impI)
    fix i assume i: "i < length xs" "i \<notin> {a..<a + n}"
    show "ys ! i = xs ! i" by (rule perm_seg_nth [OF y(2) _ i(1)]) (use i(2) in simp, linarith)
  qed (rule perm_seg_length [OF y(2)])
  moreover have "mset ys = mset xs" using y(2) by (simp add: perm_seg_def)
  ultimately show ?thesis using y(1) by blast
qed

theorem kqsort_sorts_witness:
  "kqsort (-) [9, 5, 2, 8, 2, 7, 1, 8, 3, 0 :: int] 1 8 = Inr [9, 1, 2, 2, 3, 5, 7, 8, 8, 0] \<and>
   (\<exists>ys. kqsort (-) [9, 5, 2, 8, 2, 7, 1, 8, 3, 0 :: int] 1 8 = Inr ys \<and>
     same_outside {1..<1 + 8} [9, 5, 2, 8, 2, 7, 1, 8, 3, 0] ys \<and> sorted_wrt (\<lambda>x y. x - y \<le> 0) (take 8 (drop 1 ys)))"
proof
  show "kqsort (-) [9, 5, 2, 8, 2, 7, 1, 8, 3, 0 :: int] 1 8 = Inr [9, 1, 2, 2, 3, 5, 7, 8, 8, 0]" by code_simp
  show "\<exists>ys. kqsort (-) [9, 5, 2, 8, 2, 7, 1, 8, 3, 0 :: int] 1 8 = Inr ys \<and>
     same_outside {1..<1 + 8} [9, 5, 2, 8, 2, 7, 1, 8, 3, 0] ys \<and> sorted_wrt (\<lambda>x y. x - y \<le> 0) (take 8 (drop 1 ys))"
    using kqsort_sorts [of "(-) :: int \<Rightarrow> int \<Rightarrow> int" 1 8 "[9, 5, 2, 8, 2, 7, 1, 8, 3, 0]"] by auto
qed

end
