(* ===== verification/Spec2Isabelle.thy ===== *)
theory Spec2Isabelle
  imports Blist_Props Quad_Props Kvprintf_Props Libkern_Props Hammer_Props Uuid_Props Qsort_Props
begin

text \<open>
  A verification library for parts of the DragonFly BSD kernel (\<open>src/sys\<close>): the swap block allocator, the run-time
  routines of \<open>libkern\<close>, formatted output and input, the locks, reference counts and on-disk helpers of the HAMMER file
  system, and universally unique identifiers.

  \<^bold>\<open>Conventions.\<close>  A routine is a function on explicit state, with the names of the source.  Its result type is
  \<open>'a kres\<close>, a sum of an error and a value: \<open>Panic\<close> is a panic or failed assertion, \<open>Bad_Access\<close> an access outside an
  array, \<open>Bad_Arg\<close> a variable argument of the wrong type, \<open>Int_Overflow\<close> and \<open>Undefined_Shift\<close> undefined arithmetic,
  \<open>Diverge\<close> a loop that stands still.  An array is a list, a pointer an index into it, and every access is checked
  (\<open>rd\<close>, \<open>wr\<close>), so that a theorem with the result \<open>Inr\<close> is also one of memory safety.  Integers whose wrap-around
  matters are words or have the reduction written out.  Every loop is a total function: by structural recursion, or by
  a measure on what is left of an array, so that no fuel is used; the only loops without a bound, those that retry a
  compare-and-set, are step relations.

  \<^bold>\<open>Prelude.\<close>  \<open>Kern_Prelude\<close> has outcomes, arrays, frame conditions, C division and bit sets of words;
  \<open>Kern_Ctype\<close> the character classes (\<open>sys/ctype.h\<close>) and strings in memory (\<open>cstr\<close>); \<open>Kern_Endian\<close> integers in byte
  streams (\<open>sys/endian.h\<close>) and their round trips.

  \<^bold>\<open>Block lists\<close> (\<open>kern/subr_blist.c\<close>).  \<open>Radix_Layout\<close> is the geometry of the radix tree in its array; \<open>Blist\<close> the
  record \<open>blist\<close> and the routines (\<open>blst_leaf_alloc\<close>, \<open>blst_meta_alloc\<close>, \<open>..._free\<close>, \<open>..._fill\<close>, \<open>blst_copy\<close>,
  \<open>blst_radix_init\<close> and the interface); \<open>Blist_Inv\<close> the invariant that relates the nodes to a set of free blocks, with
  counters and hints; \<open>Blist_Leaf\<close>, \<open>Blist_Alloc\<close>, \<open>Blist_Free\<close>, \<open>Blist_Fill\<close>, \<open>Blist_Init\<close>, \<open>Blist_Resize\<close> show
  that each routine keeps it and implements its operation on the set; \<open>Blist_Ops\<close> lifts them to the interface.
  \<open>Block_Client\<close> is the contract of an allocator as a locale, with what its clients get; \<open>Blist_Props\<close> interprets it on
  the block list.  Block numbers are integers up to \<open>BLIST_MAXBLKS\<close>, the limit of the code.

  \<^bold>\<open>64-bit arithmetic\<close> (\<open>libkern/*di3.c\<close>, \<open>qdivrem.c\<close>).  \<open>Quad\<close> has the routines on halves and their equality with
  the 64-bit operations, \<open>Quad_Div\<close> and \<open>Quad_Divrem\<close> Knuth's division on five digits whose initial contents are
  arbitrary, \<open>Quad_Props\<close> the properties.

  \<^bold>\<open>Strings, numbers, checksums\<close> (\<open>libkern\<close>).  \<open>Libkern_Str\<close> has the string routines, \<open>Strto\<close> the number parsers and a
  reference parser, \<open>Libkern_Misc\<close> bit searches, random numbers, hex dump and binary search, \<open>Crc32\<close> and \<open>Crc32_Spec\<close>
  the table-driven checksums against bitwise division and their sensitivity to changes in one byte; \<open>Libkern_Props\<close> the
  properties.

  \<^bold>\<open>Sorting\<close> (\<open>libkern/qsort.c\<close>).  \<open>Qsort\<close> is the quicksort on arrays of elements, \<open>Qsort_Spec\<close> shows that it sorts and
  has the contract of a comparison function as the locale \<open>sort_order\<close>, \<open>Qsort_Props\<close> interprets it on the order in
  which vinum reads its drives.  \<open>Kern_Time\<close> has the arithmetic of \<open>struct timeval\<close>.

  \<^bold>\<open>Formatted output and input\<close> (\<open>kern/subr_prf.c\<close>, \<open>kern/subr_scanf.c\<close>).  \<open>Kvprintf\<close> is the format interpreter and the
  entry points that print into a buffer, \<open>Kvprintf_Spec\<close> what it prints, \<open>Kvprintf_Props\<close> the round trips with the
  parsers and the bounds of buffers.  \<open>Scanf\<close> is the interpreter of \<open>kvsscanf\<close>; what it stores is returned as a list.

  \<^bold>\<open>HAMMER\<close> (\<open>vfs/hammer/hammer_subs.c\<close>).  \<open>Hammer_Cas\<close> is a machine that interleaves threads at single memory
  accesses and runs routines given as bodies of a compare-and-set loop, with sleeping and waking; its locale
  \<open>cas_protocol\<close> turns an inductive invariant into reachability and absence of lost wakeups, and \<open>cas_loops\<close> bounds the
  steps of an undisturbed routine.  \<open>Hammer_Lock\<close> and \<open>Hammer_Refs\<close> translate the lock and reference routines;
  \<open>Hammer_Lock_Inv\<close> and \<open>Hammer_Refs_Inv\<close> have their invariants and interpret both locales.  The number of threads is a
  parameter and the counters have room for it.  \<open>Hammer_Misc\<close> and \<open>Hammer_Misc_Spec\<close> are checksums, directory keys,
  transaction ids and conversions; \<open>Hammer_Props\<close> has the properties.

  \<^bold>\<open>UUIDs\<close> (\<open>kern/kern_uuid.c\<close>).  \<open>Uuid\<close> has the generator, comparison, byte streams, printing and parsing;
  \<open>Uuid_Codec\<close>, \<open>Uuid_Spec\<close>, \<open>Uuid_Gen\<close> and \<open>Uuid_Text\<close> show what they compute (the last composes the format
  interpreters of output and input), \<open>Uuid_Props\<close> has the properties.  What the network, the random source and the clock
  deliver is an argument of a call.

  \<^bold>\<open>Not modelled.\<close>  Of the modelled files: debugging output and the stand-alone test programs, the return of memory
  (\<open>blist_destroy\<close>), console and log output of \<open>subr_prf.c\<close>, the word-wise memory routines of \<open>libkern\<close>, and the
  transaction wrappers of the HAMMER lock.  The rest of the kernel (devices, virtual memory, network, file systems,
  scheduling), userland and third-party code is outside the library: it is code over hardware, tables of the whole system
  or system calls, and the parts above are the ones with contracts of their own.
\<close>

end
